(* ===== verification/Prelude.thy ===== *)
theory Prelude
  imports Main "HOL-Library.Word" "HOL-Library.List_Lexorder" "HOL-Library.Char_ord"
begin

text \<open>
  Shared vocabulary of the development: names for the machine types the C++ code uses, the
  idioms on \<^verbatim>\<open>std::list\<close> that several components repeat, and the generic lemmas on lists,
  characters and words that the component proofs rest on.

  A C++ \<^verbatim>\<open>char\<close> is a HOL \<^typ>\<open>char\<close> and a \<^verbatim>\<open>std::string\<close> a \<^typ>\<open>string\<close>. The ordering of strings
  (\<open>HOL-Library.List_Lexorder\<close> over \<open>HOL-Library.Char_ord\<close>) is the lexicographic ordering by unsigned
  character code that \<^verbatim>\<open>std::string::operator<\<close> uses.
\<close>

unbundle bit_operations_syntax

type_synonym u8 = "8 word"
type_synonym u16 = "16 word"
type_synonym u32 = "32 word"
type_synonym u64 = "64 word"

named_theorems codec_simps \<open>evaluation of the marshalling primitives on well-formed buffers\<close>
named_theorems frame_simps \<open>fields and entries an operation leaves alone\<close>
named_theorems inv_intros \<open>preservation of component invariants\<close>

section \<open>Idioms on std::list\<close>

text \<open>
  \<^verbatim>\<open>if (std::find(l.begin(), l.end(), x) == l.end()) l.push_back(x);\<close>
\<close>

definition push_if_absent :: "'a \<Rightarrow> 'a list \<Rightarrow> 'a list" where
  "push_if_absent x xs = (if x \<in> set xs then xs else xs @ [x])"

lemma set_push_if_absent [simp]: "set (push_if_absent x xs) = insert x (set xs)"
  by (auto simp: push_if_absent_def)

lemma distinct_push_if_absent [simp]: "distinct (push_if_absent x xs) = distinct xs"
  by (auto simp: push_if_absent_def)

lemma push_if_absent_idem [simp]:
  "push_if_absent x (push_if_absent x xs) = push_if_absent x xs"
  by (simp add: push_if_absent_def)

lemma push_if_absent_not_Nil [simp]: "push_if_absent x xs \<noteq> []"
  by (auto simp: push_if_absent_def)

lemma hd_push_if_absent: "xs \<noteq> [] \<Longrightarrow> hd (push_if_absent x xs) = hd xs"
  by (simp add: push_if_absent_def)

section \<open>Lists\<close>

lemma list_update_at_length: "i = length xs \<Longrightarrow> (xs @ y # ys)[i := z] = xs @ z # ys"
  by simp

lemma take_list_update_Suc:
  "i < length xs \<Longrightarrow> take (Suc i) (xs[i := y]) = take i xs @ [y]"
  by (simp add: take_Suc_conv_app_nth)

lemma push_if_absent_append: "\<exists>ys. push_if_absent x xs = xs @ ys"
  by (simp add: push_if_absent_def)

text \<open>\<^verbatim>\<open>std::list::erase\<close> at a position.\<close>

definition erase :: "nat \<Rightarrow> 'a list \<Rightarrow> 'a list" where
  "erase i xs = take i xs @ drop (Suc i) xs"

lemma set_erase_subset: "set (erase i xs) \<subseteq> set xs"
  by (auto simp: erase_def dest: in_set_takeD in_set_dropD)

lemma erase_nth_other: "i < length xs \<Longrightarrow> x \<in> set xs \<Longrightarrow> x \<noteq> xs ! i \<Longrightarrow> x \<in> set (erase i xs)"
  unfolding erase_def by (metis Cons_nth_drop_Suc append_take_drop_id in_set_conv_decomp_first set_ConsD Un_iff set_append)

lemma find_map_same:
  assumes "\<And>x. P (f x) = P x" and "find P xs = Some x"
  shows "find P (map f xs) = Some (f x)"
  using assms(2) by (induction xs) (auto simp: assms(1) split: if_splits)

lemma drop_eq_ConsD:
  assumes "drop n xs = y # ys"
  shows "n < length xs \<and> xs ! n = y \<and> drop (Suc n) xs = ys"
proof -
  from assms have n: "n < length xs"
    by (metis drop_all list.distinct(1) not_less)
  with assms show ?thesis
    by (simp add: Cons_nth_drop_Suc [symmetric])
qed

lemma count_list_filter: "count_list xs x = length (filter (\<lambda>y. y = x) xs)"
  by (induction xs) auto

section \<open>Words\<close>

lemma word_succ_neq: "(x :: 'a::len word) + 1 \<noteq> x"
  by simp

lemma word_le_iff_less_or_eq: "(a :: 'a::len word) \<le> b \<longleftrightarrow> a < b \<or> a = b"
  by auto

text \<open>Adding one to a word that is below another does not wrap around.\<close>

lemma word_less_succ_le:
  fixes a b :: "'a::len word"
  assumes "a < b"
  shows "a < a + 1 \<and> a + 1 \<le> b"
proof -
  have le: "unat a + 1 \<le> unat b"
    using assms by (simp add: word_less_nat_alt)
  also have "unat b < 2 ^ LENGTH('a)"
    by (rule unsigned_less)
  finally have "unat (a + 1) = unat a + 1"
    by (simp add: unat_word_ariths)
  with le show ?thesis
    by (simp add: word_less_nat_alt word_le_nat_alt)
qed

lemma word_le_succD:
  fixes a x :: "'a::len word"
  assumes "x \<le> a + 1"
  shows "x \<le> a \<or> x = a + 1"
proof (cases "a < x")
  case True
  then have "a + 1 \<le> x" by (rule word_less_succ_le [THEN conjunct2])
  with assms show ?thesis by simp
next
  case False
  then show ?thesis by (simp add: not_less)
qed

end
