(* ===== verification/Stdcxx.thy ===== *)
theory Stdcxx
  imports Prelude
begin

text \<open>
  The part of the C++ standard library the program's text formats rest on: formatted input from
  \<^verbatim>\<open>std::istream\<close> (\<^verbatim>\<open>operator>>\<close> for strings and unsigned integers, \<^verbatim>\<open>get\<close>, \<^verbatim>\<open>getline\<close>) and decimal
  output of unsigned integers. The YFS directory format, the Paxos log and the view values of the
  configuration service are all written and read with these.

  A stream is the text not yet extracted and the fail bit. The end-of-file bit needs no field: it is
  set only when an extraction has met the end of the text, so that the next extraction fails,
  as it does from the empty rest. An extraction takes the old value of its target,
  because the library leaves the target alone when the sentry of the extraction fails.
\<close>

record istream =
  is_buf :: string
  is_fail :: bool

definition istringstream :: "string \<Rightarrow> istream" where
  "istringstream s = \<lparr>is_buf = s, is_fail = False\<rparr>"

section \<open>Character classes\<close>

text \<open>The white space of the C locale: space, and the control characters 9 to 13.\<close>

definition isspace :: "char \<Rightarrow> bool" where
  "isspace c \<longleftrightarrow> (let n = of_char c :: nat in n = 32 \<or> (9 \<le> n \<and> n \<le> 13))"

definition isdigit :: "char \<Rightarrow> bool" where
  "isdigit c \<longleftrightarrow> (let n = of_char c :: nat in 48 \<le> n \<and> n \<le> 57)"

abbreviation newline :: char where
  "newline \<equiv> char_of (10::nat)"

definition digit_char :: "nat \<Rightarrow> char" where
  "digit_char d = char_of (48 + d)"

definition digit_val :: "char \<Rightarrow> nat" where
  "digit_val c = of_char c - 48"

section \<open>Extraction\<close>

text \<open>\<^verbatim>\<open>is >> str\<close>\<close>

definition get_token :: "istream \<Rightarrow> string \<Rightarrow> istream \<times> string" where
  "get_token s old =
     (if is_fail s then (s, old)
      else let r = dropWhile isspace (is_buf s) in
        if r = [] then (s\<lparr>is_buf := [], is_fail := True\<rparr>, old)
        else (s\<lparr>is_buf := dropWhile (\<lambda>c. \<not> isspace c) r\<rparr>, takeWhile (\<lambda>c. \<not> isspace c) r))"

definition dec_value :: "string \<Rightarrow> nat" where
  "dec_value ds = foldl (\<lambda>n c. n * 10 + digit_val c) 0 ds"

text \<open>
  \<^verbatim>\<open>is >> x\<close> for an unsigned integer \<^verbatim>\<open>x\<close> of the width of \<^typ>\<open>'w word\<close>: white space is skipped, an
  optional sign and a run of digits are read. No digits: the fail bit and 0. A value out of range:
  the fail bit and the largest value. A minus sign negates modulo the width.
\<close>

definition get_unsigned :: "istream \<Rightarrow> 'w::len word \<Rightarrow> istream \<times> 'w word" where
  "get_unsigned s old =
     (if is_fail s then (s, old)
      else let r = dropWhile isspace (is_buf s) in
        if r = [] then (s\<lparr>is_buf := [], is_fail := True\<rparr>, old)
        else
          let neg = (hd r = CHR ''-'');
              r' = (if hd r = CHR ''-'' \<or> hd r = CHR ''+'' then tl r else r);
              ds = takeWhile isdigit r';
              n = dec_value ds;
              s' = s\<lparr>is_buf := dropWhile isdigit r'\<rparr>
          in if ds = [] then (s'\<lparr>is_fail := True\<rparr>, 0)
             else if n \<ge> 2 ^ LENGTH('w) then (s'\<lparr>is_fail := True\<rparr>, -1)
             else (s', if neg then - word_of_nat n else word_of_nat n))"

text \<open>\<^verbatim>\<open>is.get()\<close>, its result dropped\<close>

definition get_char :: "istream \<Rightarrow> istream" where
  "get_char s =
     (if is_fail s then s
      else case is_buf s of
        [] \<Rightarrow> s\<lparr>is_fail := True\<rparr>
      | c # cs \<Rightarrow> s\<lparr>is_buf := cs\<rparr>)"

text \<open>
  \<^verbatim>\<open>getline(is, str)\<close>. At the end of the text the target is cleared; no caller in the program looks
  at it after a failed call.
\<close>

definition getline :: "istream \<Rightarrow> string \<Rightarrow> istream \<times> string" where
  "getline s old =
     (if is_fail s then (s, old)
      else if is_buf s = [] then (s\<lparr>is_fail := True\<rparr>, [])
      else (s\<lparr>is_buf := drop 1 (dropWhile (\<lambda>c. c \<noteq> newline) (is_buf s))\<rparr>,
            takeWhile (\<lambda>c. c \<noteq> newline) (is_buf s)))"

section \<open>Output of unsigned integers\<close>

fun show_nat :: "nat \<Rightarrow> string" where
  "show_nat n =
     (if n < 10 then [digit_char n] else show_nat (n div 10) @ [digit_char (n mod 10)])"

declare show_nat.simps [simp del]

definition show_word :: "'w::len word \<Rightarrow> string" where
  "show_word w = show_nat (unat w)"

section \<open>Printing and reading back\<close>

lemma of_char_digit_char: "d < 10 \<Longrightarrow> of_char (digit_char d) = 48 + d"
  by (simp add: digit_char_def)

lemma isdigit_digit_char [simp]: "d < 10 \<Longrightarrow> isdigit (digit_char d)"
  by (simp add: isdigit_def of_char_digit_char)

lemma digit_val_digit_char [simp]: "d < 10 \<Longrightarrow> digit_val (digit_char d) = d"
  by (simp add: digit_val_def of_char_digit_char)

lemma isdigit_not_isspace: "isdigit c \<Longrightarrow> \<not> isspace c"
  by (auto simp: isdigit_def isspace_def Let_def)

lemma isspace_newline [simp]: "isspace newline"
  by (simp add: isspace_def)

lemma isspace_space [simp]: "isspace CHR '' ''"
  by (simp add: isspace_def)

lemma space_not_newline [simp]: "CHR '' '' \<noteq> newline" "newline \<noteq> CHR '' ''"
  by (simp_all add: char_of_def)

lemma isdigit_not_newline: "isdigit c \<Longrightarrow> c \<noteq> newline"
  using isdigit_not_isspace isspace_newline by blast

lemma isdigit_not_sign: "isdigit c \<Longrightarrow> c \<noteq> CHR ''-'' \<and> c \<noteq> CHR ''+''"
  by (auto simp: isdigit_def)

lemma show_nat_not_Nil [simp]: "show_nat n \<noteq> []"
  by (subst show_nat.simps) simp

lemma show_nat_digits: "c \<in> set (show_nat n) \<Longrightarrow> isdigit c"
proof (induction n rule: show_nat.induct)
  case (1 n)
  show ?case
  proof (cases "n < 10")
    case True
    with "1.prems" show ?thesis by (simp add: show_nat.simps [of n])
  next
    case False
    with "1.prems" have "c \<in> set (show_nat (n div 10)) \<or> c = digit_char (n mod 10)"
      by (auto simp: show_nat.simps [of n])
    with "1.IH" False show ?thesis by auto
  qed
qed

lemma dec_value_snoc: "dec_value (ds @ [c]) = dec_value ds * 10 + digit_val c"
  by (simp add: dec_value_def)

lemma dec_value_show_nat [simp]: "dec_value (show_nat n) = n"
proof (induction n rule: show_nat.induct)
  case (1 n)
  show ?case
  proof (cases "n < 10")
    case True
    then show ?thesis by (simp add: show_nat.simps [of n] dec_value_def)
  next
    case False
    with "1.IH" show ?thesis by (simp add: show_nat.simps [of n] dec_value_snoc)
  qed
qed

lemma show_nat_inject [simp]: "show_nat m = show_nat n \<longleftrightarrow> m = n"
  by (metis dec_value_show_nat)

lemma show_word_not_Nil [simp]: "show_word w \<noteq> []"
  by (simp add: show_word_def)

lemma show_word_digits: "c \<in> set (show_word w) \<Longrightarrow> isdigit c"
  by (auto simp: show_word_def dest: show_nat_digits)

lemma show_word_no_space: "c \<in> set (show_word w) \<Longrightarrow> \<not> isspace c"
  by (blast dest: show_word_digits isdigit_not_isspace)

lemma show_word_inject [simp]: "show_word v = show_word w \<longleftrightarrow> v = w"
  by (simp add: show_word_def word_unat_eq_iff)

text \<open>A token is a non-empty string without white space: what \<^verbatim>\<open>operator>>\<close> reads in one piece.\<close>

definition token :: "string \<Rightarrow> bool" where
  "token s \<longleftrightarrow> s \<noteq> [] \<and> (\<forall>c\<in>set s. \<not> isspace c)"

lemma token_show_word [simp]: "token (show_word w)"
  by (auto simp: token_def dest: show_word_no_space)

lemma dropWhile_head: "xs \<noteq> [] \<Longrightarrow> \<not> P (hd xs) \<Longrightarrow> dropWhile P (xs @ ys) = xs @ ys"
  by (cases xs) auto

lemma token_hd: "token s \<Longrightarrow> \<not> isspace (hd s)"
  by (auto simp: token_def)

lemma token_dropWhile [simp]: "token s \<Longrightarrow> dropWhile isspace (s @ r) = s @ r"
  by (simp add: dropWhile_head token_hd token_def)

lemma token_dropWhile0: "token s \<Longrightarrow> dropWhile isspace s = s"
  using token_dropWhile [of s "[]"] by simp

lemma get_token_token:
  assumes "token t" and "isspace c"
  shows "get_token \<lparr>is_buf = t @ c # r, is_fail = False\<rparr> old =
    (\<lparr>is_buf = c # r, is_fail = False\<rparr>, t)"
proof -
  have "t @ c # r \<noteq> []" by simp
  moreover have "takeWhile (\<lambda>c. \<not> isspace c) (t @ c # r) = t"
    using assms by (auto simp: token_def takeWhile_append)
  moreover have "dropWhile (\<lambda>c. \<not> isspace c) (t @ c # r) = c # r"
    using assms by (auto simp: token_def dropWhile_append)
  ultimately show ?thesis
    using assms(1) by (simp add: get_token_def Let_def)
qed

text \<open>Leading white space in front of a token is skipped.\<close>

lemma get_token_skip:
  "isspace c \<Longrightarrow> get_token \<lparr>is_buf = c # r, is_fail = False\<rparr> old =
    get_token \<lparr>is_buf = r, is_fail = False\<rparr> old"
  by (simp add: get_token_def Let_def)

lemma get_token_blank:
  "\<forall>c\<in>set r. isspace c \<Longrightarrow> get_token \<lparr>is_buf = r, is_fail = False\<rparr> old =
    (\<lparr>is_buf = [], is_fail = True\<rparr>, old)"
  by (simp add: get_token_def)

lemma get_unsigned_show_word:
  fixes w :: "'w::len word"
  assumes "\<not> isdigit c"
  shows "get_unsigned \<lparr>is_buf = show_word w @ c # r, is_fail = False\<rparr> old =
    (\<lparr>is_buf = c # r, is_fail = False\<rparr>, w)"
proof -
  have ne: "show_word w @ c # r \<noteq> []" by simp
  have sg: "hd (show_word w @ c # r) \<noteq> CHR ''-''" "hd (show_word w @ c # r) \<noteq> CHR ''+''"
    using isdigit_not_sign show_word_digits [of _ w] hd_in_set [OF show_word_not_Nil [of w]]
    by (auto simp: hd_append)
  have tk: "takeWhile isdigit (show_word w @ c # r) = show_word w"
    using assms by (auto simp: takeWhile_append dest: show_word_digits)
  have dp: "dropWhile isdigit (show_word w @ c # r) = c # r"
    using assms by (auto simp: dropWhile_append dest: show_word_digits)
  have val: "dec_value (show_word w) = unat w" by (simp add: show_word_def)
  have "unat w < 2 ^ LENGTH('w)" by (rule unsigned_less)
  then show ?thesis
    using ne sg tk dp val by (simp add: get_unsigned_def Let_def not_le)
qed

lemma get_unsigned_skip:
  "isspace c \<Longrightarrow> get_unsigned \<lparr>is_buf = c # r, is_fail = False\<rparr> old =
    get_unsigned \<lparr>is_buf = r, is_fail = False\<rparr> old"
  by (simp add: get_unsigned_def Let_def)

lemma get_unsigned_show_word_end:
  fixes w :: "'w::len word"
  shows "get_unsigned \<lparr>is_buf = show_word w, is_fail = False\<rparr> old =
    (\<lparr>is_buf = [], is_fail = False\<rparr>, w)"
proof -
  have sg: "hd (show_word w) \<noteq> CHR ''-''" "hd (show_word w) \<noteq> CHR ''+''"
    using isdigit_not_sign show_word_digits [of _ w] hd_in_set [OF show_word_not_Nil [of w]] by auto
  have tk: "takeWhile isdigit (show_word w) = show_word w"
    and dp: "dropWhile isdigit (show_word w) = []"
    using takeWhile_eq_all_conv [of isdigit "show_word w"] by (auto dest: show_word_digits)
  have val: "dec_value (show_word w) = unat w" by (simp add: show_word_def)
  have "unat w < 2 ^ LENGTH('w)" by (rule unsigned_less)
  then show ?thesis
    unfolding get_unsigned_def Let_def istream.simps token_dropWhile0 [OF token_show_word]
    by (simp add: sg tk dp val not_le del: takeWhile_eq_all_conv dropWhile_eq_Nil_conv)
qed

lemma getline_line:
  assumes "newline \<notin> set l"
  shows "getline \<lparr>is_buf = l @ newline # r, is_fail = False\<rparr> old =
    (\<lparr>is_buf = r, is_fail = False\<rparr>, l)"
proof -
  have "takeWhile (\<lambda>c. c \<noteq> newline) (l @ newline # r) = l"
    using assms by (auto simp: takeWhile_append)
  moreover have "dropWhile (\<lambda>c. c \<noteq> newline) (l @ newline # r) = newline # r"
    using assms by (auto simp: dropWhile_append)
  ultimately show ?thesis by (simp add: getline_def)
qed

lemma get_char_Cons [simp]:
  "get_char \<lparr>is_buf = c # r, is_fail = False\<rparr> = \<lparr>is_buf = r, is_fail = False\<rparr>"
  by (simp add: get_char_def)

section \<open>Every extraction consumes text\<close>

lemma length_dropWhile_lt: "xs \<noteq> [] \<Longrightarrow> P (hd xs) \<Longrightarrow> length (dropWhile P xs) < length xs"
  by (cases xs) (auto simp: le_imp_less_Suc length_dropWhile_le)

lemma get_token_consumes:
  assumes "get_token s old = (s', t)" and "\<not> is_fail s'"
  shows "length (is_buf s') < length (is_buf s)"
proof -
  let ?r = "dropWhile isspace (is_buf s)"
  have r: "?r \<noteq> []" "is_buf s' = dropWhile (\<lambda>c. \<not> isspace c) ?r"
    using assms by (auto simp: get_token_def Let_def split: if_splits)
  have "length (dropWhile (\<lambda>c. \<not> isspace c) ?r) < length ?r"
    using r(1) hd_dropWhile [OF r(1)] by (intro length_dropWhile_lt) auto
  then show ?thesis using r(2) length_dropWhile_le [of isspace "is_buf s"] by simp
qed

lemma get_token_le: "length (is_buf (fst (get_token s old))) \<le> length (is_buf s)"
  using length_dropWhile_le [of isspace "is_buf s"] length_dropWhile_le [of "\<lambda>c. \<not> isspace c" "dropWhile isspace (is_buf s)"]
  by (auto simp: get_token_def Let_def intro: le_trans)

lemma get_unsigned_le: "length (is_buf (fst (get_unsigned s old))) \<le> length (is_buf s)"
proof -
  let ?r = "dropWhile isspace (is_buf s)"
  let ?r' = "if hd ?r = CHR ''-'' \<or> hd ?r = CHR ''+'' then tl ?r else ?r"
  have "length (dropWhile isdigit ?r') \<le> length ?r'" by (rule length_dropWhile_le)
  moreover have "length ?r' \<le> length ?r" by simp
  moreover have "length ?r \<le> length (is_buf s)" by (rule length_dropWhile_le)
  ultimately have "length (dropWhile isdigit ?r') \<le> length (is_buf s)" by linarith
  then show ?thesis by (auto simp: get_unsigned_def Let_def split: if_splits)
qed

end
