(* ===== verification/Marshall.thy ===== *)
theory Marshall
  imports Prelude "HOL-Library.Monad_Syntax"
begin

text \<open>
  The marshalling layer of the RPC library: \<^verbatim>\<open>rpc/marshall.h\<close> and the marshalling half of
  \<^verbatim>\<open>rpc/rpc.cc\<close>. A \<^verbatim>\<open>marshall\<close> object is a growable buffer with a write head that starts behind the
  24 header bytes; an \<^verbatim>\<open>unmarshall\<close> object is a received buffer with a read head and an \<^verbatim>\<open>ok\<close> bit.

  A buffer cell is an optional character: \<^const>\<open>None\<close> is a byte that \<^verbatim>\<open>malloc\<close> or \<^verbatim>\<open>realloc\<close> returned and
  nobody has written. Allocation is assumed to succeed. The capacity and the write head are an
  \<^verbatim>\<open>int\<close> each: \<open>m_undef\<close> says that one of them has overflowed or that \<^verbatim>\<open>memcpy\<close> was called with a negative
  size, after which the program's behaviour is undefined and the other fields mean nothing. Every
  extraction has the type of a partial function: \<^const>\<open>None\<close> is a read outside the buffer, which is
  undefined behaviour in the source.

  The locale \<open>codec\<close> states what a pair of insertion and extraction operators promises; the operators
  of the primitive types, of strings and of containers are interpretations of it or are derived
  inside it. The message structs of the protocols interpret it in their own theories.
\<close>

section \<open>The output buffer\<close>

definition RPC_HEADER_SZ :: nat where
  "RPC_HEADER_SZ = max 20 8 + 4"

definition DEFAULT_RPC_SZ :: nat where
  "DEFAULT_RPC_SZ = 1024"

lemma RPC_HEADER_SZ_eq [simp]: "RPC_HEADER_SZ = 24"
  by (simp add: RPC_HEADER_SZ_def)

record marshall =
  m_buf :: "char option list"
  m_capa :: nat
  m_ind :: nat
  m_undef :: bool

definition marshall_new :: marshall where
  "marshall_new = \<lparr>m_buf = replicate DEFAULT_RPC_SZ None, m_capa = DEFAULT_RPC_SZ,
                   m_ind = RPC_HEADER_SZ, m_undef = False\<rparr>"

text \<open>A value that is not an \<^verbatim>\<open>int\<close>.\<close>

definition overflows :: "nat \<Rightarrow> bool" where
  "overflows n \<longleftrightarrow> n \<ge> 2 ^ 31"

definition realloc :: "char option list \<Rightarrow> nat \<Rightarrow> char option list" where
  "realloc b n = take n b @ replicate (n - length b) None"

definition memcpy :: "char option list \<Rightarrow> nat \<Rightarrow> string \<Rightarrow> char option list" where
  "memcpy b i p = take i b @ map Some p @ drop (i + length p) b"

definition m_rawbyte :: "u8 \<Rightarrow> marshall \<Rightarrow> marshall" where
  "m_rawbyte x m =
     (let m1 = (if m_ind m \<ge> m_capa m
                then m\<lparr>m_capa := m_capa m * 2, m_buf := realloc (m_buf m) (m_capa m * 2),
                       m_undef := m_undef m \<or> overflows (m_capa m * 2)\<rparr>
                else m)
      in m1\<lparr>m_buf := (m_buf m1)[m_ind m1 := Some (char_of (unat x))], m_ind := m_ind m1 + 1\<rparr>)"

text \<open>The growth step of \<^verbatim>\<open>rawbytes\<close> for a size that is not negative.\<close>

definition m_grow :: "nat \<Rightarrow> marshall \<Rightarrow> marshall" where
  "m_grow n m =
     (if m_ind m + n > m_capa m
      then let c = (if m_capa m > n then 2 * m_capa m else m_capa m + n)
           in m\<lparr>m_capa := c, m_buf := realloc (m_buf m) c,
                m_undef := m_undef m \<or> overflows (m_ind m + n) \<or> overflows c\<rparr>
      else m\<lparr>m_undef := m_undef m \<or> overflows (m_ind m + n)\<rparr>)"

text \<open>
  \<^verbatim>\<open>rawbytes(p, n)\<close> with the size of a string for \<^verbatim>\<open>n\<close>: the conversion to \<^verbatim>\<open>int\<close> takes the low 32 bits as
  a signed number. A negative size passes the growth check and makes \<^verbatim>\<open>memcpy\<close> run out of the buffer.
\<close>

definition m_rawbytes :: "string \<Rightarrow> marshall \<Rightarrow> marshall" where
  "m_rawbytes p m =
     (let n = sint (word_of_nat (length p) :: u32)
      in if n < 0 then m\<lparr>m_undef := True\<rparr>
         else let m1 = m_grow (nat n) m
              in m1\<lparr>m_buf := memcpy (m_buf m1) (m_ind m1) (take (nat n) p), m_ind := m_ind m1 + nat n\<rparr>)"

definition m_get_content :: "marshall \<Rightarrow> char option list" where
  "m_get_content m = take (m_ind m - RPC_HEADER_SZ) (drop RPC_HEADER_SZ (m_buf m))"

definition m_take_buf :: "marshall \<Rightarrow> char option list \<times> nat" where
  "m_take_buf m = (m_buf m, m_ind m)"

section \<open>Insertion operators\<close>

definition put_uchar :: "u8 \<Rightarrow> marshall \<Rightarrow> marshall" where
  "put_uchar x m = m_rawbyte x m"

definition put_char :: "char \<Rightarrow> marshall \<Rightarrow> marshall" where
  "put_char x m = put_uchar (word_of_nat (of_char x)) m"

definition put_ushort :: "u16 \<Rightarrow> marshall \<Rightarrow> marshall" where
  "put_ushort x m = m_rawbyte (ucast (x AND 0xff)) (m_rawbyte (ucast (drop_bit 8 x AND 0xff)) m)"

definition put_uint :: "u32 \<Rightarrow> marshall \<Rightarrow> marshall" where
  "put_uint x m =
     m_rawbyte (ucast (x AND 0xff))
      (m_rawbyte (ucast (drop_bit 8 x AND 0xff))
        (m_rawbyte (ucast (drop_bit 16 x AND 0xff))
          (m_rawbyte (ucast (drop_bit 24 x AND 0xff)) m)))"

definition put_short :: "u16 \<Rightarrow> marshall \<Rightarrow> marshall" where
  "put_short x m = put_ushort x m"

text \<open>An \<^verbatim>\<open>int\<close> is kept as its 32-bit pattern; the conversion to \<^verbatim>\<open>unsigned int\<close> keeps the pattern.\<close>

definition put_int :: "u32 \<Rightarrow> marshall \<Rightarrow> marshall" where
  "put_int x m = put_uint x m"

definition put_string :: "string \<Rightarrow> marshall \<Rightarrow> marshall" where
  "put_string s m = m_rawbytes s (put_uint (word_of_nat (length s)) m)"

definition put_ull :: "u64 \<Rightarrow> marshall \<Rightarrow> marshall" where
  "put_ull x m = put_uint (ucast x) (put_uint (ucast (drop_bit 32 x)) m)"

text \<open>\<^verbatim>\<open>marshall::pack\<close> shifts a signed \<^verbatim>\<open>int\<close>, so its shifts are arithmetic.\<close>

definition m_pack :: "u32 \<Rightarrow> marshall \<Rightarrow> marshall" where
  "m_pack x m =
     m_rawbyte (ucast (x AND 0xff))
      (m_rawbyte (ucast (signed_drop_bit 8 x AND 0xff))
        (m_rawbyte (ucast (signed_drop_bit 16 x AND 0xff))
          (m_rawbyte (ucast (signed_drop_bit 24 x AND 0xff)) m)))"

fun put_elems :: "('a \<Rightarrow> marshall \<Rightarrow> marshall) \<Rightarrow> 'a list \<Rightarrow> marshall \<Rightarrow> marshall" where
  "put_elems p [] m = m"
| "put_elems p (x # xs) m = put_elems p xs (p x m)"

definition put_vector :: "('a \<Rightarrow> marshall \<Rightarrow> marshall) \<Rightarrow> 'a list \<Rightarrow> marshall \<Rightarrow> marshall" where
  "put_vector p v m = put_elems p v (put_uint (word_of_nat (length v)) m)"

record req_header =
  rq_xid :: u32
  rq_proc :: u32
  rq_clt_nonce :: u32
  rq_srv_nonce :: u32
  rq_xid_rep :: u32

record reply_header =
  rp_xid :: u32
  rp_ret :: u32

definition pack_req_header :: "req_header \<Rightarrow> marshall \<Rightarrow> marshall" where
  "pack_req_header h m =
     (let saved_sz = m_ind m;
          m1 = m\<lparr>m_ind := 4\<rparr>;
          m2 = m_pack (rq_xid_rep h)
                (m_pack (rq_srv_nonce h)
                  (m_pack (rq_clt_nonce h)
                    (m_pack (rq_proc h)
                      (m_pack (rq_xid h) m1))))
      in m2\<lparr>m_ind := saved_sz\<rparr>)"

definition pack_reply_header :: "reply_header \<Rightarrow> marshall \<Rightarrow> marshall" where
  "pack_reply_header h m =
     (let saved_sz = m_ind m;
          m1 = m\<lparr>m_ind := 4\<rparr>;
          m2 = m_pack (rp_ret h) (m_pack (rp_xid h) m1)
      in m2\<lparr>m_ind := saved_sz\<rparr>)"

section \<open>The input buffer and the extraction operators\<close>

record unmarshall =
  u_buf :: string
  u_sz :: nat
  u_ind :: nat
  u_ok :: bool

type_synonym 'a getter = "'a \<Rightarrow> unmarshall \<Rightarrow> ('a \<times> unmarshall) option"

definition unmarshall_of :: "string \<Rightarrow> unmarshall" where
  "unmarshall_of b = \<lparr>u_buf = b, u_sz = length b, u_ind = 0, u_ok = True\<rparr>"

text \<open>
  \<^verbatim>\<open>take_content\<close> allocates room for a header in front of the content; \<open>junk\<close> is what the allocated
  header bytes happen to hold.
\<close>

definition take_content :: "string \<Rightarrow> string \<Rightarrow> unmarshall" where
  "take_content junk s = \<lparr>u_buf = take RPC_HEADER_SZ junk @ s, u_sz = length s + RPC_HEADER_SZ,
                          u_ind = RPC_HEADER_SZ, u_ok = True\<rparr>"

definition take_in :: "unmarshall \<Rightarrow> unmarshall" where
  "take_in another = \<lparr>u_buf = u_buf another, u_sz = u_sz another, u_ind = RPC_HEADER_SZ,
                      u_ok = (u_sz another \<ge> RPC_HEADER_SZ)\<rparr>"

definition okdone :: "unmarshall \<Rightarrow> bool" where
  "okdone u \<longleftrightarrow> u_ok u \<and> u_ind u = u_sz u"

text \<open>
  \<^verbatim>\<open>char\<close> is signed, so the conversion of the byte to \<^verbatim>\<open>unsigned int\<close> extends its sign; the callers mask
  it with \<^verbatim>\<open>0xff\<close>.
\<close>

definition ext_char :: "char \<Rightarrow> u32" where
  "ext_char c = scast (word_of_nat (of_char c) :: u8)"

definition u_rawbyte :: "unmarshall \<Rightarrow> u32 \<times> unmarshall" where
  "u_rawbyte u =
     (if u_ind u \<ge> u_sz u then (0, u\<lparr>u_ok := False\<rparr>)
      else (ext_char (u_buf u ! u_ind u), u\<lparr>u_ind := u_ind u + 1\<rparr>))"

text \<open>
  \<^verbatim>\<open>unmarshall::rawbytes\<close>: the bound is checked in 32-bit unsigned arithmetic. When the check passes and
  the bytes are not all inside the buffer, the construction of the string reads outside it.
\<close>

definition u_rawbytes :: "string \<Rightarrow> u32 \<Rightarrow> unmarshall \<Rightarrow> (string \<times> unmarshall) option" where
  "u_rawbytes ss n u =
     (if word_of_nat (u_ind u) + n > (word_of_nat (u_sz u) :: u32) then Some (ss, u\<lparr>u_ok := False\<rparr>)
      else if u_ind u + unat n \<le> length (u_buf u)
      then Some (take (unat n) (drop (u_ind u) (u_buf u)), u\<lparr>u_ind := u_ind u + unat n\<rparr>)
      else None)"

definition get_uchar :: "u8 getter" where
  "get_uchar old u = (let (a, u1) = u_rawbyte u in Some (ucast a, u1))"

definition get_char8 :: "char getter" where
  "get_char8 old u = (let (a, u1) = u_rawbyte u in Some (char_of (unat (ucast a :: u8)), u1))"

definition get_ushort :: "u16 getter" where
  "get_ushort old u =
     (let (a, u1) = u_rawbyte u; (b, u2) = u_rawbyte u1
      in Some (ucast (push_bit 8 (a AND 0xff)) OR ucast (b AND 0xff), u2))"

definition get_short :: "u16 getter" where
  "get_short old u =
     (let (a, u1) = u_rawbyte u; (b, u2) = u_rawbyte u1
      in Some (ucast (push_bit 8 (a AND 0xff)) OR ucast (b AND 0xff), u2))"

definition get_uint :: "u32 getter" where
  "get_uint old u =
     (let (a, u1) = u_rawbyte u; (b, u2) = u_rawbyte u1;
          (c, u3) = u_rawbyte u2; (d, u4) = u_rawbyte u3
      in Some (push_bit 24 (a AND 0xff) OR push_bit 16 (b AND 0xff)
               OR push_bit 8 (c AND 0xff) OR (d AND 0xff), u4))"

definition get_int :: "u32 getter" where
  "get_int old u = get_uint old u"

definition get_ull :: "u64 getter" where
  "get_ull old u =
     do { (h, u1) \<leftarrow> get_uint 0 u;
          (l, u2) \<leftarrow> get_uint 0 u1;
          Some (ucast l OR push_bit 32 (ucast h), u2) }"

definition get_string :: "string getter" where
  "get_string old u =
     do { (sz, u1) \<leftarrow> get_uint 0 u;
          if u_ok u1 then u_rawbytes old sz u1 else Some (old, u1) }"

fun get_elems :: "'a getter \<Rightarrow> 'a \<Rightarrow> nat \<Rightarrow> 'a list getter" where
  "get_elems g z 0 v u = Some (v, u)"
| "get_elems g z (Suc n) v u = do { (x, u1) \<leftarrow> g z u; get_elems g z n (v @ [x]) u1 }"

text \<open>\<^verbatim>\<open>operator>>\<close> for a vector appends to the vector; \<open>z\<close> is the freshly declared element.\<close>

definition get_vector :: "'a getter \<Rightarrow> 'a \<Rightarrow> 'a list getter" where
  "get_vector g z v u = do { (n, u1) \<leftarrow> get_uint 0 u; get_elems g z (unat n) v u1 }"

definition u_unpack :: "unmarshall \<Rightarrow> u32 \<times> unmarshall" where
  "u_unpack u =
     (let (a, u1) = u_rawbyte u; (b, u2) = u_rawbyte u1;
          (c, u3) = u_rawbyte u2; (d, u4) = u_rawbyte u3
      in (push_bit 24 (a AND 0xff) OR push_bit 16 (b AND 0xff)
          OR push_bit 8 (c AND 0xff) OR (d AND 0xff), u4))"

definition unpack_req_header :: "unmarshall \<Rightarrow> req_header \<times> unmarshall" where
  "unpack_req_header u =
     (let (a, u1) = u_unpack (u\<lparr>u_ind := 4\<rparr>); (b, u2) = u_unpack u1; (c, u3) = u_unpack u2;
          (d, u4) = u_unpack u3; (e, u5) = u_unpack u4
      in (\<lparr>rq_xid = a, rq_proc = b, rq_clt_nonce = c, rq_srv_nonce = d, rq_xid_rep = e\<rparr>,
          u5\<lparr>u_ind := RPC_HEADER_SZ\<rparr>))"

definition unpack_reply_header :: "unmarshall \<Rightarrow> reply_header \<times> unmarshall" where
  "unpack_reply_header u =
     (let (a, u1) = u_unpack (u\<lparr>u_ind := 4\<rparr>); (b, u2) = u_unpack u1
      in (\<lparr>rp_xid = a, rp_ret = b\<rparr>, u2\<lparr>u_ind := RPC_HEADER_SZ\<rparr>))"

section \<open>Well-formed output buffers\<close>

text \<open>
  The buffer has the recorded capacity, the write head is inside it and behind the header, and the
  capacity is at most twice what has been written (or the initial one), so that it does not
  overflow an \<^verbatim>\<open>int\<close> before a gigabyte has been marshalled.
\<close>

definition m_room :: "marshall \<Rightarrow> bool" where
  "m_room m \<longleftrightarrow> length (m_buf m) = m_capa m \<and> m_ind m \<le> m_capa m \<and> 0 < m_capa m"

definition m_wf :: "marshall \<Rightarrow> bool" where
  "m_wf m \<longleftrightarrow> m_room m \<and> RPC_HEADER_SZ \<le> m_ind m \<and> m_capa m \<le> max DEFAULT_RPC_SZ (2 * m_ind m)"

text \<open>Everything in front of the write head.\<close>

definition m_written :: "marshall \<Rightarrow> char option list" where
  "m_written m = take (m_ind m) (m_buf m)"

lemma m_wf_new [simp]: "m_wf marshall_new"
  by (simp add: m_wf_def m_room_def marshall_new_def DEFAULT_RPC_SZ_def)

lemma m_wf_room: "m_wf m \<Longrightarrow> m_room m"
  by (simp add: m_wf_def)

lemma length_realloc [simp]: "length (realloc b n) = n"
  by (simp add: realloc_def)

lemma take_realloc: "i \<le> length b \<Longrightarrow> i \<le> n \<Longrightarrow> take i (realloc b n) = take i b"
  by (simp add: realloc_def)

lemma m_rawbyte_room:
  assumes "m_room m"
  shows "m_room (m_rawbyte x m)"
    and "m_written (m_rawbyte x m) = m_written m @ [Some (char_of (unat x))]"
    and "m_ind (m_rawbyte x m) = m_ind m + 1"
  using assms
  by (auto simp: m_rawbyte_def m_room_def m_written_def Let_def take_realloc take_Suc_conv_app_nth)

lemma m_rawbyte_wf:
  assumes "m_wf m"
  shows "m_wf (m_rawbyte x m)"
proof -
  have "m_capa (m_rawbyte x m) \<le> max DEFAULT_RPC_SZ (2 * m_ind (m_rawbyte x m))"
    using assms by (auto simp: m_rawbyte_def m_wf_def m_room_def Let_def)
  with assms show ?thesis
    using m_rawbyte_room [OF m_wf_room [OF assms], of x] by (simp add: m_wf_def)
qed

text \<open>A byte written where there is room leaves the rest of the buffer alone.\<close>

lemma m_rawbyte_inside:
  assumes "m_ind m < m_capa m"
  shows "m_rawbyte x m =
    m\<lparr>m_buf := (m_buf m)[m_ind m := Some (char_of (unat x))], m_ind := m_ind m + 1\<rparr>"
  using assms by (simp add: m_rawbyte_def)

text \<open>After the growth step of \<^verbatim>\<open>rawbytes\<close> the copy fits.\<close>

lemma m_grow_fits:
  assumes "m_room m"
  shows "m_ind (m_grow n m) + n \<le> m_capa (m_grow n m)"
    and "length (m_buf (m_grow n m)) = m_capa (m_grow n m)"
    and "take (m_ind m) (m_buf (m_grow n m)) = m_written m"
    and "m_ind (m_grow n m) = m_ind m"
    and "0 < m_capa (m_grow n m)"
  using assms by (auto simp: m_grow_def m_room_def m_written_def Let_def take_realloc)

lemma sint_small: "n < 2 ^ 31 \<Longrightarrow> sint (word_of_nat n :: u32) = int n"
proof -
  assume n: "n < 2 ^ 31"
  then have "uint (word_of_nat n :: u32) = int n" by (simp add: unsigned_of_nat take_bit_nat_eq_self)
  then show ?thesis using n by (simp only: sint_uint) (simp add: signed_take_bit_int_eq_self)
qed

lemma m_rawbytes_small:
  "length p < 2 ^ 31 \<Longrightarrow> m_rawbytes p m =
     (let m1 = m_grow (length p) m
      in m1\<lparr>m_buf := memcpy (m_buf m1) (m_ind m1) p, m_ind := m_ind m1 + length p\<rparr>)"
  by (simp add: m_rawbytes_def sint_small Let_def)

lemma m_rawbytes_room:
  assumes "m_room m" and "length p < 2 ^ 31"
  shows "m_room (m_rawbytes p m)"
    and "m_written (m_rawbytes p m) = m_written m @ map Some p"
    and "m_ind (m_rawbytes p m) = m_ind m + length p"
  using m_grow_fits [OF assms(1), of "length p"] assms
  by (simp_all add: m_rawbytes_small m_room_def m_written_def memcpy_def Let_def)

lemma m_rawbytes_wf:
  assumes "m_wf m" and "length p < 2 ^ 31"
  shows "m_wf (m_rawbytes p m)"
proof -
  have "m_capa (m_rawbytes p m) \<le> max DEFAULT_RPC_SZ (2 * m_ind (m_rawbytes p m))"
    using assms by (auto simp: m_rawbytes_small m_grow_def m_wf_def m_room_def Let_def)
  with assms show ?thesis
    using m_rawbytes_room [OF m_wf_room [OF assms(1)] assms(2)] by (simp add: m_wf_def)
qed

text \<open>Up to a gigabyte no \<^verbatim>\<open>int\<close> of the buffer overflows.\<close>

lemma m_rawbyte_undef:
  assumes "m_wf m" and "m_ind m + 1 \<le> 2 ^ 30"
  shows "m_undef (m_rawbyte x m) = m_undef m"
  using assms by (auto simp: m_rawbyte_def m_wf_def m_room_def overflows_def Let_def)

lemma m_rawbytes_undef:
  assumes "m_wf m" and "m_ind m + length p \<le> 2 ^ 30"
  shows "m_undef (m_rawbytes p m) = m_undef m"
  using assms by (auto simp: m_rawbytes_small m_grow_def m_wf_def m_room_def overflows_def Let_def)

lemma m_rawbytes_negative:
  assumes "2 ^ 31 \<le> length p" and "length p < 2 ^ 32"
  shows "m_rawbytes p m = m\<lparr>m_undef := True\<rparr>"
proof -
  have "uint (word_of_nat (length p) :: u32) = int (length p)"
    using assms(2) by (simp add: unsigned_of_nat take_bit_nat_eq_self)
  moreover have "int (length p) div 2 ^ 31 = 1" using assms by simp
  ultimately have "sint (word_of_nat (length p) :: u32) = int (length p) - 2 ^ 32"
    using assms by (simp only: sint_uint) (simp add: signed_take_bit_eq_take_bit_minus take_bit_int_eq_self bit_iff_odd)
  then show ?thesis using assms(2) by (simp add: m_rawbytes_def)
qed

lemma m_get_content_written:
  "m_wf m \<Longrightarrow> m_get_content m = drop RPC_HEADER_SZ (m_written m)"
  by (simp add: m_get_content_def m_written_def drop_take)

lemma length_m_written: "m_wf m \<Longrightarrow> length (m_written m) = m_ind m"
  by (simp add: m_written_def m_wf_def m_room_def)

section \<open>Reading at a position\<close>

text \<open>The unread part of a well-formed input buffer.\<close>

definition u_at :: "unmarshall \<Rightarrow> string \<Rightarrow> bool" where
  "u_at u s \<longleftrightarrow> u_ok u \<and> u_sz u = length (u_buf u) \<and> u_sz u < 2 ^ 31 \<and> u_ind u \<le> u_sz u
     \<and> drop (u_ind u) (u_buf u) = s"

definition u_adv :: "nat \<Rightarrow> unmarshall \<Rightarrow> unmarshall" where
  "u_adv n u = u\<lparr>u_ind := u_ind u + n\<rparr>"

lemma u_adv_0 [simp]: "u_adv 0 u = u"
  by (simp add: u_adv_def)

lemma u_adv_add [simp]: "u_adv n (u_adv m u) = u_adv (m + n) u"
  by (simp add: u_adv_def add.assoc)

lemma u_ok_adv [simp]: "u_ok (u_adv n u) = u_ok u"
  by (simp add: u_adv_def)

lemma u_at_ok: "u_at u s \<Longrightarrow> u_ok u"
  by (simp add: u_at_def)

lemma u_at_length: "u_at u s \<Longrightarrow> u_sz u = u_ind u + length s"
  by (auto simp: u_at_def)

lemma u_at_adv: "u_at u (s @ r) \<Longrightarrow> u_at (u_adv (length s) u) r"
proof -
  assume a: "u_at u (s @ r)"
  then have "drop (length s) (drop (u_ind u) (u_buf u)) = r"
    by (simp add: u_at_def)
  then have "drop (u_ind u + length s) (u_buf u) = r"
    by (simp add: add.commute)
  with a u_at_length [OF a] show ?thesis
    by (simp add: u_at_def u_adv_def)
qed

lemma u_at_adv1: "u_at u (c # r) \<Longrightarrow> u_at (u_adv 1 u) r"
  using u_at_adv [of u "[c]" r] by simp

lemma okdone_at: "u_at u s \<Longrightarrow> okdone u \<longleftrightarrow> s = []"
  using u_at_length [of u s] u_at_ok [of u s] by (simp add: okdone_def)

lemma u_rawbyte_at:
  assumes "u_at u (c # r)"
  shows "u_rawbyte u = (ext_char c, u_adv 1 u)"
proof -
  from assms have "u_ind u < length (u_buf u)" and "u_buf u ! u_ind u = c"
    by (auto simp: u_at_def dest: drop_eq_ConsD)
  with assms show ?thesis
    by (simp add: u_rawbyte_def u_at_def u_adv_def)
qed

lemma u_rawbytes_at:
  assumes at: "u_at u (s @ r)" and n: "unat n = length s"
  shows "u_rawbytes old n u = Some (s, u_adv (length s) u)"
proof -
  have len: "u_sz u = u_ind u + length s + length r"
    using u_at_length [OF at] by simp
  have sz: "u_sz u < 2 ^ 31" and buf: "length (u_buf u) = u_sz u"
    and dr: "drop (u_ind u) (u_buf u) = s @ r"
    using at by (auto simp: u_at_def)
  have "unat (word_of_nat (u_ind u) + n) = u_ind u + length s"
    using len sz n by (simp add: unat_word_ariths unat_of_nat)
  moreover have "unat (word_of_nat (u_sz u) :: u32) = u_sz u"
    using sz by (simp add: unat_of_nat)
  ultimately have "\<not> word_of_nat (u_ind u) + n > (word_of_nat (u_sz u) :: u32)"
    using len by (simp add: word_less_nat_alt)
  then show ?thesis
    using n len buf dr by (simp add: u_rawbytes_def u_adv_def)
qed

section \<open>Bytes of a word\<close>

abbreviation byte_char :: "'w::len word \<Rightarrow> char" where
  "byte_char b \<equiv> char_of (unat (ucast b :: u8))"

lemma ext_char_mask [simp]: "ext_char c AND 0xff = word_of_nat (of_char c)"
proof -
  have "ext_char c AND mask 8 = ucast (word_of_nat (of_char c) :: u8)"
    unfolding ext_char_def
    by (rule bit_word_eqI) (auto simp: bit_simps)
  also have "\<dots> = word_of_nat (of_char c)"
    by (simp add: unsigned_of_nat take_bit_nat_eq_self)
  finally show ?thesis by (simp add: mask_eq_exp_minus_1)
qed

lemma of_char_byte_char: "of_char (char_of (unat (b :: u8))) = unat b"
proof -
  have "unat b < 256" using unsigned_less [of b] by simp
  then show ?thesis by (simp add: take_bit_nat_eq_self)
qed

lemma ext_char_byte: "ext_char (char_of (unat (b :: u8))) AND 0xff = ucast b"
  by (simp only: ext_char_mask of_char_byte_char) simp

lemma word32_of_bytes:
  fixes x :: u32
  shows "push_bit 24 (ucast (ucast (drop_bit 24 x AND 0xff) :: u8))
    OR push_bit 16 (ucast (ucast (drop_bit 16 x AND 0xff) :: u8))
    OR push_bit 8 (ucast (ucast (drop_bit 8 x AND 0xff) :: u8))
    OR ucast (ucast (x AND 0xff) :: u8) = x" (is "?l = x")
proof (rule bit_word_eqI)
  have m: "(0xff :: u32) = mask 8"
    by (simp add: mask_eq_exp_minus_1)
  fix n
  assume "n < LENGTH(32)"
  then consider "n < 8" | "8 \<le> n" "n < 16" | "16 \<le> n" "n < 24" | "24 \<le> n" "n < 32"
    by fastforce
  then show "bit ?l n = bit x n"
    unfolding m by cases (simp_all add: bit_simps, (auto)?)
qed

section \<open>The interface of an insertion and an extraction operator\<close>

text \<open>
  \<open>enc\<close> is the wire format of a type: what \<^verbatim>\<open>operator<<\<close> appends and \<^verbatim>\<open>operator>>\<close> consumes; \<open>encodable\<close> says
  which values have one (a string must be shorter than 2 GB). Up to a gigabyte in the buffer no
  \<^verbatim>\<open>int\<close> overflows.
\<close>

locale codec =
  fixes enc :: "'a \<Rightarrow> string"
    and put :: "'a \<Rightarrow> marshall \<Rightarrow> marshall"
    and get :: "'a getter"
    and encodable :: "'a \<Rightarrow> bool"
  assumes put_wf: "m_wf m \<Longrightarrow> encodable x \<Longrightarrow> m_wf (put x m)"
    and put_written: "m_wf m \<Longrightarrow> encodable x \<Longrightarrow> m_written (put x m) = m_written m @ map Some (enc x)"
    and put_undef: "m_wf m \<Longrightarrow> encodable x \<Longrightarrow> m_ind m + length (enc x) \<le> 2 ^ 30 \<Longrightarrow> m_undef (put x m) = m_undef m"
    and get_enc: "u_at u (enc x @ r) \<Longrightarrow> encodable x \<Longrightarrow> get old u = Some (x, u_adv (length (enc x)) u)"
begin

lemma put_ind:
  assumes "m_wf m" and "encodable x"
  shows "m_ind (put x m) = m_ind m + length (enc x)"
  using arg_cong [OF put_written [OF assms], of length] length_m_written [OF assms(1)]
    length_m_written [OF put_wf [OF assms]] by simp

lemma get_content_put:
  assumes "m_wf m" and "encodable x"
  shows "m_get_content (put x m) = m_get_content m @ map Some (enc x)"
proof -
  have "RPC_HEADER_SZ \<le> length (m_written m)"
    using assms(1) by (simp add: length_m_written) (simp add: m_wf_def)
  then show ?thesis
    using assms put_wf [OF assms] by (simp add: m_get_content_written put_written)
qed

lemma get_enc_done:
  assumes "u_at u (enc x)" and "encodable x"
  shows "\<exists>u'. get old u = Some (x, u') \<and> okdone u'"
proof -
  have "get old u = Some (x, u_adv (length (enc x)) u)"
    using get_enc [of u x "[]"] assms by simp
  moreover have "okdone (u_adv (length (enc x)) u)"
    using okdone_at u_at_adv [of u "enc x" "[]"] assms(1) by simp
  ultimately show ?thesis by blast
qed

text \<open>What one side writes into a fresh buffer, the other side reads, and nothing is left over.\<close>

lemma roundtrip:
  assumes "encodable x" and "length junk = 24" and "length (enc x) < 2 ^ 31 - 24"
  shows "m_get_content (put x marshall_new) = map Some (enc x)"
    and "\<exists>u. get old (take_content junk (enc x)) = Some (x, u) \<and> okdone u"
    and "length (enc x) \<le> 2 ^ 30 - 24 \<Longrightarrow> \<not> m_undef (put x marshall_new)"
proof -
  show "\<not> m_undef (put x marshall_new)" if "length (enc x) \<le> 2 ^ 30 - 24"
    using put_undef [OF m_wf_new assms(1)] that by (simp add: marshall_new_def)
  show "m_get_content (put x marshall_new) = map Some (enc x)"
    using get_content_put [OF m_wf_new assms(1)]
    by (simp add: m_get_content_def marshall_new_def)
  have "u_at (take_content junk (enc x)) (enc x)"
    using assms(2,3) by (simp add: u_at_def take_content_def)
  then show "\<exists>u. get old (take_content junk (enc x)) = Some (x, u) \<and> okdone u"
    using assms(1) by (rule get_enc_done)
qed

lemma put_elems_written:
  "m_wf m \<Longrightarrow> list_all encodable xs \<Longrightarrow>
    m_wf (put_elems put xs m) \<and>
    m_written (put_elems put xs m) = m_written m @ map Some (concat (map enc xs))"
  by (induction xs arbitrary: m) (simp_all add: put_wf put_written)

lemma put_elems_undef:
  "m_wf m \<Longrightarrow> list_all encodable xs \<Longrightarrow> m_ind m + length (concat (map enc xs)) \<le> 2 ^ 30 \<Longrightarrow>
    m_undef (put_elems put xs m) = m_undef m"
  by (induction xs arbitrary: m) (simp_all add: put_wf put_ind put_undef)

lemma get_elems_enc:
  "u_at u (concat (map enc xs) @ r) \<Longrightarrow> list_all encodable xs \<Longrightarrow>
    get_elems get z (length xs) v u = Some (v @ xs, u_adv (length (concat (map enc xs))) u)"
proof (induction xs arbitrary: u v)
  case Nil
  then show ?case by simp
next
  case (Cons x xs)
  have at: "u_at u (enc x @ concat (map enc xs) @ r)"
    using Cons.prems(1) by simp
  have "get z u = Some (x, u_adv (length (enc x)) u)"
    using get_enc [OF at] Cons.prems(2) by simp
  moreover have "get_elems get z (length xs) (v @ [x]) (u_adv (length (enc x)) u) =
      Some ((v @ [x]) @ xs, u_adv (length (concat (map enc xs))) (u_adv (length (enc x)) u))"
    using Cons.IH [OF u_at_adv [OF at]] Cons.prems(2) by simp
  ultimately show ?case by (simp add: add.commute)
qed

end

section \<open>The primitive types are codecs\<close>

definition be16 :: "u16 \<Rightarrow> string" where
  "be16 x = [byte_char (drop_bit 8 x AND 0xff), byte_char (x AND 0xff)]"

definition be32 :: "u32 \<Rightarrow> string" where
  "be32 x = [byte_char (drop_bit 24 x AND 0xff), byte_char (drop_bit 16 x AND 0xff),
             byte_char (drop_bit 8 x AND 0xff), byte_char (x AND 0xff)]"

definition be64 :: "u64 \<Rightarrow> string" where
  "be64 x = be32 (ucast (drop_bit 32 x)) @ be32 (ucast x)"

definition enc_string :: "string \<Rightarrow> string" where
  "enc_string s = be32 (word_of_nat (length s)) @ s"

definition string_ok :: "string \<Rightarrow> bool" where
  "string_ok s \<longleftrightarrow> length s < 2 ^ 31"

lemma length_be32 [simp]: "length (be32 x) = 4"
  by (simp add: be32_def)

lemma length_be64 [simp]: "length (be64 x) = 8"
  by (simp add: be64_def)

lemma length_enc_string [simp]: "length (enc_string s) = 4 + length s"
  by (simp add: enc_string_def)

lemma put_uint_written:
  assumes "m_wf m"
  shows "m_wf (put_uint x m)" and "m_written (put_uint x m) = m_written m @ map Some (be32 x)"
    and "m_ind (put_uint x m) = m_ind m + 4"
    and "m_ind m + 4 \<le> 2 ^ 30 \<Longrightarrow> m_undef (put_uint x m) = m_undef m"
  using assms by (simp_all add: put_uint_def be32_def m_rawbyte_wf m_rawbyte_room m_wf_room m_rawbyte_undef)

lemma get_uint_at:
  assumes "u_at u (be32 x @ r)"
  shows "get_uint old u = Some (x, u_adv 4 u)"
proof -
  obtain a b c d where abcd: "be32 x = [char_of (unat (a::u8)), char_of (unat (b::u8)),
      char_of (unat (c::u8)), char_of (unat (d::u8))]"
    and x: "push_bit 24 (ucast a) OR push_bit 16 (ucast b) OR push_bit 8 (ucast c) OR ucast d = x"
    using that [OF be32_def word32_of_bytes] .
  from assms abcd have at: "u_at u (char_of (unat a) # char_of (unat b) # char_of (unat c)
      # char_of (unat d) # r)"
    by simp
  show ?thesis
    unfolding get_uint_def u_rawbyte_at [OF at] u_rawbyte_at [OF u_at_adv1 [OF at]]
      u_rawbyte_at [OF u_at_adv1 [OF u_at_adv1 [OF at]]]
      u_rawbyte_at [OF u_at_adv1 [OF u_at_adv1 [OF u_at_adv1 [OF at]]]]
      Let_def prod.case ext_char_byte x
    by (simp add: u_adv_def)
qed

interpretation uint: codec be32 put_uint get_uint "\<lambda>_. True"
  by unfold_locales (simp_all add: put_uint_written get_uint_at)

interpretation sint: codec be32 put_int get_int "\<lambda>_. True"
  by unfold_locales (simp_all add: put_int_def get_int_def put_uint_written get_uint_at)

lemma word64_of_halves:
  fixes x :: u64
  shows "ucast (ucast x :: u32) OR push_bit 32 (ucast (ucast (drop_bit 32 x) :: u32)) = x"
  by (rule bit_word_eqI) (auto simp: bit_simps)

lemma get_ull_at:
  assumes "u_at u (be64 x @ r)"
  shows "get_ull old u = Some (x, u_adv 8 u)"
proof -
  from assms have at: "u_at u (be32 (ucast (drop_bit 32 x)) @ be32 (ucast x) @ r)"
    by (simp add: be64_def)
  have at2: "u_at (u_adv 4 u) (be32 (ucast x) @ r)"
    using u_at_adv [OF at] by simp
  show ?thesis
    using get_uint_at [OF at] get_uint_at [OF at2]
    by (simp add: get_ull_def word64_of_halves)
qed

interpretation ull: codec be64 put_ull get_ull "\<lambda>_. True"
  by unfold_locales (simp_all add: put_ull_def be64_def put_uint_written get_ull_at [unfolded be64_def])

lemma get_string_at:
  assumes "u_at u (enc_string s @ r)" and "string_ok s"
  shows "get_string old u = Some (s, u_adv (4 + length s) u)"
proof -
  from assms(1) have at: "u_at u (be32 (word_of_nat (length s)) @ s @ r)"
    by (simp add: enc_string_def)
  have at2: "u_at (u_adv 4 u) (s @ r)"
    using u_at_adv [OF at] by simp
  have len: "unat (word_of_nat (length s) :: u32) = length s"
    using assms(2) by (simp add: string_ok_def unat_of_nat)
  show ?thesis
    using get_uint_at [OF at] u_rawbytes_at [OF at2 len] u_at_ok [OF at]
    by (simp add: get_string_def)
qed

interpretation str: codec enc_string put_string get_string string_ok
proof
  fix m s
  assume m: "m_wf m" and s: "string_ok s"
  let ?m = "put_uint (word_of_nat (length s)) m"
  have w: "m_wf ?m" and l: "length s < 2 ^ 31" using put_uint_written(1) [OF m] s by (simp_all add: string_ok_def)
  show "m_wf (put_string s m)" using m_rawbytes_wf [OF w l] by (simp add: put_string_def)
  show "m_written (put_string s m) = m_written m @ map Some (enc_string s)"
    using m_rawbytes_room(2) [OF m_wf_room [OF w] l] put_uint_written(2) [OF m]
    by (simp add: put_string_def enc_string_def)
  show "m_undef (put_string s m) = m_undef m" if "m_ind m + length (enc_string s) \<le> 2 ^ 30"
    using m_rawbytes_undef [OF w, of s] put_uint_written(3,4) [OF m, of "word_of_nat (length s)"] that
    by (simp add: put_string_def)
qed (simp add: get_string_at)

lemma ucast_ext_char: "ucast (ext_char c) = (word_of_nat (of_char c) :: u8)"
  unfolding ext_char_def by (rule bit_word_eqI) (auto simp: bit_simps)

interpretation uchar: codec "\<lambda>x :: u8. [char_of (unat x)]" put_uchar get_uchar "\<lambda>_. True"
  by unfold_locales
    (simp_all add: put_uchar_def m_rawbyte_wf m_rawbyte_room m_rawbyte_undef m_wf_room get_uchar_def u_rawbyte_at
      ucast_ext_char of_char_byte_char del: of_char_of)

interpretation schar: codec "\<lambda>c. [c]" put_char get_char8 "\<lambda>_. True"
  by unfold_locales
    (simp_all add: put_char_def put_uchar_def m_rawbyte_wf m_rawbyte_room m_rawbyte_undef m_wf_room get_char8_def
      u_rawbyte_at ucast_ext_char unat_of_nat)

lemma word16_of_bytes:
  fixes x :: u16
  shows "(ucast (push_bit 8 (ucast (ucast (drop_bit 8 x AND 0xff) :: u8) :: u32)) :: u16)
    OR ucast (ucast (ucast (x AND 0xff) :: u8) :: u32) = x" (is "?l = x")
proof (rule bit_word_eqI)
  have m: "(0xff :: u16) = mask 8"
    by (simp add: mask_eq_exp_minus_1)
  fix n
  assume "n < LENGTH(16)"
  then consider "n < 8" | "8 \<le> n" "n < 16"
    by fastforce
  then show "bit ?l n = bit x n"
    unfolding m by cases (simp_all add: bit_simps, (auto)?)
qed

lemma length_be16 [simp]: "length (be16 x) = 2"
  by (simp add: be16_def)

lemma get_short_eq: "get_short old u = get_ushort old u"
  by (simp add: get_short_def get_ushort_def)

lemma put_ushort_written:
  assumes "m_wf m"
  shows "m_wf (put_ushort x m)" and "m_written (put_ushort x m) = m_written m @ map Some (be16 x)"
    and "m_ind m + 2 \<le> 2 ^ 30 \<Longrightarrow> m_undef (put_ushort x m) = m_undef m"
  using assms by (simp_all add: put_ushort_def be16_def m_rawbyte_wf m_rawbyte_room m_wf_room m_rawbyte_undef)

lemma get_ushort_at:
  assumes "u_at u (be16 x @ r)"
  shows "get_ushort old u = Some (x, u_adv 2 u)"
proof -
  obtain a b where ab: "be16 x = [char_of (unat (a::u8)), char_of (unat (b::u8))]"
    and x: "(ucast (push_bit 8 (ucast a :: u32)) :: u16) OR ucast (ucast b :: u32) = x"
    using that [OF be16_def word16_of_bytes] .
  from assms ab have at: "u_at u (char_of (unat a) # char_of (unat b) # r)"
    by simp
  show ?thesis
    unfolding get_ushort_def u_rawbyte_at [OF at] u_rawbyte_at [OF u_at_adv1 [OF at]]
      Let_def prod.case ext_char_byte x
    by (simp add: u_adv_def)
qed

interpretation ushort: codec be16 put_ushort get_ushort "\<lambda>_. True"
  by unfold_locales (simp_all add: put_ushort_written get_ushort_at)

interpretation short: codec be16 put_short get_short "\<lambda>_. True"
  by unfold_locales (simp_all add: put_short_def put_ushort_written get_short_eq get_ushort_at)

section \<open>Vectors\<close>

definition enc_vector :: "('a \<Rightarrow> string) \<Rightarrow> 'a list \<Rightarrow> string" where
  "enc_vector e xs = be32 (word_of_nat (length xs)) @ concat (map e xs)"

definition vector_ok :: "('a \<Rightarrow> bool) \<Rightarrow> 'a list \<Rightarrow> bool" where
  "vector_ok ok xs \<longleftrightarrow> list_all ok xs \<and> length xs < 2 ^ 32"

text \<open>
  Extraction of a vector appends, so the contract of a codec holds for extraction into an empty
  vector, which is how the generated stubs use it.
\<close>

context codec
begin

lemma put_vector_written:
  assumes "m_wf m" and "vector_ok encodable xs"
  shows "m_wf (put_vector put xs m)"
    and "m_written (put_vector put xs m) = m_written m @ map Some (enc_vector enc xs)"
    and "m_ind m + length (enc_vector enc xs) \<le> 2 ^ 30 \<Longrightarrow> m_undef (put_vector put xs m) = m_undef m"
  using assms put_elems_written [OF put_uint_written(1) [OF assms(1)], of xs]
    put_elems_undef [OF put_uint_written(1) [OF assms(1)], of xs]
  by (simp_all add: put_vector_def enc_vector_def vector_ok_def put_uint_written)

lemma get_vector_at:
  assumes at: "u_at u (enc_vector enc xs @ r)" and ok: "vector_ok encodable xs"
  shows "get_vector get z v u = Some (v @ xs, u_adv (length (enc_vector enc xs)) u)"
proof -
  from at have at0: "u_at u (be32 (word_of_nat (length xs)) @ concat (map enc xs) @ r)"
    by (simp add: enc_vector_def)
  have at1: "u_at (u_adv 4 u) (concat (map enc xs) @ r)"
    using u_at_adv [OF at0] by simp
  have len: "unat (word_of_nat (length xs) :: u32) = length xs"
    using ok by (simp add: vector_ok_def unat_of_nat)
  show ?thesis
    using get_uint_at [OF at0] get_elems_enc [OF at1, of z v] ok
    by (simp add: get_vector_def len vector_ok_def enc_vector_def)
qed

end

text \<open>The codec of vectors over an element codec; \<open>z\<close> is the element the loop declares.\<close>

locale vector_codec = codec enc put get encodable
  for enc :: "'a \<Rightarrow> string" and put and get and encodable +
  fixes z :: 'a

sublocale vector_codec \<subseteq> vec: codec "enc_vector enc" "put_vector put" "\<lambda>_. get_vector get z []"
    "vector_ok encodable"
  by unfold_locales (simp_all add: put_vector_written get_vector_at)

interpretation strs: vector_codec enc_string put_string get_string string_ok "[]"
  by unfold_locales

section \<open>Headers\<close>

text \<open>Packing an \<^verbatim>\<open>int\<close> writes the same bytes as inserting it: the arithmetic shift is masked.\<close>

lemma signed_drop_bit_byte:
  fixes x :: u32
  assumes "k \<le> 24"
  shows "ucast (signed_drop_bit k x AND 0xff) = (ucast (drop_bit k x AND 0xff) :: u8)"
proof -
  have m: "(0xff :: u32) = mask 8"
    by (simp add: mask_eq_exp_minus_1)
  show ?thesis
    unfolding m using assms by (intro bit_word_eqI) (auto simp: bit_simps not_le)
qed

lemma m_pack_put: "m_pack x m = put_uint x m"
  by (simp add: m_pack_def put_uint_def signed_drop_bit_byte)

lemma u_unpack_get: "get_uint old u = Some (u_unpack u)"
  by (simp add: get_uint_def u_unpack_def split: prod.splits)

lemma length_memcpy [simp]: "i + length p \<le> length b \<Longrightarrow> length (memcpy b i p) = length b"
  by (simp add: memcpy_def)

lemma memcpy_append:
  "i + length p + length q \<le> length b \<Longrightarrow> j = i + length p \<Longrightarrow>
    memcpy (memcpy b i p) j q = memcpy b i (p @ q)"
  by (simp add: memcpy_def ac_simps)

lemma memcpy_Nil [simp]: "memcpy b i [] = b"
  by (simp add: memcpy_def)

lemma memcpy_one: "i < length b \<Longrightarrow> memcpy b i [c] = b[i := Some c]"
  by (simp add: memcpy_def upd_conv_take_nth_drop)

text \<open>Four bytes written where there is room are an in-place copy.\<close>

lemma m_rawbyte_memcpy:
  assumes "m_ind m < m_capa m" and "length (m_buf m) = m_capa m"
  shows "m_rawbyte x m =
    m\<lparr>m_buf := memcpy (m_buf m) (m_ind m) [char_of (unat x)], m_ind := m_ind m + 1\<rparr>"
  using assms by (simp add: m_rawbyte_inside memcpy_one)

lemma m_pack_memcpy:
  assumes "m_ind m + 4 \<le> m_capa m" and "length (m_buf m) = m_capa m"
  shows "m_pack x m = m\<lparr>m_buf := memcpy (m_buf m) (m_ind m) (be32 x), m_ind := m_ind m + 4\<rparr>"
  using assms by (simp add: m_pack_put put_uint_def m_rawbyte_memcpy memcpy_append be32_def)

definition enc_req_header :: "req_header \<Rightarrow> string" where
  "enc_req_header h = be32 (rq_xid h) @ be32 (rq_proc h) @ be32 (rq_clt_nonce h)
     @ be32 (rq_srv_nonce h) @ be32 (rq_xid_rep h)"

definition enc_reply_header :: "reply_header \<Rightarrow> string" where
  "enc_reply_header h = be32 (rp_xid h) @ be32 (rp_ret h)"

lemma pack_req_header_memcpy:
  assumes "m_wf m"
  shows "pack_req_header h m = m\<lparr>m_buf := memcpy (m_buf m) 4 (enc_req_header h)\<rparr>"
  using assms
  by (simp add: pack_req_header_def Let_def m_pack_memcpy memcpy_append enc_req_header_def
      m_wf_def m_room_def)

lemma pack_reply_header_memcpy:
  assumes "m_wf m"
  shows "pack_reply_header h m = m\<lparr>m_buf := memcpy (m_buf m) 4 (enc_reply_header h)\<rparr>"
  using assms
  by (simp add: pack_reply_header_def Let_def m_pack_memcpy memcpy_append enc_reply_header_def
      m_wf_def m_room_def)

text \<open>
  What arrives at the other end of a connection for the cells in front of the write head: the
  connection overwrites the first four bytes with the size, every written cell arrives as it
  is, and a cell nobody wrote (twelve bytes of a reply header) arrives as anything.
\<close>

definition received :: "char option list \<Rightarrow> string \<Rightarrow> bool" where
  "received cells b \<longleftrightarrow> length b = length cells \<and>
     (\<forall>i < length cells. 4 \<le> i \<longrightarrow> cells ! i \<noteq> None \<longrightarrow> cells ! i = Some (b ! i))"

lemma received_segment:
  assumes "received (p @ map Some t @ q) b" and "4 \<le> length p"
  shows "take (length t) (drop (length p) b) = t"
proof (rule nth_equalityI)
  show len: "length (take (length t) (drop (length p) b)) = length t"
    using assms(1) by (simp add: received_def)
  fix i
  assume "i < length (take (length t) (drop (length p) b))"
  with len have i: "i < length t" by simp
  have "(p @ map Some t @ q) ! (length p + i) = Some (t ! i)"
    using i by (simp add: nth_append)
  moreover have "length p + i < length (p @ map Some t @ q)"
    using i by simp
  ultimately have "b ! (length p + i) = t ! i"
    using assms unfolding received_def by (metis le_add1 le_trans option.distinct(1) option.inject)
  with i assms(1) show "take (length t) (drop (length p) b) ! i = t ! i"
    by (simp add: received_def)
qed

lemma m_written_packed:
  assumes "m_wf m" and "m_get_content m = map Some s" and "length p \<le> 20"
  shows "take (m_ind m) (memcpy (m_buf m) 4 p) =
    take 4 (m_buf m) @ map Some p @ take (20 - length p) (drop (4 + length p) (m_buf m)) @ map Some s"
proof -
  have "drop 24 (take (m_ind m) (m_buf m)) = map Some s"
    using assms(1,2) by (simp add: m_get_content_written m_written_def)
  then have tail: "take (m_ind m - 24) (drop 24 (m_buf m)) = map Some s"
    by (simp add: drop_take)
  have ind: "24 \<le> m_ind m" "m_ind m \<le> length (m_buf m)"
    using assms(1) by (auto simp: m_wf_def m_room_def)
  have e: "m_ind m - (4 + length p) = (20 - length p) + (m_ind m - 24)"
    and n: "20 - length p + (4 + length p) = 24"
    using ind assms(3) by simp_all
  have "take (m_ind m - (4 + length p)) (drop (4 + length p) (m_buf m)) =
      take (20 - length p) (drop (4 + length p) (m_buf m)) @ map Some s"
    unfolding e take_add drop_drop n tail ..
  then show ?thesis
    using ind assms(3) by (simp add: memcpy_def)
qed

lemma u_unpack_at: "u_at u (be32 x @ r) \<Longrightarrow> u_unpack u = (x, u_adv 4 u)"
  using get_uint_at [of u x r undefined] u_unpack_get [of undefined u] by simp

lemma unpack_req_header_at:
  assumes "drop 4 b = enc_req_header h @ s" and "length b < 2 ^ 31"
  shows "\<exists>u. unpack_req_header (unmarshall_of b) = (h, u) \<and> u_at u s"
proof -
  have len: "length b = 24 + length s"
    using arg_cong [OF assms(1), of length] by (simp add: enc_req_header_def)
  let ?u = "(unmarshall_of b)\<lparr>u_ind := 4\<rparr>"
  have at: "u_at ?u (be32 (rq_xid h) @ be32 (rq_proc h) @ be32 (rq_clt_nonce h)
      @ be32 (rq_srv_nonce h) @ be32 (rq_xid_rep h) @ s)"
    using assms len by (simp add: u_at_def unmarshall_of_def enc_req_header_def)
  note at1 = u_at_adv [OF at, simplified]
  note at2 = u_at_adv [OF at1, simplified]
  note at3 = u_at_adv [OF at2, simplified]
  note at4 = u_at_adv [OF at3, simplified]
  note at5 = u_at_adv [OF at4, simplified]
  have fin: "(u_adv 20 ?u)\<lparr>u_ind := 24\<rparr> = u_adv 20 ?u"
    by (simp add: u_adv_def unmarshall_of_def)
  show ?thesis
    using u_unpack_at [OF at] u_unpack_at [OF at1] u_unpack_at [OF at2] u_unpack_at [OF at3]
      u_unpack_at [OF at4] at5 fin
    by (simp add: unpack_req_header_def)
qed

section \<open>Properties of the marshalling layer\<close>

text \<open>
  C7. A request header survives the wire: whatever was marshalled before, packing the header leaves
  the marshalled arguments alone, and the receiver of the buffer reads back the same five
  header fields and is left at the start of exactly those arguments.
\<close>

theorem req_header_roundtrip:
  assumes "m_wf m" and "m_get_content m = map Some s"
    and "received (m_written (pack_req_header h m)) b" and "length b < 2 ^ 31"
  shows "\<exists>u. unpack_req_header (unmarshall_of b) = (h, u) \<and> u_at u s"
proof -
  let ?e = "enc_req_header h"
  have el: "length ?e = 20" by (simp add: enc_req_header_def)
  have hd4: "length (take 4 (m_buf m)) = 4"
    using assms(1) by (simp add: m_wf_def m_room_def)
  have wr: "m_written (pack_req_header h m) = take 4 (m_buf m) @ map Some (?e @ s)"
    using m_written_packed [OF assms(1,2), of ?e] el
    by (simp add: m_written_def pack_req_header_memcpy [OF assms(1)])
  have len: "length b = 24 + length s"
    using assms(3) hd4 el unfolding wr by (simp add: received_def)
  have "take (length (?e @ s)) (drop 4 b) = ?e @ s"
    using received_segment [of "take 4 (m_buf m)" "?e @ s" "[]" b] assms(3) hd4
    unfolding wr by simp
  then have body: "drop 4 b = ?e @ s"
    using len el by simp
  show ?thesis
    by (rule unpack_req_header_at [OF body assms(4)])
qed

theorem req_header_roundtrip_witness:
  "let h = \<lparr>rq_xid = 7, rq_proc = 0x7001, rq_clt_nonce = 5, rq_srv_nonce = 9, rq_xid_rep = 6\<rparr>;
       b = replicate 4 CHR ''x'' @ enc_req_header h
   in \<exists>u. unpack_req_header (unmarshall_of b) = (h, u) \<and> u_at u []"
proof -
  let ?h = "\<lparr>rq_xid = 7, rq_proc = 0x7001, rq_clt_nonce = 5, rq_srv_nonce = 9, rq_xid_rep = 6\<rparr>"
  let ?b = "replicate 4 CHR ''x'' @ enc_req_header ?h"
  have el: "length (enc_req_header ?h) = 20" by (simp add: enc_req_header_def)
  have c: "m_get_content marshall_new = map Some []"
    by (simp add: m_get_content_def marshall_new_def)
  have "m_written (pack_req_header ?h marshall_new) =
      take 4 (m_buf marshall_new) @ map Some (enc_req_header ?h)"
    using m_written_packed [OF m_wf_new c, of "enc_req_header ?h"] el
    by (simp add: m_written_def pack_req_header_memcpy)
  then have "m_written (pack_req_header ?h marshall_new) =
      replicate 4 None @ map Some (enc_req_header ?h)"
    by (simp add: marshall_new_def DEFAULT_RPC_SZ_def)
  then have r: "received (m_written (pack_req_header ?h marshall_new)) ?b"
    using el by (auto simp: received_def nth_append)
  have "length ?b < 2 ^ 31" using el by simp
  from req_header_roundtrip [OF m_wf_new c r this] show ?thesis
    unfolding Let_def .
qed

text \<open>
  A reply header packs eight of the twenty bytes; what the receiver reads does not depend on the
  twelve bytes nobody wrote.
\<close>

lemma reply_header_roundtrip:
  assumes "m_wf m" and "m_get_content m = map Some s"
    and "received (m_written (pack_reply_header h m)) b" and "length b < 2 ^ 31"
  shows "\<exists>u. unpack_reply_header (unmarshall_of b) = (h, u) \<and> u_at u s"
proof -
  let ?e = "enc_reply_header h"
  let ?g = "take 12 (drop 12 (m_buf m))"
  have el: "length ?e = 8" by (simp add: enc_reply_header_def)
  have hd4: "length (take 4 (m_buf m)) = 4" and gl: "length ?g = 12"
    using assms(1) by (auto simp: m_wf_def m_room_def)
  have wr: "m_written (pack_reply_header h m) = take 4 (m_buf m) @ map Some ?e @ ?g @ map Some s"
    using m_written_packed [OF assms(1,2), of ?e] el
    by (simp add: m_written_def pack_reply_header_memcpy [OF assms(1)])
  have len: "length b = 24 + length s"
    using assms(3) hd4 el gl unfolding wr by (simp add: received_def)
  have body: "take 8 (drop 4 b) = ?e"
    using received_segment [of "take 4 (m_buf m)" ?e "?g @ map Some s" b] assms(3) hd4 el
    unfolding wr by simp
  have cont: "drop 24 b = s"
    using received_segment [of "take 4 (m_buf m) @ map Some ?e @ ?g" s "[]" b] assms(3) hd4 el gl len
    unfolding wr by simp
  let ?u = "(unmarshall_of b)\<lparr>u_ind := 4\<rparr>"
  have "drop 4 b = ?e @ drop 8 (drop 4 b)"
    using body by (metis append_take_drop_id)
  then have at: "u_at ?u (be32 (rp_xid h) @ be32 (rp_ret h) @ drop 12 b)"
    using len assms(4) by (simp add: u_at_def unmarshall_of_def enc_reply_header_def)
  note at1 = u_at_adv [OF at, simplified]
  have "u_at ((u_adv 8 ?u)\<lparr>u_ind := 24\<rparr>) s"
    using cont len assms(4) by (simp add: u_at_def u_adv_def unmarshall_of_def)
  then show ?thesis
    using u_unpack_at [OF at] u_unpack_at [OF at1] by (simp add: unpack_reply_header_def)
qed

lemma put_string_new_undef:
  assumes "length s < 2 ^ 31 - 1024"
  shows "\<not> m_undef (put_string s marshall_new)"
proof -
  let ?m = "put_uint (word_of_nat (length s)) marshall_new"
  have m: "m_ind ?m = 28" "\<not> m_undef ?m"
    using put_uint_written(3,4) [OF m_wf_new, of "word_of_nat (length s)"] by (simp_all add: marshall_new_def)
  have "m_capa ?m = 1024"
    by (simp add: put_uint_def m_rawbyte_def marshall_new_def DEFAULT_RPC_SZ_def Let_def)
  then show ?thesis using m assms
    by (simp add: put_string_def m_rawbytes_small m_grow_def overflows_def Let_def)
qed

text \<open>
  C20. A string inserted into a fresh buffer is its length in network byte order followed by its
  characters, and extraction from such a buffer returns the string and consumes everything. For a
  string shorter than \<open>2\<^sup>3\<^sup>1 - 1024\<close> no \<^verbatim>\<open>int\<close> of the buffer overflows on the way.
\<close>

theorem string_roundtrip:
  assumes "length s < 2 ^ 31 - 28" and "length junk = 24"
  shows "m_get_content (put_string s marshall_new) = map Some (be32 (word_of_nat (length s)) @ s)
    \<and> (\<exists>u. get_string old (take_content junk (be32 (word_of_nat (length s)) @ s)) = Some (s, u)
          \<and> okdone u)
    \<and> (length s < 2 ^ 31 - 1024 \<longrightarrow> \<not> m_undef (put_string s marshall_new))"
proof -
  have ok: "string_ok s" and len: "length (enc_string s) < 2 ^ 31 - 24"
    using assms(1) by (simp_all add: string_ok_def)
  show ?thesis
    using str.roundtrip(1) [OF ok assms(2) len] str.roundtrip(2) [OF ok assms(2) len, of old]
      put_string_new_undef [of s]
    unfolding enc_string_def by blast
qed

theorem string_roundtrip_witness:
  "m_get_content (put_string ''abc'' marshall_new) = map Some (be32 3 @ ''abc'')
    \<and> (\<exists>u. get_string [] (take_content (replicate 24 CHR ''x'') (be32 3 @ ''abc'')) = Some (''abc'', u)
          \<and> okdone u)
    \<and> \<not> m_undef (put_string ''abc'' marshall_new)"
  using string_roundtrip [of "''abc''" "replicate 24 CHR ''x''" "[]"] by simp



text \<open>
  C22. The bound check of \<^verbatim>\<open>unmarshall::rawbytes\<close> is sound as long as the sum it computes does not wrap
  around: then extraction of a string stays inside the buffer, whatever the packet holds.
\<close>

theorem rawbytes_safe:
  assumes "u_sz u = length (u_buf u)" and "u_sz u < 2 ^ 31" and "u_ind u + unat n < 2 ^ 32"
  shows "\<exists>r. u_rawbytes ss n u = Some r"
proof -
  have "unat (word_of_nat (u_ind u) + n) = u_ind u + unat n"
    using assms(3) by (simp add: unat_word_ariths unat_of_nat)
  moreover have "unat (word_of_nat (u_sz u) :: u32) = u_sz u"
    using assms(2) by (simp add: unat_of_nat)
  ultimately show ?thesis
    using assms(1) by (auto simp: u_rawbytes_def word_less_nat_alt not_less)
qed

theorem rawbytes_safe_witness:
  "\<exists>r. u_rawbytes [] 5 (unmarshall_of ''hello'') = Some r"
  using rawbytes_safe [of "unmarshall_of ''hello''" 5 "[]"] by (simp add: unmarshall_of_def)

text \<open>
  C23. Without that condition it is not: a packet of 28 bytes whose string length field is all ones
  passes the check (the 32-bit sum wraps around to 27) and the extraction reads outside the buffer.
\<close>

theorem string_length_wraps:
  "get_string [] (take_content (replicate 24 CHR ''x'') (be32 0xffffffff)) = None"
proof -
  let ?u = "take_content (replicate 24 CHR ''x'') (be32 0xffffffff)"
  have at: "u_at ?u (be32 0xffffffff @ [])"
    by (simp add: u_at_def take_content_def)
  have "u_rawbytes [] 0xffffffff (u_adv 4 ?u) = None"
    by (simp add: u_rawbytes_def u_adv_def take_content_def)
  then show ?thesis
    using get_uint_at [OF at, of 0] by (simp add: get_string_def) (simp add: take_content_def)
qed

end
