(* ===== verification/Rpc_Server.thy ===== *)
theory Rpc_Server
  imports Marshall
begin

text \<open>
  The server endpoint of the RPC library, \<^verbatim>\<open>class rpcs\<close> of \<^verbatim>\<open>rpc/rpc.h\<close> and \<^verbatim>\<open>rpc/rpc.cc\<close>: the table
  of handlers, the window of replies that gives each client at-most-once execution, the call
  statistics and the dispatch of a request.

  Reply buffers live in an explicit heap, because the code hands their addresses around and frees
  them. A result \<^const>\<open>None\<close> is an abort (a failed \<^verbatim>\<open>assert\<close>) or undefined behaviour (a second
  \<^verbatim>\<open>free\<close>, a use after \<^verbatim>\<open>free\<close>, a null pointer). A connection is a number; the state keeps its
  reference count and whether it is dead (a dead connection whose count is 0 is deleted), and the list
  of what was handed to \<^verbatim>\<open>connection::send\<close>.
\<close>

section \<open>State\<close>

datatype rpcstate_t = NEW | INPROGRESS | DONE | FORGOTTEN

record reply_t =
  rt_xid :: u32
  rt_cb_present :: bool
  rt_buf :: "nat option"
  rt_sz :: nat

definition reply_new :: "u32 \<Rightarrow> reply_t" where
  "reply_new x = \<lparr>rt_xid = x, rt_cb_present = False, rt_buf = None, rt_sz = 0\<rparr>"

type_synonym 's handler = "unmarshall \<Rightarrow> marshall \<Rightarrow> 's \<Rightarrow> ((u32 \<times> marshall) \<times> 's) option"

record 's rpcs =
  sv_nonce :: u32
  sv_reply_window :: "u32 \<rightharpoonup> reply_t list"
  sv_conns :: "u32 \<rightharpoonup> nat"
  sv_counting :: int
  sv_curr_counts :: int
  sv_counts :: "u32 \<rightharpoonup> int"
  sv_reachable :: bool
  sv_procs :: "u32 \<rightharpoonup> 's handler"
  heap :: "nat \<rightharpoonup> char option list"
  heap_next :: nat
  refno :: "nat \<Rightarrow> int"
  dead :: "nat \<Rightarrow> bool"
  sent :: "(nat \<times> char option list) list"
  app :: 's

abbreviation atmostonce_failure :: u32 where "atmostonce_failure \<equiv> -4"
abbreviation oldsrv_failure :: u32 where "oldsrv_failure \<equiv> -5"
abbreviation unmarshal_args_failure :: u32 where "unmarshal_args_failure \<equiv> -2"

section \<open>The heap, connections and the handler table\<close>

text \<open>\<^verbatim>\<open>free(p)\<close>: a null pointer is ignored, an address that is not allocated is undefined behaviour.\<close>

definition free :: "nat option \<Rightarrow> 's rpcs \<Rightarrow> 's rpcs option" where
  "free p st =
     (case p of None \<Rightarrow> Some st
      | Some a \<Rightarrow> if heap st a = None then None else Some (st\<lparr>heap := (heap st)(a := None)\<rparr>))"

definition alloc :: "char option list \<Rightarrow> 's rpcs \<Rightarrow> nat \<times> 's rpcs" where
  "alloc b st = (heap_next st, st\<lparr>heap := (heap st)(heap_next st \<mapsto> b),
                                   heap_next := Suc (heap_next st)\<rparr>)"

definition send_buf :: "nat \<Rightarrow> nat \<Rightarrow> nat \<Rightarrow> 's rpcs \<Rightarrow> 's rpcs option" where
  "send_buf c a sz st =
     (case heap st a of None \<Rightarrow> None | Some b \<Rightarrow> Some (st\<lparr>sent := sent st @ [(c, take sz b)]\<rparr>))"

definition incref :: "nat \<Rightarrow> 's rpcs \<Rightarrow> 's rpcs" where
  "incref c st = st\<lparr>refno := (refno st)(c := refno st c + 1)\<rparr>"

definition decref :: "nat \<Rightarrow> 's rpcs \<Rightarrow> 's rpcs option" where
  "decref c st =
     (if refno st c - 1 < 0 then None
      else Some (st\<lparr>refno := (refno st)(c := refno st c - 1)\<rparr>))"

definition reg1 :: "u32 \<Rightarrow> 's handler \<Rightarrow> 's rpcs \<Rightarrow> 's rpcs option" where
  "reg1 proc h st =
     (if sv_procs st proc \<noteq> None then None else Some (st\<lparr>sv_procs := (sv_procs st)(proc \<mapsto> h)\<rparr>))"

definition updatestat :: "u32 \<Rightarrow> 's rpcs \<Rightarrow> 's rpcs" where
  "updatestat proc st =
     (let st1 = st\<lparr>sv_counts := (sv_counts st)(proc \<mapsto> (case sv_counts st proc of None \<Rightarrow> 0 | Some n \<Rightarrow> n) + 1),
                   sv_curr_counts := sv_curr_counts st - 1\<rparr>
      in if sv_curr_counts st1 = 0 then st1\<lparr>sv_curr_counts := sv_counting st\<rparr> else st1)"

section \<open>The reply window\<close>

definition window :: "u32 \<Rightarrow> 's rpcs \<Rightarrow> reply_t list" where
  "window clt st = (case sv_reply_window st clt of None \<Rightarrow> [] | Some l \<Rightarrow> l)"

text \<open>The first loop of \<^verbatim>\<open>checkduplicate_and_update\<close>: replies the client has acknowledged are freed.\<close>

fun free_acked :: "u32 \<Rightarrow> reply_t list \<Rightarrow> 's rpcs \<Rightarrow> (reply_t list \<times> 's rpcs) option" where
  "free_acked xid_rep [] st = Some ([], st)"
| "free_acked xid_rep (r # rs) st =
     (if rt_xid r \<le> xid_rep
      then do { st1 \<leftarrow> free (rt_buf r) st;
                (rs', st2) \<leftarrow> free_acked xid_rep rs st1;
                Some (r\<lparr>rt_buf := None, rt_sz := 0, rt_cb_present := False\<rparr> # rs', st2) }
      else do { (rs', st2) \<leftarrow> free_acked xid_rep rs st; Some (r # rs', st2) })"

text \<open>
  \<^verbatim>\<open>rep_list\<close> is a copy: it is stored back into the window only when the request is new. The result
  carries the buffer and size that the code writes through its output parameters.
\<close>

definition checkduplicate_and_update ::
  "u32 \<Rightarrow> u32 \<Rightarrow> u32 \<Rightarrow> 's rpcs \<Rightarrow> ((rpcstate_t \<times> (nat option \<times> nat)) \<times> 's rpcs) option" where
  "checkduplicate_and_update clt xid xid_rep st =
     do { let rep_list = window clt st;
          let st0 = st\<lparr>sv_reply_window := (sv_reply_window st)(clt \<mapsto> rep_list)\<rparr>;
          (rep_list, st1) \<leftarrow> free_acked xid_rep rep_list st0;
          case find (\<lambda>r. rt_xid r = xid) rep_list of
            None \<Rightarrow>
              Some ((NEW, None, 0),
                    st1\<lparr>sv_reply_window := (sv_reply_window st1)(clt \<mapsto> rep_list @ [reply_new xid])\<rparr>)
          | Some r \<Rightarrow>
              if rt_cb_present r then Some ((DONE, rt_buf r, rt_sz r), st1)
              else if xid > xid_rep then Some ((INPROGRESS, None, 0), st1)
              else Some ((FORGOTTEN, None, 0), st1) }"

fun set_reply :: "u32 \<Rightarrow> nat \<Rightarrow> nat \<Rightarrow> reply_t list \<Rightarrow> reply_t list option" where
  "set_reply xid b sz [] = Some []"
| "set_reply xid b sz (r # rs) =
     (if rt_xid r = xid
      then if rt_cb_present r \<or> rt_buf r \<noteq> None then None
           else Some (r\<lparr>rt_cb_present := True, rt_buf := Some b, rt_sz := sz\<rparr> # rs)
      else map_option ((#) r) (set_reply xid b sz rs))"

definition add_reply :: "u32 \<Rightarrow> u32 \<Rightarrow> nat \<Rightarrow> nat \<Rightarrow> 's rpcs \<Rightarrow> 's rpcs option" where
  "add_reply clt xid b sz st =
     do { rep_list \<leftarrow> set_reply xid b sz (window clt st);
          Some (st\<lparr>sv_reply_window := (sv_reply_window st)(clt \<mapsto> rep_list)\<rparr>) }"

fun free_bufs :: "reply_t list \<Rightarrow> 's rpcs \<Rightarrow> 's rpcs option" where
  "free_bufs [] st = Some st"
| "free_bufs (r # rs) st = do { st1 \<leftarrow> free (rt_buf r) st; free_bufs rs st1 }"

fun free_windows :: "u32 list \<Rightarrow> 's rpcs \<Rightarrow> 's rpcs option" where
  "free_windows [] st = Some st"
| "free_windows (clt # clts) st =
     do { st1 \<leftarrow> free_bufs (window clt st) st; free_windows clts st1 }"

text \<open>The destructor's sweep; \<open>clts\<close> lists the keys of the window in the order of the map's iterator.\<close>

definition free_reply_window :: "u32 list \<Rightarrow> 's rpcs \<Rightarrow> 's rpcs option" where
  "free_reply_window clts st =
     do { st1 \<leftarrow> free_windows clts st; Some (st1\<lparr>sv_reply_window := Map.empty\<rparr>) }"

section \<open>Dispatch\<close>

definition rpcbind :: "'s rpcs \<Rightarrow> u32 \<times> u32" where
  "rpcbind st = (0, sv_nonce st)"

text \<open>Remember the latest connection of a client.\<close>

definition save_conn :: "u32 \<Rightarrow> nat \<Rightarrow> 's rpcs \<Rightarrow> 's rpcs option" where
  "save_conn clt c st =
     (case sv_conns st clt of
        None \<Rightarrow> Some (let st1 = incref c st in st1\<lparr>sv_conns := (sv_conns st1)(clt \<mapsto> c)\<rparr>)
      | Some c' \<Rightarrow>
          if c' \<noteq> c
          then do { st1 \<leftarrow> decref c' st;
                    let st2 = incref c st1;
                    Some (st2\<lparr>sv_conns := (sv_conns st2)(clt \<mapsto> c)\<rparr>) }
          else Some st)"

text \<open>
  The first part of \<^verbatim>\<open>rpcs::dispatch\<close>, up to the decision whether the request is new. The result is
  \<open>Inl\<close> when dispatch returns early and \<open>Inr\<close> with the header, the handler and the verdict otherwise.
\<close>

definition dispatch_check ::
  "nat \<Rightarrow> string \<Rightarrow> 's rpcs \<Rightarrow>
     ((unit + (req_header \<times> unmarshall \<times> 's handler \<times> rpcstate_t \<times> nat option \<times> nat)) \<times> 's rpcs) option"
where
  "dispatch_check c b st =
     (let (h, req) = unpack_req_header (unmarshall_of b) in
      if \<not> u_ok req then do { st1 \<leftarrow> decref c st; Some (Inl (), st1) }
      else if rq_srv_nonce h \<noteq> 0 \<and> rq_srv_nonce h \<noteq> sv_nonce st
      then let rep = pack_reply_header \<lparr>rp_xid = rq_xid h, rp_ret = oldsrv_failure\<rparr> marshall_new
           in Some (Inl (), st\<lparr>sent := sent st @ [(c, m_written rep)]\<rparr>)
      else case sv_procs st (rq_proc h) of
        None \<Rightarrow> do { st1 \<leftarrow> decref c st; Some (Inl (), st1) }
      | Some f \<Rightarrow>
          if rq_clt_nonce h \<noteq> 0
          then do { let st1 = (if sv_reply_window st (rq_clt_nonce h) = None
                               then st\<lparr>sv_reply_window := (sv_reply_window st)(rq_clt_nonce h \<mapsto> [])\<rparr>
                               else st);
                    st2 \<leftarrow> save_conn (rq_clt_nonce h) c st1;
                    ((stat, b1, sz1), st3) \<leftarrow>
                      checkduplicate_and_update (rq_clt_nonce h) (rq_xid h) (rq_xid_rep h) st2;
                    Some (Inr (h, req, f, stat, b1, sz1), st3) }
          else Some (Inr (h, req, f, NEW, None, 0), st))"

text \<open>
  The \<^verbatim>\<open>NEW\<close> case of the \<^verbatim>\<open>switch\<close> in the second part: the handler runs, its reply is recorded for
  clients that want at-most-once semantics, and goes to the client's latest connection if the one the
  request came on is dead (\<^verbatim>\<open>conns_[0]\<close> is a null pointer). A handler whose reply does not fit into a
  buffer of \<^verbatim>\<open>int\<close> size has undefined behaviour.
\<close>

definition dispatch_new ::
  "nat \<Rightarrow> req_header \<Rightarrow> unmarshall \<Rightarrow> 's handler \<Rightarrow> 's rpcs \<Rightarrow> 's rpcs option" where
  "dispatch_new c h req f st =
     do { let st1 = (if sv_counting st \<noteq> 0 then updatestat (rq_proc h) st else st);
          ((ret, rep), s') \<leftarrow> f req marshall_new (app st1);
          _ \<leftarrow> (if m_undef rep then None else Some ());
          _ \<leftarrow> (if 0 \<le> sint ret \<or> ret = unmarshal_args_failure then Some () else None);
          let (buf, sz) = m_take_buf (pack_reply_header \<lparr>rp_xid = rq_xid h, rp_ret = ret\<rparr> rep);
          let (a, st2) = alloc buf (st1\<lparr>app := s'\<rparr>);
          st3 \<leftarrow> (if rq_clt_nonce h > 0 then add_reply (rq_clt_nonce h) (rq_xid h) a sz st2
                  else Some st2);
          (c', st4) \<leftarrow>
            (if dead st3 c \<and> sv_conns st3 (rq_clt_nonce h) \<noteq> Some c
             then do { st' \<leftarrow> decref c st3; c' \<leftarrow> sv_conns st' (rq_clt_nonce h);
                       Some (c', incref c' st') }
             else Some (c, st3));
          st5 \<leftarrow> send_buf c' a sz st4;
          st6 \<leftarrow> (if rq_clt_nonce h = 0 then free (Some a) st5 else Some st5);
          decref c' st6 }"

definition dispatch_switch ::
  "nat \<Rightarrow> req_header \<Rightarrow> unmarshall \<Rightarrow> 's handler \<Rightarrow> rpcstate_t \<Rightarrow> nat option \<Rightarrow> nat \<Rightarrow>
     's rpcs \<Rightarrow> 's rpcs option" where
  "dispatch_switch c h req f stat b1 sz1 st =
     (case stat of
        NEW \<Rightarrow> dispatch_new c h req f st
      | INPROGRESS \<Rightarrow> decref c st
      | DONE \<Rightarrow> do { a \<leftarrow> b1; st1 \<leftarrow> send_buf c a sz1 st; decref c st1 }
      | FORGOTTEN \<Rightarrow>
          let rep = pack_reply_header \<lparr>rp_xid = rq_xid h, rp_ret = atmostonce_failure\<rparr> marshall_new
          in decref c (st\<lparr>sent := sent st @ [(c, m_written rep)]\<rparr>))"

definition dispatch :: "nat \<Rightarrow> string \<Rightarrow> 's rpcs \<Rightarrow> (rpcstate_t option \<times> 's rpcs) option" where
  "dispatch c b st =
     do { (d, st1) \<leftarrow> dispatch_check c b st;
          case d of
            Inl _ \<Rightarrow> Some (None, st1)
          | Inr (h, req, f, stat, b1, sz1) \<Rightarrow>
              do { st2 \<leftarrow> dispatch_switch c h req f stat b1 sz1 st1; Some (Some stat, st2) } }"

section \<open>What the primitive operations leave alone\<close>

definition xids :: "u32 \<Rightarrow> 's rpcs \<Rightarrow> u32 list" where
  "xids clt st = map rt_xid (window clt st)"

lemma free_frame: "free p st = Some st' \<Longrightarrow> \<exists>H. st' = st\<lparr>heap := H\<rparr>"
  by (cases p) (auto simp: free_def split: option.splits if_splits intro: exI [of _ "heap st"])

lemma free_acked_frame: "free_acked k rs st = Some (rs', st') \<Longrightarrow> \<exists>H. st' = st\<lparr>heap := H\<rparr>"
proof (induction rs arbitrary: rs' st)
  case Nil
  then show ?case by (auto intro: exI [of _ "heap st"])
next
  case (Cons r rs)
  then show ?case
    by (fastforce simp: bind_eq_Some_conv split: if_splits dest!: free_frame)
qed

lemma free_acked_list:
  "free_acked k rs st = Some (rs', st') \<Longrightarrow>
    rs' = map (\<lambda>r. if rt_xid r \<le> k then r\<lparr>rt_buf := None, rt_sz := 0, rt_cb_present := False\<rparr> else r) rs"
  by (induction rs arbitrary: rs' st) (auto simp: bind_eq_Some_conv split: if_splits)

lemma free_acked_xids: "free_acked k rs st = Some (rs', st') \<Longrightarrow> map rt_xid rs' = map rt_xid rs"
  by (auto dest!: free_acked_list)

lemma set_reply_xids: "set_reply x b sz rs = Some rs' \<Longrightarrow> map rt_xid rs' = map rt_xid rs"
  by (induction rs arbitrary: rs') (auto split: if_splits)

lemma window_upd [simp]:
  "window clt (st\<lparr>sv_reply_window := (sv_reply_window st)(c \<mapsto> l)\<rparr>) = (if clt = c then l else window clt st)"
  by (simp add: window_def)

lemma window_frames [simp]:
  "window clt (st\<lparr>sv_reply_window := W(clt \<mapsto> l)\<rparr>) = l"
  "window clt (st\<lparr>heap := H\<rparr>) = window clt st"
  "window clt (st\<lparr>heap_next := n\<rparr>) = window clt st"
  by (simp_all add: window_def)

lemma window_cong: "sv_reply_window st' = sv_reply_window st \<Longrightarrow> window clt st' = window clt st"
  by (simp add: window_def)

text \<open>
  The verdict and the window after it: the window of the client grows by the new xid and nothing else
  about any window's xids changes.
\<close>

lemma checkduplicate_cases:
  assumes "checkduplicate_and_update clt xid k st = Some ((stat, bs), st')"
  obtains (fresh) "xid \<notin> set (xids clt st)" "stat = NEW" "xids clt st' = xids clt st @ [xid]"
      "window clt st' = map (\<lambda>r. if rt_xid r \<le> k then r\<lparr>rt_buf := None, rt_sz := 0, rt_cb_present := False\<rparr> else r)
                             (window clt st) @ [reply_new xid]"
      "\<And>c. c \<noteq> clt \<Longrightarrow> window c st' = window c st"
      "\<exists>H W. st' = st\<lparr>heap := H, sv_reply_window := W\<rparr>"
  | (seen) r where "find (\<lambda>r. rt_xid r = xid) (window clt st) = Some r" "xid \<in> set (xids clt st)"
      "stat = (if xid \<le> k then FORGOTTEN else if rt_cb_present r then DONE else INPROGRESS)"
      "bs = (if xid > k \<and> rt_cb_present r then (rt_buf r, rt_sz r) else (None, 0))"
      "\<And>c. window c st' = window c st"
      "\<exists>H W. st' = st\<lparr>sv_reply_window := W, heap := H\<rparr>"
proof -
  let ?st0 = "st\<lparr>sv_reply_window := (sv_reply_window st)(clt \<mapsto> window clt st)\<rparr>"
  let ?f = "\<lambda>r. if rt_xid r \<le> k then r\<lparr>rt_buf := None, rt_sz := 0, rt_cb_present := False\<rparr> else r"
  from assms obtain rs st1 where fa: "free_acked k (window clt st) ?st0 = Some (rs, st1)"
    and c: "(case find (\<lambda>r. rt_xid r = xid) rs of
            None \<Rightarrow> Some ((NEW, None, 0),
                    st1\<lparr>sv_reply_window := (sv_reply_window st1)(clt \<mapsto> rs @ [reply_new xid])\<rparr>)
          | Some r \<Rightarrow>
              if rt_cb_present r then Some ((DONE, rt_buf r, rt_sz r), st1)
              else if xid > k then Some ((INPROGRESS, None, 0), st1)
              else Some ((FORGOTTEN, None, 0), st1)) = Some ((stat, bs), st')"
    by (auto simp: checkduplicate_and_update_def Let_def bind_eq_Some_conv)
  obtain H where st1: "st1 = ?st0\<lparr>heap := H\<rparr>"
    using free_acked_frame [OF fa] by blast
  have rs: "rs = map ?f (window clt st)" by (rule free_acked_list [OF fa])
  have w1: "window c st1 = window c st" for c
    by (simp add: st1 window_def)
  show ?thesis
  proof (cases "find (\<lambda>r. rt_xid r = xid) (window clt st)")
    case None
    then have "find (\<lambda>r. rt_xid r = xid) rs = None"
      by (auto simp: rs find_None_iff)
    with c have new: "stat = NEW"
      and st': "st' = st1\<lparr>sv_reply_window := (sv_reply_window st1)(clt \<mapsto> rs @ [reply_new xid])\<rparr>"
      by auto
    have "xid \<notin> set (xids clt st)"
      using None by (auto simp: xids_def find_None_iff)
    moreover have "xids clt st' = xids clt st @ [xid]"
      using free_acked_xids [OF fa] by (simp add: xids_def st' reply_new_def)
    moreover have "window clt st' = map ?f (window clt st) @ [reply_new xid]"
      by (simp add: st' rs)
    moreover have "window c st' = window c st" if "c \<noteq> clt" for c
      using that w1 by (simp add: st')
    moreover have "\<exists>H W. st' = st\<lparr>heap := H, sv_reply_window := W\<rparr>"
      by (auto simp: st' st1)
    ultimately show ?thesis using new fresh by blast
  next
    case (Some r)
    have f: "find (\<lambda>r. rt_xid r = xid) rs = Some (?f r)"
      unfolding rs by (rule find_map_same [OF _ Some]) simp
    have rx: "rt_xid r = xid" and rin: "r \<in> set (window clt st)"
      using Some by (auto simp: find_Some_iff)
    have mem: "xid \<in> set (xids clt st)"
      using rx rin by (auto simp: xids_def)
    have st': "st' = st1" using c f by (auto split: if_splits)
    have "stat = (if xid \<le> k then FORGOTTEN else if rt_cb_present r then DONE else INPROGRESS)"
      and "bs = (if xid > k \<and> rt_cb_present r then (rt_buf r, rt_sz r) else (None, 0))"
      using c f rx by (auto split: if_splits)
    moreover have "window c st' = window c st" for c
      by (simp add: st' w1)
    moreover have "\<exists>H W. st' = st\<lparr>sv_reply_window := W, heap := H\<rparr>"
      by (auto simp: st' st1)
    ultimately show ?thesis using seen [OF Some mem] by blast
  qed
qed

lemma add_reply_frame:
  "add_reply clt x a sz st = Some st' \<Longrightarrow>
     (\<exists>W. st' = st\<lparr>sv_reply_window := W\<rparr>) \<and> (\<forall>c. xids c st' = xids c st)"
  by (auto simp: add_reply_def xids_def bind_eq_Some_conv dest: set_reply_xids)

lemma set_reply_last:
  "x \<notin> rt_xid ` set ws \<Longrightarrow>
     set_reply x a sz (ws @ [reply_new x]) = Some (ws @ [\<lparr>rt_xid = x, rt_cb_present = True, rt_buf = Some a, rt_sz = sz\<rparr>])"
  by (induction ws) (auto simp: reply_new_def)

lemma save_conn_frame:
  "save_conn clt c st = Some st' \<Longrightarrow>
     st' = st\<lparr>refno := refno st', sv_conns := sv_conns st'\<rparr> \<and> sv_conns st' clt = Some c"
  by (auto simp: save_conn_def incref_def decref_def bind_eq_Some_conv Let_def split: option.splits if_splits)

lemma save_conn_total:
  assumes "\<And>c'. sv_conns st clt = Some c' \<Longrightarrow> c' \<noteq> c \<Longrightarrow> 0 < refno st c'"
  obtains st' where "save_conn clt c st = Some st'" and "refno st c \<le> refno st' c"
proof (cases "sv_conns st clt")
  case None
  then show ?thesis using that by (auto simp: save_conn_def incref_def Let_def)
next
  case (Some c')
  then show ?thesis using that assms [of c']
    by (cases "c' = c") (auto simp: save_conn_def incref_def decref_def Let_def)
qed

text \<open>The early part of dispatch for a client with at-most-once semantics.\<close>

lemma dispatch_check_known:
  assumes "unpack_req_header (unmarshall_of b) = (h, req)" and "u_ok req" and "rq_clt_nonce h \<noteq> 0"
    and "rq_srv_nonce h = 0 \<or> rq_srv_nonce h = sv_nonce st" and "sv_procs st (rq_proc h) = Some f"
    and "save_conn (rq_clt_nonce h) c
           (st\<lparr>sv_reply_window := (sv_reply_window st)(rq_clt_nonce h \<mapsto> window (rq_clt_nonce h) st)\<rparr>) = Some st2"
  shows "dispatch_check c b st =
     do { ((stat, b1, sz1), st3) \<leftarrow> checkduplicate_and_update (rq_clt_nonce h) (rq_xid h) (rq_xid_rep h) st2;
          Some (Inr (h, req, f, stat, b1, sz1), st3) }"
proof -
  have "(if sv_reply_window st (rq_clt_nonce h) = None
         then st\<lparr>sv_reply_window := (sv_reply_window st)(rq_clt_nonce h \<mapsto> [])\<rparr> else st) =
        st\<lparr>sv_reply_window := (sv_reply_window st)(rq_clt_nonce h \<mapsto> window (rq_clt_nonce h) st)\<rparr>"
    by (auto simp: window_def map_upd_triv split: option.splits)
  then show ?thesis
    using assms by (auto simp: dispatch_check_def)
qed

lemma dispatch_check_cases:
  assumes "dispatch_check c b st = Some (Inr (h, req, f, stat, b1, sz1), st')"
  obtains (window) st2 where "unpack_req_header (unmarshall_of b) = (h, req)" "u_ok req" "rq_clt_nonce h \<noteq> 0"
      "rq_srv_nonce h = 0 \<or> rq_srv_nonce h = sv_nonce st" "sv_procs st (rq_proc h) = Some f"
      "save_conn (rq_clt_nonce h) c
         (st\<lparr>sv_reply_window := (sv_reply_window st)(rq_clt_nonce h \<mapsto> window (rq_clt_nonce h) st)\<rparr>) = Some st2"
      "checkduplicate_and_update (rq_clt_nonce h) (rq_xid h) (rq_xid_rep h) st2 = Some ((stat, b1, sz1), st')"
  | (anonymous) "unpack_req_header (unmarshall_of b) = (h, req)" "u_ok req" "rq_clt_nonce h = 0"
      "rq_srv_nonce h = 0 \<or> rq_srv_nonce h = sv_nonce st" "sv_procs st (rq_proc h) = Some f"
      "stat = NEW" "st' = st"
proof -
  obtain h0 r0 where u: "unpack_req_header (unmarshall_of b) = (h0, r0)" by fastforce
  note d = assms [unfolded dispatch_check_def u Let_def prod.case]
  have ok: "u_ok r0" by (rule ccontr) (use d in \<open>simp add: bind_eq_Some_conv\<close>)
  have nn: "rq_srv_nonce h0 = 0 \<or> rq_srv_nonce h0 = sv_nonce st"
    by (rule ccontr) (use d ok in simp)
  obtain f0 where pr: "sv_procs st (rq_proc h0) = Some f0"
    by (cases "sv_procs st (rq_proc h0)") (use d ok nn in \<open>auto simp: bind_eq_Some_conv\<close>)
  have "\<not> (rq_srv_nonce h0 \<noteq> 0 \<and> rq_srv_nonce h0 \<noteq> sv_nonce st)" using nn by blast
  note e = d [simplified ok this pr if_False option.case not_True_eq_False]
  show ?thesis
  proof (cases "rq_clt_nonce h0 = 0")
    case True
    with e have "h0 = h \<and> r0 = req \<and> f0 = f \<and> NEW = stat \<and> st = st'" by simp
    with u ok nn pr True anonymous show ?thesis by blast
  next
    case False
    have w: "(if sv_reply_window st clt = None then st\<lparr>sv_reply_window := (sv_reply_window st)(clt \<mapsto> [])\<rparr> else st) =
          st\<lparr>sv_reply_window := (sv_reply_window st)(clt \<mapsto> window clt st)\<rparr>" for clt
      by (auto simp: window_def map_upd_triv split: option.splits)
    from e False obtain st2 where
      "h0 = h \<and> r0 = req \<and> f0 = f"
      "save_conn (rq_clt_nonce h) c
         (st\<lparr>sv_reply_window := (sv_reply_window st)(rq_clt_nonce h \<mapsto> window (rq_clt_nonce h) st)\<rparr>) = Some st2"
      "checkduplicate_and_update (rq_clt_nonce h) (rq_xid h) (rq_xid_rep h) st2 = Some ((stat, b1, sz1), st')"
      by (auto simp: w bind_eq_Some_conv)
    with u ok nn pr False window show ?thesis by blast
  qed
qed

lemma dispatch_SomeE:
  assumes "dispatch c b st = Some (Some stat, st')"
  obtains h req f b1 sz1 stc where "dispatch_check c b st = Some (Inr (h, req, f, stat, b1, sz1), stc)"
    and "dispatch_switch c h req f stat b1 sz1 stc = Some st'"
proof -
  from assms obtain d stc where d: "dispatch_check c b st = Some (d, stc)"
    and r: "(case d of Inl _ \<Rightarrow> Some (None, stc)
             | Inr (h, req, f, stat, b1, sz1) \<Rightarrow>
                 do { st2 \<leftarrow> dispatch_switch c h req f stat b1 sz1 stc; Some (Some stat, st2) }) = Some (Some stat, st')"
    by (auto simp: dispatch_def bind_eq_Some_conv)
  show ?thesis
  proof (cases d)
    case Inl
    then show ?thesis using r by simp
  next
    case (Inr e)
    obtain h req f stat' b1 sz1 where "e = (h, req, f, stat', b1, sz1)" by (cases e) blast
    then show ?thesis using d r Inr that by (auto simp: bind_eq_Some_conv)
  qed
qed

text \<open>
  Progress: a new request with a registered handler is executed and answered on the connection it
  came on, when the replies it acknowledges can be freed.
\<close>

lemma checkduplicate_fresh:
  fixes st :: "'s rpcs"
  assumes "xid \<notin> set (xids clt st)"
    and "\<And>st' :: 's rpcs. heap st' = heap st \<Longrightarrow> \<exists>v. free_acked k (window clt st) st' = Some v"
  shows "\<exists>H. checkduplicate_and_update clt xid k st = Some ((NEW, None, 0),
    st\<lparr>heap := H, sv_reply_window := (sv_reply_window st)(clt \<mapsto>
      map (\<lambda>r. if rt_xid r \<le> k then r\<lparr>rt_buf := None, rt_sz := 0, rt_cb_present := False\<rparr> else r) (window clt st) @
      [reply_new xid])\<rparr>)"
proof -
  let ?st0 = "st\<lparr>sv_reply_window := (sv_reply_window st)(clt \<mapsto> window clt st)\<rparr>"
  obtain rs st1 where f: "free_acked k (window clt st) ?st0 = Some (rs, st1)" using assms(2) [of ?st0] by auto
  note rs = free_acked_list [OF f]
  obtain H where st1: "st1 = ?st0\<lparr>heap := H\<rparr>" using free_acked_frame [OF f] by blast
  have "find (\<lambda>r. rt_xid r = xid) rs = None" using assms(1) by (auto simp: rs find_None_iff xids_def)
  then show ?thesis by (intro exI [of _ H]) (simp add: checkduplicate_and_update_def Let_def f st1 rs)
qed

lemma dispatch_check_fresh:
  fixes st :: "'s rpcs"
  assumes "unpack_req_header (unmarshall_of b) = (h, req)" and "u_ok req" and "rq_clt_nonce h \<noteq> 0"
    and "rq_srv_nonce h = 0 \<or> rq_srv_nonce h = sv_nonce st" and "sv_procs st (rq_proc h) = Some f"
    and "rq_xid h \<notin> set (xids (rq_clt_nonce h) st)"
    and "\<And>st' :: 's rpcs. heap st' = heap st \<Longrightarrow> \<exists>v. free_acked (rq_xid_rep h) (window (rq_clt_nonce h) st) st' = Some v"
    and sc: "save_conn (rq_clt_nonce h) c
           (st\<lparr>sv_reply_window := (sv_reply_window st)(rq_clt_nonce h \<mapsto> window (rq_clt_nonce h) st)\<rparr>) = Some st2"
  shows "\<exists>H. dispatch_check c b st = Some (Inr (h, req, f, NEW, None, 0),
    st2\<lparr>heap := H, sv_reply_window := (sv_reply_window st2)(rq_clt_nonce h \<mapsto>
      map (\<lambda>r. if rt_xid r \<le> rq_xid_rep h then r\<lparr>rt_buf := None, rt_sz := 0, rt_cb_present := False\<rparr> else r)
        (window (rq_clt_nonce h) st) @ [reply_new (rq_xid h)])\<rparr>)"
proof -
  note st2 = conjunct1 [OF save_conn_frame [OF sc]]
  have f2: "heap st2 = heap st" "window (rq_clt_nonce h) st2 = window (rq_clt_nonce h) st"
    by (subst st2, simp add: window_def)+
  have "rq_xid h \<notin> set (xids (rq_clt_nonce h) st2)" using assms(6) by (simp add: xids_def f2(2))
  then have "\<exists>H. checkduplicate_and_update (rq_clt_nonce h) (rq_xid h) (rq_xid_rep h) st2 = Some ((NEW, None, 0),
    st2\<lparr>heap := H, sv_reply_window := (sv_reply_window st2)(rq_clt_nonce h \<mapsto>
      map (\<lambda>r. if rt_xid r \<le> rq_xid_rep h then r\<lparr>rt_buf := None, rt_sz := 0, rt_cb_present := False\<rparr> else r)
        (window (rq_clt_nonce h) st2) @ [reply_new (rq_xid h)])\<rparr>)"
    by (rule checkduplicate_fresh) (unfold f2, rule assms(7))
  then show ?thesis unfolding dispatch_check_known [OF assms(1-5) sc] f2(2) by auto
qed

lemma dispatch_new_runs:
  assumes "window (rq_clt_nonce h) st = ws @ [reply_new (rq_xid h)]" and "rq_xid h \<notin> rt_xid ` set ws"
    and "rq_clt_nonce h \<noteq> 0" and "sv_conns st (rq_clt_nonce h) = Some c" and "0 < refno st c"
    and "f req marshall_new (app st) = Some ((ret, rep), s')"
  shows "0 \<le> sint ret \<or> ret = unmarshal_args_failure \<Longrightarrow> \<not> m_undef rep \<Longrightarrow>
      \<exists>st'. dispatch_new c h req f st = Some st' \<and> app st' = s' \<and> refno st' = (refno st)(c := refno st c - 1) \<and>
        sent st' = sent st @ [(c, m_written (pack_reply_header \<lparr>rp_xid = rq_xid h, rp_ret = ret\<rparr> rep))] \<and>
        sv_conns st' = sv_conns st \<and> sv_nonce st' = sv_nonce st \<and> sv_procs st' = sv_procs st \<and>
        sv_reachable st' = sv_reachable st"
    and "\<not> (0 \<le> sint ret \<or> ret = unmarshal_args_failure) \<Longrightarrow> dispatch_new c h req f st = None"
proof -
  let ?clt = "rq_clt_nonce h"
  have pos: "0 < ?clt" using assms(3) by (simp add: word_neq_0_conv)
  define st4 where "st4 = (if sv_counting st \<noteq> 0 then updatestat (rq_proc h) st else st)"
  have f4: "app st4 = app st" "window ?clt st4 = ws @ [reply_new (rq_xid h)]" "refno st4 = refno st"
    "sv_conns st4 = sv_conns st" "sent st4 = sent st" "sv_nonce st4 = sv_nonce st" "sv_procs st4 = sv_procs st"
    "sv_reachable st4 = sv_reachable st"
    using assms(1) by (simp_all add: st4_def updatestat_def Let_def window_def)
  show "dispatch_new c h req f st = None" if "\<not> (0 \<le> sint ret \<or> ret = unmarshal_args_failure)"
    using that assms(6) f4(1) unfolding dispatch_new_def Let_def st4_def [symmetric] by simp
  obtain buf sz where t: "m_take_buf (pack_reply_header \<lparr>rp_xid = rq_xid h, rp_ret = ret\<rparr> rep) = (buf, sz)"
    by fastforce
  then have w: "take sz buf = m_written (pack_reply_header \<lparr>rp_xid = rq_xid h, rp_ret = ret\<rparr> rep)"
    by (auto simp: m_take_buf_def m_written_def)
  have "window ?clt (snd (alloc buf (st4\<lparr>app := s'\<rparr>))) = ws @ [reply_new (rq_xid h)]"
    using f4(2) by (simp add: alloc_def window_def)
  then obtain W where a: "add_reply ?clt (rq_xid h) (heap_next st4) sz (snd (alloc buf (st4\<lparr>app := s'\<rparr>))) =
      Some ((snd (alloc buf (st4\<lparr>app := s'\<rparr>)))\<lparr>sv_reply_window := W\<rparr>)"
    unfolding add_reply_def by (simp add: set_reply_last [OF assms(2)])
  assume "0 \<le> sint ret \<or> ret = unmarshal_args_failure" and "\<not> m_undef rep"
  then show "\<exists>st'. dispatch_new c h req f st = Some st' \<and> app st' = s' \<and> refno st' = (refno st)(c := refno st c - 1) \<and>
        sent st' = sent st @ [(c, m_written (pack_reply_header \<lparr>rp_xid = rq_xid h, rp_ret = ret\<rparr> rep))] \<and>
        sv_conns st' = sv_conns st \<and> sv_nonce st' = sv_nonce st \<and> sv_procs st' = sv_procs st \<and>
        sv_reachable st' = sv_reachable st"
    using a assms(3-6) pos f4 unfolding dispatch_new_def Let_def st4_def [symmetric]
    by (simp add: t w alloc_def send_buf_def decref_def)
qed

text \<open>A small server: one handler that counts its calls, and two open connections.\<close>

definition demo_handler :: "nat handler" where
  "demo_handler u m s = Some ((0, put_uint (of_nat (Suc s)) m), Suc s)"

definition demo_rpcs :: "nat rpcs" where
  "demo_rpcs = \<lparr>sv_nonce = 9, sv_reply_window = Map.empty, sv_conns = Map.empty, sv_counting = 0,
     sv_curr_counts = 0, sv_counts = Map.empty, sv_reachable = True, sv_procs = [0x7001 \<mapsto> demo_handler],
     heap = Map.empty, heap_next = 0, refno = (\<lambda>_. 2), dead = (\<lambda>_. False), sent = [], app = 0\<rparr>"

definition demo_req :: "u32 \<Rightarrow> u32 \<Rightarrow> string" where
  "demo_req xid xid_rep = replicate 4 CHR ''x'' @
     enc_req_header \<lparr>rq_xid = xid, rq_proc = 0x7001, rq_clt_nonce = 5, rq_srv_nonce = 9, rq_xid_rep = xid_rep\<rparr>"

lemma demo_unpack:
  obtains u where "unpack_req_header (unmarshall_of (demo_req xid k)) =
    (\<lparr>rq_xid = xid, rq_proc = 0x7001, rq_clt_nonce = 5, rq_srv_nonce = 9, rq_xid_rep = k\<rparr>, u)" and "u_ok u"
  using unpack_req_header_at [of "demo_req xid k"
      "\<lparr>rq_xid = xid, rq_proc = 0x7001, rq_clt_nonce = 5, rq_srv_nonce = 9, rq_xid_rep = k\<rparr>" "[]"]
  by (auto simp: demo_req_def u_at_def enc_req_header_def)

lemma demo_dispatch:
  obtains st1 where "dispatch 1 (demo_req 7 6) demo_rpcs = Some (Some NEW, st1)"
proof -
  have "\<not> Option.is_none (dispatch 1 (demo_req 7 6) demo_rpcs) \<and>
      map_option fst (dispatch 1 (demo_req 7 6) demo_rpcs) = Some (Some NEW)" by code_simp
  then show ?thesis using that by auto
qed

section \<open>At-most-once execution\<close>

text \<open>
  \<^verbatim>\<open>rpcs::got_pdu\<close>. \<open>succ\<close> is what the thread pool answers, and \<open>reach2\<close> the value \<^verbatim>\<open>reachable_\<close> has
  when the code reads it the second time. The result says what the code returns, whether the job was
  handed to the pool and whether it was deleted.
\<close>

definition got_pdu :: "nat \<Rightarrow> bool \<Rightarrow> bool \<Rightarrow> 's rpcs \<Rightarrow> ((bool \<times> bool \<times> bool) \<times> 's rpcs) option" where
  "got_pdu c succ reach2 st =
     (if \<not> sv_reachable st then Some ((True, False, False), st)
      else let st1 = incref c st in
           if \<not> succ \<or> \<not> reach2 then do { st2 \<leftarrow> decref c st1; Some ((succ, succ, True), st2) }
           else Some ((succ, succ, False), st1))"

text \<open>
  The server and its dispatch threads: the jobs handed to the pool, the dispatches that took their
  verdict and are about to act on it, and the log of the (client, xid) pairs whose handler ran.
  The threads interleave between the two parts of \<^verbatim>\<open>dispatch\<close>; connections die at any time.
\<close>

type_synonym 's verdict =
  "nat \<times> req_header \<times> unmarshall \<times> 's handler \<times> rpcstate_t \<times> nat option \<times> nat"

record 's rpcsys =
  srv :: "'s rpcs"
  jobs :: "(nat \<times> string) list"
  active :: "'s verdict list"
  runs :: "(u32 \<times> u32) list"

inductive rpcs_step :: "'s rpcsys \<Rightarrow> 's rpcsys \<Rightarrow> bool" where
  arrive: "got_pdu c succ (sv_reachable (srv s)) (srv s) = Some ((r, queued, d), st') \<Longrightarrow>
    rpcs_step s (s\<lparr>srv := st', jobs := jobs s @ (if queued then [(c, b)] else [])\<rparr>)"
| early: "jobs s = js1 @ (c, b) # js2 \<Longrightarrow> dispatch_check c b (srv s) = Some (Inl (), st') \<Longrightarrow>
    rpcs_step s (s\<lparr>srv := st', jobs := js1 @ js2\<rparr>)"
| check: "jobs s = js1 @ (c, b) # js2 \<Longrightarrow> dispatch_check c b (srv s) = Some (Inr v, st') \<Longrightarrow>
    rpcs_step s (s\<lparr>srv := st', jobs := js1 @ js2, active := (c, v) # active s\<rparr>)"
| act: "active s = as1 @ (c, h, req, f, stat, b1, sz1) # as2 \<Longrightarrow>
    dispatch_switch c h req f stat b1 sz1 (srv s) = Some st' \<Longrightarrow>
    rpcs_step s (s\<lparr>srv := st', active := as1 @ as2,
                   runs := runs s @ (if stat = NEW then [(rq_clt_nonce h, rq_xid h)] else [])\<rparr>)"
| conn_dies: "rpcs_step s (s\<lparr>srv := (srv s)\<lparr>dead := (dead (srv s))(c := True)\<rparr>\<rparr>)"

fun verdict_runs :: "'s verdict \<Rightarrow> u32 \<Rightarrow> u32 \<Rightarrow> bool" where
  "verdict_runs (c, h, req, f, stat, b1, sz1) clt xid \<longleftrightarrow>
     stat = NEW \<and> rq_clt_nonce h = clt \<and> rq_xid h = xid"

definition started :: "u32 \<Rightarrow> u32 \<Rightarrow> 's rpcsys \<Rightarrow> nat" where
  "started clt xid s = count_list (runs s) (clt, xid) + length (filter (\<lambda>v. verdict_runs v clt xid) (active s))"

lemma reply_window_frames [frame_simps]:
  "decref c st = Some st' \<Longrightarrow> sv_reply_window st' = sv_reply_window st"
  "sv_reply_window (incref c st) = sv_reply_window st"
  "send_buf c a sz st = Some st' \<Longrightarrow> sv_reply_window st' = sv_reply_window st"
  "free p st = Some st' \<Longrightarrow> sv_reply_window st' = sv_reply_window st"
  "sv_reply_window (updatestat proc st) = sv_reply_window st"
  "sv_reply_window (snd (alloc buf st)) = sv_reply_window st"
  by (auto simp: decref_def incref_def send_buf_def free_def updatestat_def alloc_def Let_def
      split: if_splits option.splits)

lemma xids_cong: "sv_reply_window st' = sv_reply_window st \<Longrightarrow> xids c st' = xids c st"
  by (simp add: xids_def window_def)

text \<open>What the execution of a new request leaves behind.\<close>

lemma dispatch_new_effect:
  assumes "dispatch_new c h req f st = Some st'"
  obtains buf sz c' where "heap_next st' = Suc (heap_next st)" and "\<And>a. a \<noteq> heap_next st \<Longrightarrow> heap st' a = heap st a"
    and "sent st' = sent st @ [(c', take sz buf)]"
    and "rq_clt_nonce h = 0 \<Longrightarrow> sv_reply_window st' = sv_reply_window st"
    and "rq_clt_nonce h \<noteq> 0 \<Longrightarrow> heap st' (heap_next st) = Some buf"
    and "rq_clt_nonce h \<noteq> 0 \<Longrightarrow>
      \<exists>l. set_reply (rq_xid h) (heap_next st) sz (window (rq_clt_nonce h) st) = Some l \<and>
          sv_reply_window st' = (sv_reply_window st)(rq_clt_nonce h \<mapsto> l)"
proof -
  define st1 where "st1 = (if sv_counting st \<noteq> 0 then updatestat (rq_proc h) st else st)"
  have st1: "sv_reply_window st1 = sv_reply_window st" "heap_next st1 = heap_next st" "heap st1 = heap st" "sent st1 = sent st"
    by (simp_all add: st1_def updatestat_def Let_def)
  obtain ret rep s' where f: "f req marshall_new (app st1) = Some ((ret, rep), s')"
    using assms unfolding dispatch_new_def Let_def st1_def [symmetric] by (auto simp: bind_eq_Some_conv)
  obtain buf sz where t: "m_take_buf (pack_reply_header \<lparr>rp_xid = rq_xid h, rp_ret = ret\<rparr> rep) = (buf, sz)"
    by fastforce
  have ok: "\<not> m_undef rep" "0 \<le> sint ret \<or> ret = unmarshal_args_failure"
    using assms unfolding dispatch_new_def Let_def st1_def [symmetric] by (auto simp: f bind_eq_Some_conv split: if_splits)
  define st2 where "st2 = snd (alloc buf (st1\<lparr>app := s'\<rparr>))"
  have al: "alloc buf (st1\<lparr>app := s'\<rparr>) = (heap_next st, st2)" by (simp add: st2_def alloc_def st1)
  have st2: "sv_reply_window st2 = sv_reply_window st" "heap_next st2 = Suc (heap_next st)"
    "heap st2 = (heap st)(heap_next st \<mapsto> buf)" "sent st2 = sent st"
    by (simp_all add: st2_def alloc_def st1)
  from assms obtain st3 c' st4 st5 st6 where
    s3: "(if rq_clt_nonce h > 0 then add_reply (rq_clt_nonce h) (rq_xid h) (heap_next st) sz st2 else Some st2) = Some st3"
    and s4: "(if dead st3 c \<and> sv_conns st3 (rq_clt_nonce h) \<noteq> Some c
              then do { st' \<leftarrow> decref c st3; c' \<leftarrow> sv_conns st' (rq_clt_nonce h); Some (c', incref c' st') }
              else Some (c, st3)) = Some (c', st4)"
    and s5: "send_buf c' (heap_next st) sz st4 = Some st5"
    and s6: "(if rq_clt_nonce h = 0 then free (Some (heap_next st)) st5 else Some st5) = Some st6"
    and s7: "decref c' st6 = Some st'"
    unfolding dispatch_new_def Let_def st1_def [symmetric]
    by (simp add: f t al ok bind_eq_Some_conv) blast
  have st3: "heap_next st3 = heap_next st2" "heap st3 = heap st2" "sent st3 = sent st2"
    and w: "sv_reply_window st3 = (if rq_clt_nonce h = 0 then sv_reply_window st
       else (sv_reply_window st)(rq_clt_nonce h \<mapsto> the (set_reply (rq_xid h) (heap_next st) sz (window (rq_clt_nonce h) st))))"
    and l: "rq_clt_nonce h \<noteq> 0 \<Longrightarrow> set_reply (rq_xid h) (heap_next st) sz (window (rq_clt_nonce h) st) \<noteq> None"
    using s3 st2(1) window_cong [OF st2(1)] by (auto simp: add_reply_def bind_eq_Some_conv word_neq_0_conv split: if_splits)
  have st4: "heap_next st4 = heap_next st3" "heap st4 = heap st3" "sent st4 = sent st3" "sv_reply_window st4 = sv_reply_window st3"
    using s4 by (auto simp: decref_def incref_def bind_eq_Some_conv split: if_splits)
  have st5: "heap_next st5 = heap_next st4" "heap st5 = heap st4" "sent st5 = sent st4 @ [(c', take sz buf)]"
    "sv_reply_window st5 = sv_reply_window st4"
    using s5 st4(2) st3(2) st2(3) by (auto simp: send_buf_def split: option.splits)
  have st6: "heap_next st6 = heap_next st5" "sent st6 = sent st5" "sv_reply_window st6 = sv_reply_window st5"
    "\<And>a. a \<noteq> heap_next st \<Longrightarrow> heap st6 a = heap st5 a" "rq_clt_nonce h \<noteq> 0 \<Longrightarrow> heap st6 = heap st5"
    using s6 by (auto simp: free_def split: if_splits)
  have st7: "heap_next st' = heap_next st6" "heap st' = heap st6" "sent st' = sent st6" "sv_reply_window st' = sv_reply_window st6"
    using s7 by (auto simp: decref_def split: if_splits)
  show ?thesis
    by (rule that [of c' sz buf]) (use st2 st3 st4 st5 st6 st7 w l in auto)
qed

lemma dispatch_new_xids:
  assumes "dispatch_new c h req f st = Some st'"
  shows "xids clt st' = xids clt st"
  using assms
proof (rule dispatch_new_effect)
  fix buf c' and sz :: nat
  assume z: "rq_clt_nonce h = 0 \<Longrightarrow> sv_reply_window st' = sv_reply_window st"
    and n: "rq_clt_nonce h \<noteq> 0 \<Longrightarrow>
      \<exists>l. set_reply (rq_xid h) (heap_next st) sz (window (rq_clt_nonce h) st) = Some l \<and>
          sv_reply_window st' = (sv_reply_window st)(rq_clt_nonce h \<mapsto> l)"
  show ?thesis
  proof (cases "rq_clt_nonce h = 0")
    case False
    then obtain l where l: "set_reply (rq_xid h) (heap_next st) sz (window (rq_clt_nonce h) st) = Some l"
      "sv_reply_window st' = (sv_reply_window st)(rq_clt_nonce h \<mapsto> l)" using n by blast
    have "window clt st' = (if clt = rq_clt_nonce h then l else window clt st)" by (simp add: window_def l(2))
    then show ?thesis using set_reply_xids [OF l(1)] by (simp add: xids_def)
  qed (use z xids_cong in blast)
qed

lemma dispatch_switch_xids:
  "dispatch_switch c h req f stat b1 sz1 st = Some st' \<Longrightarrow> xids clt st' = xids clt st"
  by (cases stat)
    (auto simp: dispatch_switch_def bind_eq_Some_conv Let_def dest!: reply_window_frames(1,3)
      intro: dispatch_new_xids xids_cong)

lemma dispatch_check_early_xids:
  "dispatch_check c b st = Some (Inl u, st') \<Longrightarrow> xids clt st' = xids clt st"
  by (auto simp: dispatch_check_def Let_def bind_eq_Some_conv frame_simps intro!: xids_cong
      split: prod.splits if_splits option.splits)

lemma dispatch_check_xids:
  assumes "dispatch_check c b st = Some (Inr (h, req, f, stat, b1, sz1), st')"
  shows "clt \<noteq> 0 \<Longrightarrow> verdict_runs (c, h, req, f, stat, b1, sz1) clt xid \<Longrightarrow>
           xid \<notin> set (xids clt st) \<and> xid \<in> set (xids clt st')"
    and "set (xids clt st) \<subseteq> set (xids clt st')"
proof -
  have x: "xids clt st2 = xids clt st"
    if "save_conn cl c (st\<lparr>sv_reply_window := (sv_reply_window st)(cl \<mapsto> window cl st)\<rparr>) = Some st2" for cl st2
    by (subst conjunct1 [OF save_conn_frame [OF that]]) (simp add: xids_def window_def)
  have "(clt \<noteq> 0 \<longrightarrow> verdict_runs (c, h, req, f, stat, b1, sz1) clt xid \<longrightarrow>
           xid \<notin> set (xids clt st) \<and> xid \<in> set (xids clt st')) \<and> set (xids clt st) \<subseteq> set (xids clt st')"
    using assms
  proof (cases rule: dispatch_check_cases)
    case (window st2)
    note x2 = x [OF window(6)]
    from window(7) show ?thesis
    proof (cases rule: checkduplicate_cases)
      case fresh
      have "xids clt st' = (if clt = rq_clt_nonce h then xids clt st2 @ [rq_xid h] else xids clt st2)"
        using fresh(3,5) by (auto simp: xids_def)
      then show ?thesis using fresh(1) x2 by auto
    next
      case (seen r)
      then have "xids clt st' = xids clt st2" by (simp add: xids_def)
      moreover have "\<not> verdict_runs (c, h, req, f, stat, b1, sz1) clt xid" using seen(3) by (auto split: if_splits)
      ultimately show ?thesis using x2 by simp
    qed
  qed auto
  then show "clt \<noteq> 0 \<Longrightarrow> verdict_runs (c, h, req, f, stat, b1, sz1) clt xid \<Longrightarrow>
           xid \<notin> set (xids clt st) \<and> xid \<in> set (xids clt st')" and "set (xids clt st) \<subseteq> set (xids clt st')"
    by blast+
qed

lemma started_step:
  assumes "rpcs_step s s'" and "clt \<noteq> 0" and "started clt xid s \<le> of_bool (xid \<in> set (xids clt (srv s)))"
  shows "started clt xid s' \<le> of_bool (xid \<in> set (xids clt (srv s')))"
  using assms(1)
proof cases
  case (arrive c succ r queued d st' b)
  then have "xids clt st' = xids clt (srv s)"
    by (auto simp: got_pdu_def Let_def bind_eq_Some_conv frame_simps intro!: xids_cong split: if_splits)
  then show ?thesis using assms(3) arrive by (simp add: started_def)
next
  case (early js1 c b js2 st')
  then show ?thesis using assms(3) dispatch_check_early_xids [of c b "srv s"] by (simp add: started_def)
next
  case (check js1 c b js2 v st')
  obtain h req f stat b1 sz1 where v: "v = (h, req, f, stat, b1, sz1)" by (cases v) blast
  note d = dispatch_check_xids [OF check(3) [unfolded v]]
  show ?thesis
  proof (cases "verdict_runs (c, v) clt xid")
    case True
    then have "xid \<notin> set (xids clt (srv s))" "xid \<in> set (xids clt st')"
      using d(1) assms(2) v by auto
    then show ?thesis using True assms(3) check(1) by (simp add: started_def)
  next
    case False
    then show ?thesis using assms(3) d(2) check(1) by (auto simp: started_def of_bool_def split: if_splits)
  qed
next
  case (act as1 c h req f stat b1 sz1 as2 st')
  then show ?thesis using assms(3) dispatch_switch_xids [OF act(3)]
    by (auto simp: started_def)
next
  case (conn_dies c)
  then show ?thesis using assms(3) by (simp add: started_def xids_def window_def)
qed

lemma started_run:
  assumes "rpcs_step\<^sup>*\<^sup>* s s'" and "sv_reply_window (srv s) = Map.empty" and "active s = []" and "runs s = []"
    and "clt \<noteq> 0"
  shows "started clt xid s' \<le> of_bool (xid \<in> set (xids clt (srv s')))"
  using assms(1)
proof (induction rule: rtranclp_induct)
  case base
  then show ?case using assms(3,4) by (simp add: started_def)
next
  case (step s1 s2)
  then show ?case using started_step assms(5) by blast
qed

text \<open>
  C3. At-most-once execution: however requests are duplicated, delayed and reordered by the network
  and interleaved by the dispatch threads, the handler runs at most once for each request of a
  client that identifies itself.
\<close>

theorem at_most_once:
  assumes "rpcs_step\<^sup>*\<^sup>* s s'" and "sv_reply_window (srv s) = Map.empty" and "active s = []" and "runs s = []"
    and "clt \<noteq> 0"
  shows "count_list (runs s') (clt, xid) \<le> 1"
  using started_run [OF assms, of xid] by (auto simp: started_def of_bool_def split: if_splits)

lemma dispatch_steps:
  assumes "dispatch c b (srv s) = Some (Some NEW, st')" and "jobs s = (c, b) # js"
    and "unpack_req_header (unmarshall_of b) = (h, req)"
  shows "rpcs_step\<^sup>*\<^sup>* s (s\<lparr>jobs := js, srv := st', runs := runs s @ [(rq_clt_nonce h, rq_xid h)]\<rparr>)"
proof -
  obtain h' req' f b1 sz1 stc where c: "dispatch_check c b (srv s) = Some (Inr (h', req', f, NEW, b1, sz1), stc)"
    and a: "dispatch_switch c h' req' f NEW b1 sz1 stc = Some st'"
    using assms(1) by (rule dispatch_SomeE)
  have h: "h' = h" using c by (cases rule: dispatch_check_cases) (use assms(3) in auto)
  let ?s1 = "s\<lparr>srv := stc, jobs := [] @ js, active := (c, h', req', f, NEW, b1, sz1) # active s\<rparr>"
  have 1: "rpcs_step s ?s1"
    by (rule rpcs_step.check [OF _ c, of "[]"]) (simp add: assms(2))
  have 2: "rpcs_step ?s1 (?s1\<lparr>srv := st', active := [] @ active s,
      runs := runs ?s1 @ (if NEW = NEW then [(rq_clt_nonce h', rq_xid h')] else [])\<rparr>)"
    by (rule rpcs_step.act [where ?as1.0 = "[]" and ?b1.0 = b1 and ?sz1.0 = sz1 and f = f and req = req' and c = c])
      (use a in simp_all)
  show ?thesis
    using converse_rtranclp_into_rtranclp [where r = rpcs_step, OF 1 r_into_rtranclp [where r = rpcs_step, OF 2]] by (simp add: h)
qed

definition demo_sys :: "nat rpcsys" where
  "demo_sys = \<lparr>srv = demo_rpcs, jobs = [(1, demo_req 7 6)], active = [], runs = []\<rparr>"

theorem at_most_once_witness:
  "\<exists>s'. rpcs_step\<^sup>*\<^sup>* demo_sys s' \<and> runs s' = [(5, 7)] \<and> count_list (runs s') (5, 7) \<le> 1"
proof -
  obtain u where u: "unpack_req_header (unmarshall_of (demo_req 7 6)) =
    (\<lparr>rq_xid = 7, rq_proc = 0x7001, rq_clt_nonce = 5, rq_srv_nonce = 9, rq_xid_rep = 6\<rparr>, u)" "u_ok u"
    by (rule demo_unpack)
  obtain st1 where "dispatch 1 (demo_req 7 6) demo_rpcs = Some (Some NEW, st1)"
    by (rule demo_dispatch)
  then have run: "rpcs_step\<^sup>*\<^sup>* demo_sys (demo_sys\<lparr>jobs := [], srv := st1, runs := [(5, 7)]\<rparr>)"
    using dispatch_steps [of 1 "demo_req 7 6" demo_sys st1 "[]", OF _ _ u(1)] by (simp add: demo_sys_def)
  show ?thesis
    using run at_most_once [OF run, of 5 7] by (auto simp: demo_sys_def demo_rpcs_def)
qed

section \<open>Replies are kept until they are acknowledged\<close>

definition owns :: "'s rpcs \<Rightarrow> nat \<Rightarrow> u32 \<Rightarrow> u32 \<Rightarrow> bool" where
  "owns st a clt x \<longleftrightarrow> (\<exists>r\<in>set (window clt st). rt_xid r = x \<and> rt_buf r = Some a)"

definition win_inv :: "'s rpcs \<Rightarrow> bool" where
  "win_inv st \<longleftrightarrow> (\<forall>clt. distinct (xids clt st)) \<and> (\<forall>a clt x. owns st a clt x \<longrightarrow> a < heap_next st) \<and>
     (\<forall>a clt x clt' x'. owns st a clt x \<and> owns st a clt' x' \<longrightarrow> clt = clt' \<and> x = x')"

definition recorded :: "u32 \<Rightarrow> u32 \<Rightarrow> nat \<Rightarrow> char option list \<Rightarrow> nat \<Rightarrow> 's rpcs \<Rightarrow> bool" where
  "recorded clt x a buf sz st \<longleftrightarrow> heap st a = Some buf \<and>
     (\<exists>r\<in>set (window clt st). rt_xid r = x \<and> rt_cb_present r \<and> rt_buf r = Some a \<and> rt_sz r = sz)"

text \<open>
  Every step but the execution of a new request does no more to the windows than what a request of
  client \<open>clt\<close> does that acknowledges the replies up to \<open>k\<close>.
\<close>

definition trims :: "u32 \<Rightarrow> u32 \<Rightarrow> 's rpcs \<Rightarrow> 's rpcs \<Rightarrow> bool" where
  "trims clt k st st' \<longleftrightarrow> heap_next st' = heap_next st \<and>
     (\<forall>c. distinct (xids c st) \<longrightarrow> distinct (xids c st')) \<and> (\<forall>a c x. owns st' a c x \<longrightarrow> owns st a c x) \<and>
     (\<forall>b. (\<forall>y\<le>k. \<not> owns st b clt y) \<longrightarrow> heap st' b = heap st b) \<and>
     (\<forall>c r. r \<in> set (window c st) \<and> (c \<noteq> clt \<or> k < rt_xid r) \<longrightarrow> r \<in> set (window c st'))"

lemma trims_same:
  assumes "\<And>c. window c st' = window c st" and "heap st' = heap st" and "heap_next st' = heap_next st"
  shows "trims clt k st st'"
  using assms by (simp add: trims_def owns_def xids_def)

lemma trims_cong:
  assumes "trims clt k st1 st'" and "\<And>c. window c st1 = window c st" and "heap st1 = heap st" and "heap_next st1 = heap_next st"
  shows "trims clt k st st'"
  using assms by (simp add: trims_def owns_def xids_def)

lemma free_acked_heap:
  "free_acked k rs st = Some (rs', st') \<Longrightarrow> \<forall>r\<in>set rs. rt_xid r \<le> k \<longrightarrow> rt_buf r \<noteq> Some b \<Longrightarrow> heap st' b = heap st b"
proof (induction rs arbitrary: rs' st)
  case (Cons r rs)
  show ?case
  proof (cases "rt_xid r \<le> k")
    case True
    then obtain st1 rs1 where f: "free (rt_buf r) st = Some st1" "free_acked k rs st1 = Some (rs1, st')"
      using Cons.prems(1) by (auto simp: bind_eq_Some_conv)
    have "heap st1 b = heap st b" using f(1) Cons.prems(2) True by (auto simp: free_def split: option.splits if_splits)
    then show ?thesis using Cons.IH [OF f(2)] Cons.prems(2) by simp
  next
    case False
    then obtain rs1 where "free_acked k rs st = Some (rs1, st')" using Cons.prems(1) by (auto simp: bind_eq_Some_conv)
    then show ?thesis using Cons.IH Cons.prems(2) by simp
  qed
qed simp

lemma checkduplicate_trims:
  assumes "checkduplicate_and_update clt x k st = Some (v, st')"
  shows "trims clt k st st'"
proof -
  let ?st0 = "st\<lparr>sv_reply_window := (sv_reply_window st)(clt \<mapsto> window clt st)\<rparr>"
  from assms obtain rs st1 where fa: "free_acked k (window clt st) ?st0 = Some (rs, st1)" and h1: "heap st' = heap st1"
    by (auto simp: checkduplicate_and_update_def Let_def bind_eq_Some_conv split: option.splits if_splits)
  have heap: "heap st' b = heap st b" if "\<forall>y\<le>k. \<not> owns st b clt y" for b
    using free_acked_heap [OF fa, of b] that h1 by (auto simp: owns_def)
  obtain stat bs where v: "v = (stat, bs)" by (cases v) blast
  from assms [unfolded v] show ?thesis
  proof (cases rule: checkduplicate_cases)
    case fresh
    have o: "owns st a c y" if "owns st' a c y" for a c y
      using that fresh(4,5) by (cases "c = clt") (auto simp: owns_def reply_new_def split: if_splits)
    have d: "distinct (xids c st')" if "distinct (xids c st)" for c
      using that fresh(1,3,5) by (cases "c = clt") (auto simp: xids_def)
    have m: "r \<in> set (window c st')" if "r \<in> set (window c st)" "c \<noteq> clt \<or> k < rt_xid r" for c r
      using that fresh(4,5) by (cases "c = clt") (force simp: not_le)+
    have "heap_next st' = heap_next st" using fresh(6) by auto
    then show ?thesis unfolding trims_def using heap o d m by blast
  next
    case (seen r)
    have "heap_next st' = heap_next st" using seen(6) by auto
    then show ?thesis unfolding trims_def using heap seen(5) by (simp add: owns_def xids_def)
  qed
qed

lemma dispatch_check_trims:
  assumes "dispatch_check c b st = Some (Inr (h, req, f, stat, b1, sz1), st')"
  shows "trims (rq_clt_nonce h) (rq_xid_rep h) st st'"
  using assms
proof (cases rule: dispatch_check_cases)
  case (window st2)
  note st2 = conjunct1 [OF save_conn_frame [OF window(6)]]
  show ?thesis
    by (rule trims_cong [OF checkduplicate_trims [OF window(7)]]; subst st2) (simp_all add: window_def)
next
  case anonymous
  then show ?thesis by (simp add: trims_same)
qed

lemma dispatch_check_early_trims: "dispatch_check c b st = Some (Inl u, st') \<Longrightarrow> trims clt k st st'"
  by (rule trims_same)
    (auto simp: dispatch_check_def Let_def bind_eq_Some_conv decref_def window_def split: prod.splits if_splits option.splits)

lemma dispatch_switch_trims:
  assumes "dispatch_switch c h req f stat b1 sz1 st = Some st'" and "stat \<noteq> NEW"
  shows "trims clt k st st'"
  using assms
  by (intro trims_same; cases stat)
    (auto simp: dispatch_switch_def bind_eq_Some_conv decref_def send_buf_def Let_def window_def split: if_splits option.splits)

lemma rpcs_step_trims:
  assumes "rpcs_step s s'"
  obtains (same) "\<And>clt k. trims clt k (srv s) (srv s')" "runs s' = runs s"
  | (check) c b h req where "(c, b) \<in> set (jobs s)" "unpack_req_header (unmarshall_of b) = (h, req)" "u_ok req"
      "trims (rq_clt_nonce h) (rq_xid_rep h) (srv s) (srv s')" "runs s' = runs s"
  | (new) c h req f b1 sz1 where "(c, h, req, f, NEW, b1, sz1) \<in> set (active s)"
      "dispatch_new c h req f (srv s) = Some (srv s')" "runs s' = runs s @ [(rq_clt_nonce h, rq_xid h)]"
  using assms
proof cases
  case (arrive c succ r queued d st' b)
  have "trims clt k (srv s) st'" for clt k
    by (rule trims_same) (use arrive(2) in \<open>auto simp: got_pdu_def Let_def bind_eq_Some_conv decref_def incref_def window_def split: if_splits\<close>)
  then show ?thesis using same arrive(1) by simp
next
  case (early js1 c b js2 st')
  then show ?thesis using same dispatch_check_early_trims [OF early(3)] by simp
next
  case (check js1 c b js2 v st')
  obtain h req f stat b1 sz1 where v: "v = (h, req, f, stat, b1, sz1)" by (cases v) blast
  note d = check(3) [unfolded v]
  have "unpack_req_header (unmarshall_of b) = (h, req)" "u_ok req"
    using d by (cases rule: dispatch_check_cases; simp)+
  then show ?thesis using that(2) [of c b h req] dispatch_check_trims [OF d] check(1,2) by simp
next
  case (act as1 c h req f stat b1 sz1 as2 st')
  show ?thesis
  proof (cases "stat = NEW")
    case True
    then show ?thesis using new [of c h req f b1 sz1] act by (simp add: dispatch_switch_def)
  next
    case False
    then show ?thesis using same dispatch_switch_trims [OF act(3)] act(1) by simp
  qed
next
  case (conn_dies c)
  then show ?thesis using same by (simp add: trims_same window_def)
qed

subsection \<open>The windows own their buffers\<close>

lemma set_reply_mem:
  "set_reply x b sz rs = Some rs' \<Longrightarrow> r \<in> set rs' \<Longrightarrow>
     r \<in> set rs \<or> rt_xid r = x \<and> rt_buf r = Some b \<and> rt_cb_present r \<and> rt_sz r = sz"
  by (induction rs arbitrary: rs') (auto split: if_splits)

lemma set_reply_keeps: "set_reply x b sz rs = Some rs' \<Longrightarrow> r \<in> set rs \<Longrightarrow> rt_buf r \<noteq> None \<Longrightarrow> r \<in> set rs'"
  by (induction rs arbitrary: rs') (auto split: if_splits)

lemma set_reply_new:
  "set_reply x b sz rs = Some rs' \<Longrightarrow> x \<in> rt_xid ` set rs \<Longrightarrow>
     \<exists>r\<in>set rs'. rt_xid r = x \<and> rt_cb_present r \<and> rt_buf r = Some b \<and> rt_sz r = sz"
  by (induction rs arbitrary: rs') (auto split: if_splits)

lemma trims_inv: "trims clt k st st' \<Longrightarrow> win_inv st \<Longrightarrow> win_inv st'"
  unfolding trims_def win_inv_def by simp blast

lemma trims_recorded:
  assumes "trims clt' k st st'" and "win_inv st" and "clt' = clt \<Longrightarrow> k < x" and "recorded clt x a buf sz st"
  shows "recorded clt x a buf sz st'"
proof -
  have o: "owns st a clt x" using assms(4) by (auto simp: recorded_def owns_def)
  have "\<not> owns st a clt' y" if "y \<le> k" for y
    using o that assms(2,3) unfolding win_inv_def by (metis not_le)
  then have "heap st' a = heap st a" using assms(1) unfolding trims_def by blast
  moreover have "r \<in> set (window clt st')" if "r \<in> set (window clt st)" "rt_xid r = x" for r
    using assms(1,3) that unfolding trims_def by blast
  ultimately show ?thesis using assms(4) by (auto simp: recorded_def)
qed

lemma window_new:
  assumes "dispatch_new c h req f st = Some st'"
  obtains buf sz c' where "heap_next st' = Suc (heap_next st)" and "\<And>a. a \<noteq> heap_next st \<Longrightarrow> heap st' a = heap st a"
    and "sent st' = sent st @ [(c', take sz buf)]"
    and "\<And>r clt. r \<in> set (window clt st') \<Longrightarrow> r \<in> set (window clt st) \<or>
           clt = rq_clt_nonce h \<and> rt_xid r = rq_xid h \<and> rt_buf r = Some (heap_next st)"
    and "\<And>r clt. r \<in> set (window clt st) \<Longrightarrow> rt_buf r \<noteq> None \<Longrightarrow> r \<in> set (window clt st')"
    and "rq_clt_nonce h \<noteq> 0 \<Longrightarrow> rq_xid h \<in> set (xids (rq_clt_nonce h) st) \<Longrightarrow>
           recorded (rq_clt_nonce h) (rq_xid h) (heap_next st) buf sz st'"
  using assms
proof (rule dispatch_new_effect)
  fix buf c' and sz :: nat
  assume a: "heap_next st' = Suc (heap_next st)" "\<And>a. a \<noteq> heap_next st \<Longrightarrow> heap st' a = heap st a"
    "sent st' = sent st @ [(c', take sz buf)]"
    and z: "rq_clt_nonce h = 0 \<Longrightarrow> sv_reply_window st' = sv_reply_window st"
    and b: "rq_clt_nonce h \<noteq> 0 \<Longrightarrow> heap st' (heap_next st) = Some buf"
    and n: "rq_clt_nonce h \<noteq> 0 \<Longrightarrow>
      \<exists>l. set_reply (rq_xid h) (heap_next st) sz (window (rq_clt_nonce h) st) = Some l \<and>
          sv_reply_window st' = (sv_reply_window st)(rq_clt_nonce h \<mapsto> l)"
  show ?thesis
  proof (cases "rq_clt_nonce h = 0")
    case True
    then show ?thesis using that [OF a] window_cong [OF z] by simp
  next
    case False
    then obtain l where l: "set_reply (rq_xid h) (heap_next st) sz (window (rq_clt_nonce h) st) = Some l"
      and w: "sv_reply_window st' = (sv_reply_window st)(rq_clt_nonce h \<mapsto> l)" using n by blast
    have w': "window clt st' = (if clt = rq_clt_nonce h then l else window clt st)" for clt by (simp add: window_def w)
    show ?thesis
      by (rule that [OF a])
        (use w' b False set_reply_mem [OF l] set_reply_keeps [OF l] set_reply_new [OF l] in
          \<open>auto simp: recorded_def xids_def split: if_splits\<close>)
  qed
qed

lemma new_inv:
  assumes "dispatch_new c h req f st = Some st'" and "win_inv st"
  shows "win_inv st'"
  using assms(1)
proof (rule window_new)
  fix buf c' and sz :: nat
  assume nx: "heap_next st' = Suc (heap_next st)"
    and w: "\<And>r clt. r \<in> set (window clt st') \<Longrightarrow> r \<in> set (window clt st) \<or>
           clt = rq_clt_nonce h \<and> rt_xid r = rq_xid h \<and> rt_buf r = Some (heap_next st)"
  have o: "owns st a clt x \<or> clt = rq_clt_nonce h \<and> x = rq_xid h \<and> a = heap_next st" if "owns st' a clt x" for a clt x
    using that w unfolding owns_def by fastforce
  have lt: "a < heap_next st" if "owns st a clt x" for a clt x using that assms(2) unfolding win_inv_def by blast
  have "clt = clt' \<and> x = x'" if "owns st' a clt x" "owns st' a clt' x'" for a clt x clt' x'
    using o [OF that(1)] o [OF that(2)] lt assms(2) unfolding win_inv_def by (metis less_irrefl)
  moreover have "a < heap_next st'" if "owns st' a clt x" for a clt x using o [OF that] lt nx by fastforce
  moreover have "distinct (xids clt st')" for clt
    using dispatch_new_xids [OF assms(1)] assms(2) by (simp add: win_inv_def)
  ultimately show ?thesis unfolding win_inv_def by blast
qed

lemma new_recorded:
  assumes "dispatch_new c h req f st = Some st'" and "win_inv st" and "recorded clt x a buf sz st"
  shows "recorded clt x a buf sz st'"
proof -
  obtain h: "\<And>a. a \<noteq> heap_next st \<Longrightarrow> heap st' a = heap st a"
    and w: "\<And>r clt. r \<in> set (window clt st) \<Longrightarrow> rt_buf r \<noteq> None \<Longrightarrow> r \<in> set (window clt st')"
    using window_new [OF assms(1)] by metis
  obtain r where r: "heap st a = Some buf" "r \<in> set (window clt st)" "rt_xid r = x" "rt_cb_present r" "rt_buf r = Some a" "rt_sz r = sz"
    using assms(3) unfolding recorded_def by blast
  have "owns st a clt x" using r unfolding owns_def by blast
  then have "a < heap_next st" using assms(2) unfolding win_inv_def by blast
  then have "heap st' a = Some buf" using h r(1) by simp
  moreover have "r \<in> set (window clt st')" by (rule w [OF r(2)]) (simp add: r(5))
  ultimately show ?thesis using r unfolding recorded_def by blast
qed

lemma step_win_inv: "rpcs_step s s' \<Longrightarrow> win_inv (srv s) \<Longrightarrow> win_inv (srv s')"
  by (erule rpcs_step_trims) (blast intro: trims_inv new_inv)+

lemma run_win_inv: "rpcs_step\<^sup>*\<^sup>* s s' \<Longrightarrow> win_inv (srv s) \<Longrightarrow> win_inv (srv s')"
  by (induction rule: rtranclp_induct) (auto intro: step_win_inv)

lemma win_inv_empty: "sv_reply_window st = Map.empty \<Longrightarrow> win_inv st"
  by (simp add: win_inv_def owns_def xids_def window_def)

subsection \<open>Retransmissions\<close>

text \<open>
  No request of the client that waits to be dispatched acknowledges \<open>x\<close>, and a step taken while that
  is so.
\<close>

definition unacked :: "u32 \<Rightarrow> u32 \<Rightarrow> 's rpcsys \<Rightarrow> bool" where
  "unacked clt x s \<longleftrightarrow> (\<forall>(c, b)\<in>set (jobs s). let (h, req) = unpack_req_header (unmarshall_of b) in
     u_ok req \<and> rq_clt_nonce h = clt \<longrightarrow> rq_xid_rep h < x)"

definition unacked_step :: "u32 \<Rightarrow> u32 \<Rightarrow> 's rpcsys \<Rightarrow> 's rpcsys \<Rightarrow> bool" where
  "unacked_step clt x s s' \<longleftrightarrow> unacked clt x s \<and> rpcs_step s s'"

text \<open>The buffers of the replies that the client acknowledges with \<open>k\<close> have not been freed yet.\<close>

definition acked_live :: "u32 \<Rightarrow> u32 \<Rightarrow> 's rpcs \<Rightarrow> bool" where
  "acked_live clt k st \<longleftrightarrow>
     (\<forall>r\<in>set (window clt st). rt_xid r \<le> k \<longrightarrow> (case rt_buf r of None \<Rightarrow> True | Some a \<Rightarrow> heap st a \<noteq> None))"

lemma unacked_run_recorded:
  "(unacked_step clt x)\<^sup>*\<^sup>* s s' \<Longrightarrow> win_inv (srv s) \<Longrightarrow> recorded clt x a buf sz (srv s) \<Longrightarrow>
     win_inv (srv s') \<and> recorded clt x a buf sz (srv s')"
proof (induction rule: rtranclp_induct)
  case (step s1 s2)
  then have i: "win_inv (srv s1)" "recorded clt x a buf sz (srv s1)" and u: "unacked clt x s1" and r: "rpcs_step s1 s2"
    by (simp_all add: unacked_step_def)
  from r have "recorded clt x a buf sz (srv s2)"
  proof (cases rule: rpcs_step_trims)
    case same
    show ?thesis by (rule trims_recorded [OF same(1) [of "clt + 1"] i(1) _ i(2)]) simp
  next
    case (check c b h req)
    have "rq_clt_nonce h = clt \<Longrightarrow> rq_xid_rep h < x" using u check(1-3) by (force simp: unacked_def)
    then show ?thesis by (rule trims_recorded [OF check(4) i(1) _ i(2)])
  next
    case new
    then show ?thesis using new_recorded i by blast
  qed
  then show ?case using step_win_inv [OF r i(1)] by blast
qed simp

lemma free_acked_total:
  "distinct (map rt_xid rs) \<Longrightarrow>
   (\<And>r r' a. r \<in> set rs \<Longrightarrow> r' \<in> set rs \<Longrightarrow> rt_buf r = Some a \<Longrightarrow> rt_buf r' = Some a \<Longrightarrow> rt_xid r = rt_xid r') \<Longrightarrow>
   (\<And>r a. r \<in> set rs \<Longrightarrow> rt_xid r \<le> k \<Longrightarrow> rt_buf r = Some a \<Longrightarrow> heap st a \<noteq> None) \<Longrightarrow>
   \<exists>v. free_acked k rs st = Some v"
proof (induction rs arbitrary: st)
  case (Cons r rs)
  have ne: "rt_xid r' \<noteq> rt_xid r" if "r' \<in> set rs" for r'
    using Cons.prems(1) imageI [OF that, of rt_xid] by auto
  have IH: "\<exists>v. free_acked k rs st' = Some v"
    if "\<And>r' a. r' \<in> set rs \<Longrightarrow> rt_xid r' \<le> k \<Longrightarrow> rt_buf r' = Some a \<Longrightarrow> heap st' a \<noteq> None" for st' :: "'a rpcs"
  proof (rule Cons.IH)
    show "distinct (map rt_xid rs)" using Cons.prems(1) by simp
    show "rt_xid q = rt_xid q'" if "q \<in> set rs" "q' \<in> set rs" "rt_buf q = Some a" "rt_buf q' = Some a" for q q' a
      by (rule Cons.prems(2) [OF _ _ that(3,4)]) (simp_all add: that(1,2))
  qed (rule that)
  show ?case
  proof (cases "rt_xid r \<le> k")
    case True
    obtain st1 where f: "free (rt_buf r) st = Some st1"
      using Cons.prems(3) [of r] True by (cases "rt_buf r") (auto simp: free_def)
    have "heap st1 a \<noteq> None" if "r' \<in> set rs" "rt_xid r' \<le> k" "rt_buf r' = Some a" for r' a
    proof -
      have "rt_buf r \<noteq> Some a" using Cons.prems(2) [of r r' a] ne [OF that(1)] that by auto
      then show ?thesis using f Cons.prems(3) [of r' a] that by (auto simp: free_def split: option.splits if_splits)
    qed
    then obtain v where "free_acked k rs st1 = Some v" using IH by blast
    then show ?thesis using True f by (cases v) simp
  next
    case False
    have "\<exists>v. free_acked k rs st = Some v" by (rule IH, rule Cons.prems(3)) simp_all
    then obtain v where "free_acked k rs st = Some v" by blast
    then show ?thesis using False by (cases v) simp
  qed
qed simp

lemma checkduplicate_done:
  assumes "win_inv st" and "recorded clt x a buf sz st" and "k < x" and "acked_live clt k st"
  shows "\<exists>st'. checkduplicate_and_update clt x k st = Some ((DONE, Some a, sz), st') \<and> app st' = app st \<and> sent st' = sent st"
proof -
  let ?st0 = "st\<lparr>sv_reply_window := (sv_reply_window st)(clt \<mapsto> window clt st)\<rparr>"
  have d: "distinct (map rt_xid (window clt st))" using assms(1) by (simp add: win_inv_def xids_def)
  obtain e where e: "e \<in> set (window clt st)" "rt_xid e = x" "rt_cb_present e" "rt_buf e = Some a" "rt_sz e = sz"
    using assms(2) by (auto simp: recorded_def)
  have "rt_xid r = rt_xid r'"
    if "r \<in> set (window clt st)" "r' \<in> set (window clt st)" "rt_buf r = Some b" "rt_buf r' = Some b" for r r' b
    using that assms(1) unfolding win_inv_def owns_def by blast
  moreover have "heap ?st0 b \<noteq> None" if "r \<in> set (window clt st)" "rt_xid r \<le> k" "rt_buf r = Some b" for r b
    using assms(4) that unfolding acked_live_def by fastforce
  ultimately have "\<exists>v. free_acked k (window clt st) ?st0 = Some v" by (intro free_acked_total [OF d]) blast+
  then obtain rs st1 where "free_acked k (window clt st) ?st0 = Some (rs, st1)" by auto
  then have "checkduplicate_and_update clt x k st \<noteq> None"
    by (simp add: checkduplicate_and_update_def Let_def split: option.splits)
  then obtain stat bs st' where c: "checkduplicate_and_update clt x k st = Some ((stat, bs), st')" by auto
  from c show ?thesis
  proof (cases rule: checkduplicate_cases)
    case fresh
    then show ?thesis using e(1,2) by (auto simp: xids_def)
  next
    case (seen r)
    have "r \<in> set (window clt st)" "rt_xid r = x" using seen(1) by (auto simp: find_Some_iff)
    then have "r = e" using d e(1,2) by (metis distinct_map inj_onD)
    then show ?thesis using seen(3,4,6) e c assms(3) by auto
  qed
qed

lemma dispatch_check_done:
  assumes "win_inv st" and "recorded clt x a buf sz st" and "acked_live clt (rq_xid_rep h) st" and "rq_xid_rep h < x"
    and "unpack_req_header (unmarshall_of b) = (h, req)" and "u_ok req" and "rq_clt_nonce h = clt" and "rq_xid h = x"
    and "clt \<noteq> 0" and "rq_srv_nonce h = 0 \<or> rq_srv_nonce h = sv_nonce st" and "sv_procs st (rq_proc h) = Some f"
    and "\<And>c'. sv_conns st clt = Some c' \<Longrightarrow> c' \<noteq> c \<Longrightarrow> 0 < refno st c'"
  shows "\<exists>st'. dispatch_check c b st = Some (Inr (h, req, f, DONE, Some a, sz), st') \<and> app st' = app st \<and> sent st' = sent st"
proof -
  let ?st1 = "st\<lparr>sv_reply_window := (sv_reply_window st)(clt \<mapsto> window clt st)\<rparr>"
  obtain st2 where sc: "save_conn clt c ?st1 = Some st2"
    using save_conn_total [of ?st1 clt c] assms(12) by auto
  note st2 = conjunct1 [OF save_conn_frame [OF sc]]
  have f2: "sent st2 = sent st" "app st2 = app st" "heap st2 = heap st" "window c' st2 = window c' st" "heap_next st2 = heap_next st" for c'
    by (subst st2, simp add: window_def)+
  have "trims 0 0 st st2" by (rule trims_same) (simp_all add: f2)
  then have "win_inv st2" using trims_inv assms(1) by blast
  moreover have "recorded clt x a buf sz st2" using assms(2) by (simp add: recorded_def f2)
  moreover have "acked_live clt (rq_xid_rep h) st2" using assms(3) unfolding acked_live_def f2 .
  ultimately have "win_inv st2" "recorded clt x a buf sz st2" "acked_live clt (rq_xid_rep h) st2" by blast+
  from checkduplicate_done [OF this(1,2) assms(4) this(3)] show ?thesis
    using dispatch_check_known [OF assms(5,6) _ assms(10,11), of c st2] sc assms(7-9) f2(1,2) by auto
qed


text \<open>A request that arrives twice: the server after the first dispatch, and what the second one finds.\<close>

lemma demo_twice:
  "case dispatch 1 (demo_req 7 6) demo_rpcs of
     Some (Some NEW, st1) \<Rightarrow>
       xids 5 st1 = [7] \<and> sv_conns st1 5 = Some 1 \<and> 0 < refno st1 1 \<and> sv_nonce st1 = 9 \<and> app st1 = 1 \<and>
       \<not> Option.is_none (sv_procs st1 0x7001) \<and> map fst (sent st1) = [1] \<and>
       (case dispatch_check 2 (demo_req 7 6) st1 of Some (Inr _, st3) \<Rightarrow> 0 < refno st3 2 | _ \<Rightarrow> False)
   | _ \<Rightarrow> False"
  by code_simp


text \<open>
  C16. The verdict on a request: it is new exactly when its xid is not in the client's window, and then
  the xid enters the window; a request seen before is forgotten when the client acknowledged it,
  done when its reply is recorded (the caller gets that reply's buffer) and in progress otherwise, and
  the window keeps its content.
\<close>

theorem checkduplicate_verdict:
  assumes "checkduplicate_and_update clt xid xid_rep st = Some ((stat, b, sz), st')"
  shows "case find (\<lambda>r. rt_xid r = xid) (window clt st) of
           None \<Rightarrow> stat = NEW \<and> xids clt st' = xids clt st @ [xid]
         | Some r \<Rightarrow>
             stat = (if xid \<le> xid_rep then FORGOTTEN else if rt_cb_present r then DONE else INPROGRESS) \<and>
             (stat = DONE \<longrightarrow> b = rt_buf r \<and> sz = rt_sz r) \<and> window clt st' = window clt st"
  using assms
proof (cases rule: checkduplicate_cases)
  case fresh
  have "find (\<lambda>r. rt_xid r = xid) (window clt st) = None"
    using fresh(1) by (auto simp: xids_def find_None_iff)
  then show ?thesis using fresh(2,3) by simp
qed (auto simp: not_le split: if_splits)

theorem checkduplicate_verdict_witness:
  "let st' = demo_rpcs\<lparr>sv_reply_window := [5 \<mapsto> [reply_new 7]]\<rparr>
   in checkduplicate_and_update 5 7 6 demo_rpcs = Some ((NEW, None, 0), st') \<and> xids 5 st' = [7] \<and>
      checkduplicate_and_update 5 7 6 st' = Some ((INPROGRESS, None, 0), st')"
proof -
  have e: "checkduplicate_and_update 5 7 6 demo_rpcs =
      Some ((NEW, None, 0), demo_rpcs\<lparr>sv_reply_window := [5 \<mapsto> [reply_new 7]]\<rparr>)"
    and "checkduplicate_and_update 5 7 6 (demo_rpcs\<lparr>sv_reply_window := [5 \<mapsto> [reply_new 7]]\<rparr>) =
      Some ((INPROGRESS, None, 0), demo_rpcs\<lparr>sv_reply_window := [5 \<mapsto> [reply_new 7]]\<rparr>)"
    by (simp_all add: checkduplicate_and_update_def window_def demo_rpcs_def reply_new_def Let_def)
  then show ?thesis using checkduplicate_verdict [OF e] by (simp add: Let_def window_def demo_rpcs_def xids_def)
qed

text \<open>
  C24. The window is updated in a copy that is thrown away when the request is a duplicate, while the
  buffers it acknowledges are freed: a client that gave up on request 3 (so that requests 4 and 5
  acknowledge it), whose request 4 arrives twice and whose request 5 follows, makes the server free
  the reply of request 3 a second time.
\<close>

theorem acked_reply_double_free:
  assumes "window clt st = []"
  shows "do { (_, s1) \<leftarrow> checkduplicate_and_update clt 3 2 st;
              (_, s2) \<leftarrow> checkduplicate_and_update clt 4 3 s1;
              let (a3, s3) = alloc buf3 s2;
              s4 \<leftarrow> add_reply clt 3 a3 (length buf3) s3;
              let (a4, s5) = alloc buf4 s4;
              s6 \<leftarrow> add_reply clt 4 a4 (length buf4) s5;
              (v, s7) \<leftarrow> checkduplicate_and_update clt 4 3 s6;
              Some (fst v, checkduplicate_and_update clt 5 3 s7) } = Some (DONE, None)"
  using assms
  by (simp add: checkduplicate_and_update_def add_reply_def alloc_def Let_def reply_new_def free_def)

theorem acked_reply_double_free_witness:
  "do { (_, s1) \<leftarrow> checkduplicate_and_update 5 3 2 demo_rpcs;
        (_, s2) \<leftarrow> checkduplicate_and_update 5 4 3 s1;
        let (a3, s3) = alloc [Some CHR ''x''] s2;
        s4 \<leftarrow> add_reply 5 3 a3 1 s3;
        let (a4, s5) = alloc [Some CHR ''y''] s4;
        s6 \<leftarrow> add_reply 5 4 a4 1 s5;
        (v, s7) \<leftarrow> checkduplicate_and_update 5 4 3 s6;
        Some (fst v, checkduplicate_and_update 5 5 3 s7) } = Some (DONE, None)"
  using acked_reply_double_free [of 5 demo_rpcs "[Some CHR ''x'']" "[Some CHR ''y'']"]
  by (simp add: window_def demo_rpcs_def)

text \<open>
  C25. A dispatch that ends early gives back the job's reference to its connection, except when the
  request was meant for an earlier incarnation of the server: there the reference is leaked.
\<close>

theorem early_return_references:
  assumes "dispatch_check c b st = Some (Inl u, st')" and "unpack_req_header (unmarshall_of b) = (h, req)"
  shows "refno st' = (if u_ok req \<and> rq_srv_nonce h \<noteq> 0 \<and> rq_srv_nonce h \<noteq> sv_nonce st
                      then refno st else (refno st)(c := refno st c - 1))"
  using assms
  by (auto simp: dispatch_check_def Let_def bind_eq_Some_conv decref_def split: if_splits option.splits)

theorem early_return_references_witness:
  "\<exists>st'. dispatch_check 1 (demo_req 7 6) (demo_rpcs\<lparr>sv_nonce := 8\<rparr>) = Some (Inl (), st') \<and>
     refno st' = refno demo_rpcs"
proof -
  obtain u where u: "unpack_req_header (unmarshall_of (demo_req 7 6)) =
    (\<lparr>rq_xid = 7, rq_proc = 0x7001, rq_clt_nonce = 5, rq_srv_nonce = 9, rq_xid_rep = 6\<rparr>, u)" "u_ok u"
    by (rule demo_unpack)
  let ?st = "demo_rpcs\<lparr>sv_nonce := 8\<rparr>"
  obtain st' where d: "dispatch_check 1 (demo_req 7 6) ?st = Some (Inl (), st')"
    using u by (simp add: dispatch_check_def Let_def)
  show ?thesis
    using d early_return_references [OF d u(1)] u(2) by simp
qed

end
