(* ===== verification/Lock_Server.thy ===== *)
theory Lock_Server
  imports Prelude
begin

text \<open>
  The lock protocol (\<^verbatim>\<open>lock_protocol.h\<close>) and the plain lock server of \<^verbatim>\<open>lock_server.h\<close> and
  \<^verbatim>\<open>lock_server.cc\<close>. Each handler runs under \<^verbatim>\<open>lock_mutex\<close>, so a handler is one step up to the point
  where it waits on a condition variable: a thread inside \<^verbatim>\<open>pthread_cond_wait\<close> is a waiter, and every
  waiter may wake at any time (wake-ups may be spurious) and looks at the lock again.
\<close>

section \<open>Protocol\<close>

type_synonym lockid_t = u64

abbreviation (input) lock_OK :: int where "lock_OK \<equiv> 0"
abbreviation (input) lock_RETRY :: int where "lock_RETRY \<equiv> 1"
abbreviation (input) lock_RPCERR :: int where "lock_RPCERR \<equiv> 2"
abbreviation (input) lock_NOENT :: int where "lock_NOENT \<equiv> 3"
abbreviation (input) lock_IOERR :: int where "lock_IOERR \<equiv> 4"
abbreviation (input) rlock_OK :: int where "rlock_OK \<equiv> 0"
abbreviation (input) rlock_RPCERR :: int where "rlock_RPCERR \<equiv> 1"

section \<open>Server state and handlers\<close>

datatype lock_state = FREE | LOCKED

record lock_server =
  nacquire :: int
  locks :: "lockid_t \<rightharpoonup> lock_state"
  waiters :: "(int \<times> lockid_t) list"

definition lock_server_new :: lock_server where
  "lock_server_new = \<lparr>nacquire = 0, locks = Map.empty, waiters = []\<rparr>"

definition stat :: "lock_server \<Rightarrow> int \<times> int" where
  "stat st = (lock_OK, nacquire st)"

text \<open>
  The loop of \<^verbatim>\<open>acquire\<close>: \<^const>\<open>None\<close> when the thread waits, otherwise the status and \<^verbatim>\<open>r\<close> it returns.
\<close>

definition acquire_loop :: "int \<Rightarrow> lockid_t \<Rightarrow> lock_server \<Rightarrow> (int \<times> int) option \<times> lock_server" where
  "acquire_loop clt lid st =
     (if locks st lid = Some LOCKED then (None, st\<lparr>waiters := waiters st @ [(clt, lid)]\<rparr>)
      else (Some (lock_OK, nacquire st + 1),
            st\<lparr>locks := (locks st)(lid \<mapsto> LOCKED), nacquire := nacquire st + 1\<rparr>))"

definition acquire :: "int \<Rightarrow> lockid_t \<Rightarrow> lock_server \<Rightarrow> (int \<times> int) option \<times> lock_server" where
  "acquire clt lid st =
     acquire_loop clt lid (if locks st lid = None then st\<lparr>locks := (locks st)(lid \<mapsto> FREE)\<rparr> else st)"

definition release :: "int \<Rightarrow> lockid_t \<Rightarrow> lock_server \<Rightarrow> (int \<times> int option) \<times> lock_server" where
  "release clt lid st =
     (if locks st lid = None \<or> locks st lid = Some FREE then ((lock_NOENT, None), st)
      else ((lock_OK, Some (nacquire st - 1)),
            st\<lparr>locks := (locks st)(lid \<mapsto> FREE), nacquire := nacquire st - 1\<rparr>))"

section \<open>Runs\<close>

datatype ls_event = Acquire int lockid_t | Wake int lockid_t | Release int lockid_t

text \<open>
  One step, with what it tells the client: the lock and \<open>True\<close> for a grant, the lock and \<open>False\<close> for a
  release that succeeded.
\<close>

definition granted :: "lockid_t \<Rightarrow> (int \<times> int) option \<Rightarrow> (lockid_t \<times> bool) list" where
  "granted lid r = (case r of None \<Rightarrow> [] | Some _ \<Rightarrow> [(lid, True)])"

fun ls_exec :: "ls_event \<Rightarrow> lock_server \<Rightarrow> (lockid_t \<times> bool) list \<times> lock_server" where
  "ls_exec (Acquire clt lid) st = (let (r, st') = acquire clt lid st in (granted lid r, st'))"
| "ls_exec (Wake clt lid) st =
     (if (clt, lid) \<in> set (waiters st)
      then let (r, st') = acquire_loop clt lid (st\<lparr>waiters := remove1 (clt, lid) (waiters st)\<rparr>)
           in (granted lid r, st')
      else ([], st))"
| "ls_exec (Release clt lid) st =
     (let ((s, r), st') = release clt lid st in (if s = lock_OK then [(lid, False)] else [], st'))"

fun ls_run :: "ls_event list \<Rightarrow> lock_server \<Rightarrow> (lockid_t \<times> bool) list \<times> lock_server" where
  "ls_run [] st = ([], st)"
| "ls_run (e # es) st =
     (let (o1, st1) = ls_exec e st; (o2, st2) = ls_run es st1 in (o1 @ o2, st2))"

section \<open>Exclusion\<close>

text \<open>\<open>alternates b os\<close>: starting from a lock that is held iff \<open>b\<close>, grants and releases alternate.\<close>

fun alternates :: "bool \<Rightarrow> bool list \<Rightarrow> bool" where
  "alternates b [] = True"
| "alternates b (x # xs) = (x \<noteq> b \<and> alternates x xs)"

abbreviation of_lock :: "lockid_t \<Rightarrow> (lockid_t \<times> bool) list \<Rightarrow> bool list" where
  "of_lock lid os \<equiv> map snd (filter (\<lambda>p. fst p = lid) os)"

lemma ls_exec_cases:
  assumes "ls_exec e st = (os, st')"
  obtains (silent) "os = []" "\<And>l. (locks st' l = Some LOCKED) = (locks st l = Some LOCKED)" "nacquire st' = nacquire st"
  | (grant) lid where "os = [(lid, True)]" "locks st lid \<noteq> Some LOCKED"
      "\<And>l. (locks st' l = Some LOCKED) = (l = lid \<or> locks st l = Some LOCKED)" "nacquire st' = nacquire st + 1"
  | (free) lid where "os = [(lid, False)]" "locks st lid = Some LOCKED"
      "\<And>l. (locks st' l = Some LOCKED) = (l \<noteq> lid \<and> locks st l = Some LOCKED)" "nacquire st' = nacquire st - 1"
proof (cases e)
  case (Acquire clt lid)
  show ?thesis
  proof (cases "locks st lid = Some LOCKED")
    case True
    have "os = []" "st' = st\<lparr>waiters := waiters st @ [(clt, lid)]\<rparr>"
      using assms Acquire True by (simp_all add: acquire_def acquire_loop_def granted_def)
    then show ?thesis by (intro silent) simp_all
  next
    case False
    have "os = [(lid, True)]" "st' = st\<lparr>locks := (locks st)(lid \<mapsto> LOCKED), nacquire := nacquire st + 1\<rparr>"
      using assms Acquire False by (simp_all add: acquire_def acquire_loop_def granted_def split: if_split_asm)
    then show ?thesis using False by (intro grant [of lid]) auto
  qed
next
  case (Wake clt lid)
  let ?w = "(clt, lid) \<in> set (waiters st)"
  consider "\<not> ?w" | "?w" "locks st lid = Some LOCKED" | "?w" "locks st lid \<noteq> Some LOCKED" by blast
  then show ?thesis
  proof cases
    case 1
    then have "os = []" "st' = st" using assms Wake by simp_all
    then show ?thesis by (intro silent) simp_all
  next
    case 2
    have "os = []" "st' = st\<lparr>waiters := remove1 (clt, lid) (waiters st) @ [(clt, lid)]\<rparr>"
      using assms Wake 2 by (simp_all add: acquire_loop_def granted_def)
    then show ?thesis by (intro silent) simp_all
  next
    case 3
    have "os = [(lid, True)]" "st' = st\<lparr>waiters := remove1 (clt, lid) (waiters st),
        locks := (locks st)(lid \<mapsto> LOCKED), nacquire := nacquire st + 1\<rparr>"
      using assms Wake 3 by (simp_all add: acquire_loop_def granted_def)
    then show ?thesis using 3 by (intro grant [of lid]) auto
  qed
next
  case (Release clt lid)
  show ?thesis
  proof (cases "locks st lid = Some LOCKED")
    case True
    have "os = [(lid, False)]" "st' = st\<lparr>locks := (locks st)(lid \<mapsto> FREE), nacquire := nacquire st - 1\<rparr>"
      using assms Release True by (simp_all add: release_def)
    then show ?thesis using True by (intro free [of lid]) auto
  next
    case False
    then have "locks st lid = None \<or> locks st lid = Some FREE"
      by (cases "locks st lid") (auto intro: lock_state.exhaust)
    then have "os = []" "st' = st" using assms Release by (simp_all add: release_def)
    then show ?thesis by (intro silent) simp_all
  qed
qed

text \<open>
  C15. The plain lock server grants a lock only when it is free: for every sequence of acquires,
  releases and wake-ups of waiting threads, the grants and the successful releases of each lock
  alternate, starting with a grant, and the lock is held exactly when the last one was a grant.
\<close>

theorem lock_server_exclusive:
  "alternates (locks st lid = Some LOCKED) (of_lock lid (fst (ls_run es st))) \<and>
   (locks (snd (ls_run es st)) lid = Some LOCKED) =
     last ((locks st lid = Some LOCKED) # of_lock lid (fst (ls_run es st)))"
proof (induction es arbitrary: st)
  case (Cons e es)
  obtain o1 st1 where e: "ls_exec e st = (o1, st1)" by fastforce
  obtain o2 st2 where r: "ls_run es st1 = (o2, st2)" by fastforce
  note IH = Cons.IH [of st1, unfolded r fst_conv snd_conv]
  have os: "fst (ls_run (e # es) st) = o1 @ o2" "snd (ls_run (e # es) st) = st2"
    by (simp_all add: e r)
  from e show ?case
  proof (cases rule: ls_exec_cases)
    case silent
    show ?thesis unfolding os using IH silent(1,2) by simp
  next
    case (grant l)
    show ?thesis unfolding os using IH grant(1,2) grant(3) [of lid] by (cases "l = lid") simp_all
  next
    case (free l)
    show ?thesis unfolding os using IH free(1,2) free(3) [of lid] by (cases "l = lid") simp_all
  qed
qed simp

lemma nacquire_step:
  assumes "ls_exec e st = (os, st')" and "finite {l. locks st l = Some LOCKED}"
    and "nacquire st = int (card {l. locks st l = Some LOCKED})"
  shows "finite {l. locks st' l = Some LOCKED} \<and> nacquire st' = int (card {l. locks st' l = Some LOCKED})"
  using assms(1)
proof (cases rule: ls_exec_cases)
  case silent
  then show ?thesis using assms by simp
next
  case (grant lid)
  have "{l. locks st' l = Some LOCKED} = insert lid {l. locks st l = Some LOCKED}"
    using grant(3) by auto
  then show ?thesis using grant assms by simp
next
  case (free lid)
  have "{l. locks st' l = Some LOCKED} = {l. locks st l = Some LOCKED} - {lid}"
    using free(3) by auto
  moreover have "card {l. locks st l = Some LOCKED} > 0"
    using free(2) assms(2) by (auto simp: card_gt_0_iff)
  ultimately show ?thesis using free assms by (simp add: card_Diff_singleton_if)
qed

text \<open>
  C26. What \<^verbatim>\<open>stat\<close> reports after any run of a fresh server is the number of locks that are held, so
  it is never negative.
\<close>

theorem stat_counts_held:
  "stat (snd (ls_run es lock_server_new)) =
     (lock_OK, int (card {l. locks (snd (ls_run es lock_server_new)) l = Some LOCKED}))"
proof -
  have "finite {l. locks (snd (ls_run es st)) l = Some LOCKED} \<and>
      nacquire (snd (ls_run es st)) = int (card {l. locks (snd (ls_run es st)) l = Some LOCKED})"
    if "finite {l. locks st l = Some LOCKED}" "nacquire st = int (card {l. locks st l = Some LOCKED})" for st
    using that
  proof (induction es arbitrary: st)
    case (Cons e es)
    obtain o1 st1 where e: "ls_exec e st = (o1, st1)" by fastforce
    show ?case
      using Cons.IH [OF conjunct1 [OF nacquire_step [OF e Cons.prems]] conjunct2 [OF nacquire_step [OF e Cons.prems]]]
      by (simp add: e split_beta)
  qed simp
  from this [of lock_server_new] show ?thesis by (simp add: stat_def lock_server_new_def)
qed

end
