(* ===== verification/Lock_Server_Cache.thy ===== *)
theory Lock_Server_Cache
  imports Lock_Server
begin

text \<open>
  The caching lock server of \<^verbatim>\<open>lock_server_cache.h\<close> and \<^verbatim>\<open>lock_server_cache.cc\<close>: the handlers
  \<^verbatim>\<open>acquire\<close> and \<^verbatim>\<open>release\<close>, and the critical sections of the two threads that send the revoke and retry
  calls. Both threads walk a \<^verbatim>\<open>std::list\<close> with an iterator while other threads append to it; only
  the thread itself erases, at its iterator, so the iterator is a position in the list.
\<close>

section \<open>State\<close>

datatype sc_state = SC_FREE | SC_ACQUIRED

record sc_lock_info =
  clt_id :: string
  seq_num :: int
  sc_lstate :: sc_state
  waiting_clients :: "string list"
  retryer_sent_to :: string

definition sc_lock_info_new :: sc_lock_info where
  "sc_lock_info_new = \<lparr>clt_id = '''', seq_num = 0, sc_lstate = SC_FREE, waiting_clients = [],
     retryer_sent_to = ''''\<rparr>"

record lock_server_cache =
  sc_locks :: "lockid_t \<rightharpoonup> sc_lock_info"
  revokes :: "(lockid_t \<times> string) list"
  free_locks :: "lockid_t list"
  client_connections :: "string list"

definition lock_server_cache_new :: lock_server_cache where
  "lock_server_cache_new = \<lparr>sc_locks = Map.empty, revokes = [], free_locks = [], client_connections = []\<rparr>"

text \<open>\<^verbatim>\<open>locks[lid]\<close>: a missing entry is created by the default constructor.\<close>

definition sc_info :: "lockid_t \<Rightarrow> lock_server_cache \<Rightarrow> sc_lock_info" where
  "sc_info lid st = (case sc_locks st lid of None \<Rightarrow> sc_lock_info_new | Some li \<Rightarrow> li)"

definition sc_set_info :: "lockid_t \<Rightarrow> sc_lock_info \<Rightarrow> lock_server_cache \<Rightarrow> lock_server_cache" where
  "sc_set_info lid li st = st\<lparr>sc_locks := (sc_locks st)(lid \<mapsto> li)\<rparr>"

section \<open>Handlers\<close>

definition sc_acquire ::
  "string \<Rightarrow> int \<Rightarrow> lockid_t \<Rightarrow> lock_server_cache \<Rightarrow> int \<times> lock_server_cache" where
  "sc_acquire clt seq lid st =
     (let li = sc_info lid st in
      if sc_lstate li = SC_FREE \<and>
         (retryer_sent_to li = '''' \<and> waiting_clients li = [] \<or> retryer_sent_to li = clt)
      then (lock_OK, sc_set_info lid (li\<lparr>clt_id := clt, sc_lstate := SC_ACQUIRED, seq_num := seq,
                                         retryer_sent_to := ''''\<rparr>) st)
      else let st1 = sc_set_info lid (li\<lparr>waiting_clients := push_if_absent clt (waiting_clients li)\<rparr>) st
           in (lock_RETRY,
               if sc_lstate li = SC_ACQUIRED
               then st1\<lparr>revokes := push_if_absent (lid, clt_id li) (revokes st1)\<rparr> else st1))"

definition sc_release ::
  "string \<Rightarrow> int \<Rightarrow> lockid_t \<Rightarrow> lock_server_cache \<Rightarrow> int \<times> lock_server_cache" where
  "sc_release clt seq lid st =
     (let li = sc_info lid st in
      if clt_id li \<noteq> clt \<and> retryer_sent_to li \<noteq> clt then (lock_RPCERR, sc_set_info lid li st)
      else let st1 = sc_set_info lid (li\<lparr>sc_lstate := SC_FREE, clt_id := '''', retryer_sent_to := ''''\<rparr>) st
           in (lock_OK, st1\<lparr>free_locks := free_locks st1 @ [lid]\<rparr>))"

definition sc_stat :: "lock_server_cache \<Rightarrow> int" where
  "sc_stat st = lock_OK"

section \<open>The revoker and the retryer\<close>

definition connect :: "string \<Rightarrow> lock_server_cache \<Rightarrow> lock_server_cache" where
  "connect clt st = st\<lparr>client_connections := push_if_absent clt (client_connections st)\<rparr>"

text \<open>
  The revoker at position \<open>i\<close>: the call it makes without holding the mutex (\<^const>\<open>None\<close> at the end of a
  pass), and what it does with the result.
\<close>

definition revoker_call :: "nat \<Rightarrow> lock_server_cache \<Rightarrow> ((lockid_t \<times> string) \<times> lock_server_cache) option" where
  "revoker_call i st =
     (if i < length (revokes st) then Some (revokes st ! i, connect (snd (revokes st ! i)) st) else None)"

definition revoker_return :: "nat \<Rightarrow> int \<Rightarrow> lock_server_cache \<Rightarrow> nat \<times> lock_server_cache" where
  "revoker_return i ret st =
     (if ret = lock_OK then (i, st\<lparr>revokes := erase i (revokes st)\<rparr>) else (Suc i, st))"

text \<open>
  The retryer at position \<open>i\<close>: either it moves on (\<open>Inl\<close>), or it picks the first waiting client of the
  lock and calls it (\<open>Inr\<close>).
\<close>

definition retryer_pick ::
  "nat \<Rightarrow> lock_server_cache \<Rightarrow> ((nat + (lockid_t \<times> string)) \<times> lock_server_cache) option" where
  "retryer_pick i st =
     (if i < length (free_locks st)
      then let lid = free_locks st ! i; li = sc_info lid st in
           if waiting_clients li \<noteq> [] \<and> retryer_sent_to li = ''''
           then let clt = hd (waiting_clients li) in
                Some (Inr (lid, clt),
                      connect clt (sc_set_info lid (li\<lparr>waiting_clients := tl (waiting_clients li),
                                                       retryer_sent_to := clt\<rparr>) st))
           else Some (Inl (Suc i), sc_set_info lid li st)
      else None)"

definition retryer_return :: "nat \<Rightarrow> lockid_t \<Rightarrow> string \<Rightarrow> int \<Rightarrow> lock_server_cache \<Rightarrow> nat \<times> lock_server_cache" where
  "retryer_return i lid clt ret st =
     (let st1 = (if waiting_clients (sc_info lid st) \<noteq> []
                 then st\<lparr>revokes := push_if_absent (lid, clt) (revokes st)\<rparr> else st)
      in if ret = rlock_OK then (i, st1\<lparr>free_locks := erase i (free_locks st1)\<rparr>) else (Suc i, st1))"

section \<open>Ownership\<close>

definition owner :: "lockid_t \<Rightarrow> lock_server_cache \<Rightarrow> string option" where
  "owner lid st =
     (if sc_lstate (sc_info lid st) = SC_ACQUIRED then Some (clt_id (sc_info lid st)) else None)"

lemma sc_info_set [simp]:
  "sc_info l (sc_set_info lid li st) = (if l = lid then li else sc_info l st)"
  by (simp add: sc_info_def sc_set_info_def)

lemma sc_info_frames [simp]:
  "sc_info l (st\<lparr>revokes := r\<rparr>) = sc_info l st"
  "sc_info l (st\<lparr>free_locks := f\<rparr>) = sc_info l st"
  "sc_info l (connect c st) = sc_info l st"
  by (simp_all add: sc_info_def connect_def)

lemma owner_acquire:
  "owner l (snd (sc_acquire clt seq lid st)) =
     (if l = lid \<and> fst (sc_acquire clt seq lid st) = lock_OK then Some clt else owner l st)"
  by (simp add: sc_acquire_def owner_def Let_def)

lemma owner_acquire_granted:
  "fst (sc_acquire clt seq lid st) = lock_OK \<Longrightarrow> owner lid st = None"
  by (auto simp: sc_acquire_def owner_def Let_def split: if_splits)

lemma owner_release:
  "owner l (snd (sc_release clt seq lid st)) =
     (if l = lid \<and> fst (sc_release clt seq lid st) = lock_OK then None else owner l st)"
  by (simp add: sc_release_def owner_def Let_def)

lemma sc_release_owner:
  "owner lid st = Some clt \<Longrightarrow> fst (sc_release clt seq lid st) = lock_OK"
  by (auto simp: sc_release_def owner_def Let_def split: if_splits)

lemma owner_threads:
  "revoker_call i st = Some (c, st') \<Longrightarrow> owner l st' = owner l st"
  "owner l (snd (revoker_return i ret st)) = owner l st"
  "retryer_pick i st = Some (p, st') \<Longrightarrow> owner l st' = owner l st"
  "owner l (snd (retryer_return i lid clt ret st)) = owner l st"
  by (auto simp: revoker_call_def revoker_return_def retryer_pick_def retryer_return_def owner_def Let_def
      split: if_splits)

section \<open>The server with its two threads\<close>

record sc_server =
  sc :: lock_server_cache
  rv_pos :: nat
  rv_call :: "(lockid_t \<times> string) option"
  rt_pos :: nat
  rt_call :: "(lockid_t \<times> string) option"

datatype sc_event =
    SC_Acquire string int lockid_t
  | SC_Release string int lockid_t
  | Revoker_Step
  | Revoker_Return int
  | Retryer_Step
  | Retryer_Return int

datatype sc_output = Quiet | Reply int | Send_Revoke lockid_t string | Send_Retry lockid_t string

text \<open>\<^const>\<open>None\<close> marks an event that cannot happen: a return without a call, a step during a call.\<close>

fun sc_exec :: "sc_event \<Rightarrow> sc_server \<Rightarrow> (sc_output \<times> sc_server) option" where
  "sc_exec (SC_Acquire clt seq lid) s =
     (let (r, st) = sc_acquire clt seq lid (sc s) in Some (Reply r, s\<lparr>sc := st\<rparr>))"
| "sc_exec (SC_Release clt seq lid) s =
     (let (r, st) = sc_release clt seq lid (sc s) in Some (Reply r, s\<lparr>sc := st\<rparr>))"
| "sc_exec Revoker_Step s =
     (if rv_call s \<noteq> None then None
      else case revoker_call (rv_pos s) (sc s) of
        None \<Rightarrow> Some (Quiet, s\<lparr>rv_pos := 0\<rparr>)
      | Some ((lid, clt), st) \<Rightarrow> Some (Send_Revoke lid clt, s\<lparr>sc := st, rv_call := Some (lid, clt)\<rparr>))"
| "sc_exec (Revoker_Return ret) s =
     (case rv_call s of None \<Rightarrow> None
      | Some c \<Rightarrow> let (i, st) = revoker_return (rv_pos s) ret (sc s)
                  in Some (Quiet, s\<lparr>sc := st, rv_pos := i, rv_call := None\<rparr>))"
| "sc_exec Retryer_Step s =
     (if rt_call s \<noteq> None then None
      else case retryer_pick (rt_pos s) (sc s) of
        None \<Rightarrow> Some (Quiet, s\<lparr>rt_pos := 0\<rparr>)
      | Some (Inl i, st) \<Rightarrow> Some (Quiet, s\<lparr>sc := st, rt_pos := i\<rparr>)
      | Some (Inr (lid, clt), st) \<Rightarrow> Some (Send_Retry lid clt, s\<lparr>sc := st, rt_call := Some (lid, clt)\<rparr>))"
| "sc_exec (Retryer_Return ret) s =
     (case rt_call s of None \<Rightarrow> None
      | Some (lid, clt) \<Rightarrow> let (i, st) = retryer_return (rt_pos s) lid clt ret (sc s)
                  in Some (Quiet, s\<lparr>sc := st, rt_pos := i, rt_call := None\<rparr>))"

definition sc_server_new :: sc_server where
  "sc_server_new = \<lparr>sc = lock_server_cache_new, rv_pos = 0, rv_call = None, rt_pos = 0, rt_call = None\<rparr>"

fun sc_run :: "sc_event list \<Rightarrow> sc_server \<Rightarrow> sc_server option" where
  "sc_run [] s = Some s"
| "sc_run (e # es) s = (case sc_exec e s of None \<Rightarrow> None | Some (_, s') \<Rightarrow> sc_run es s')"

section \<open>The thread invariant\<close>

text \<open>
  The entries that the retryer will look at, whatever its current call returns.
\<close>

definition listed :: "sc_server \<Rightarrow> lockid_t list" where
  "listed s = (if rt_call s = None then free_locks (sc s) else erase (rt_pos s) (free_locks (sc s)))"

definition uninvited :: "sc_lock_info \<Rightarrow> bool" where
  "uninvited li \<longleftrightarrow> sc_lstate li = SC_FREE \<and> waiting_clients li \<noteq> [] \<and> retryer_sent_to li = ''''"

definition sc_inv :: "sc_server \<Rightarrow> bool" where
  "sc_inv s \<longleftrightarrow>
     (\<forall>l. distinct (waiting_clients (sc_info l (sc s))) \<and> '''' \<notin> set (waiting_clients (sc_info l (sc s)))) \<and>
     (\<forall>c. rv_call s = Some c \<longrightarrow> rv_pos s < length (revokes (sc s)) \<and> revokes (sc s) ! rv_pos s = c) \<and>
     (\<forall>c. rt_call s = Some c \<longrightarrow> rt_pos s < length (free_locks (sc s)) \<and> free_locks (sc s) ! rt_pos s = fst c) \<and>
     (\<forall>l. uninvited (sc_info l (sc s)) \<longrightarrow> l \<in> set (listed s))"

fun named_client :: "sc_event \<Rightarrow> bool" where
  "named_client (SC_Acquire clt seq lid) = (clt \<noteq> '''')"
| "named_client _ = True"

lemma sc_set_info_frames [simp]:
  "revokes (sc_set_info lid li st) = revokes st"
  "free_locks (sc_set_info lid li st) = free_locks st"
  "revokes (connect c st) = revokes st"
  "free_locks (connect c st) = free_locks st"
  by (simp_all add: sc_set_info_def connect_def)

text \<open>A handler changes one lock and appends to the two lists.\<close>

lemma sc_inv_update:
  assumes "sc_inv s" and "\<And>l. l \<noteq> lid \<Longrightarrow> sc_info l st' = sc_info l (sc s)"
    and "distinct (waiting_clients (sc_info lid st'))" and "'''' \<notin> set (waiting_clients (sc_info lid st'))"
    and "revokes st' = revokes (sc s) @ rs" and "free_locks st' = free_locks (sc s) @ fs"
    and "uninvited (sc_info lid st') \<Longrightarrow> lid \<in> set fs \<or> lid \<in> set (listed s)"
  shows "sc_inv (s\<lparr>sc := st'\<rparr>)"
proof -
  have rt: "rt_pos s < length (free_locks (sc s))" if "rt_call s \<noteq> None"
    using assms(1) that by (auto simp: sc_inv_def)
  have "set (listed (s\<lparr>sc := st'\<rparr>)) = set fs \<union> set (listed s)"
    using rt assms(6) by (auto simp: listed_def erase_def)
  then have "l \<in> set (listed (s\<lparr>sc := st'\<rparr>))" if "uninvited (sc_info l st')" for l
    using assms(1,2,7) that by (cases "l = lid") (auto simp: sc_inv_def)
  moreover have "distinct (waiting_clients (sc_info l st')) \<and> '''' \<notin> set (waiting_clients (sc_info l st'))" for l
    using assms(1-4) by (cases "l = lid") (auto simp: sc_inv_def)
  moreover have "rv_pos s < length (revokes st') \<and> revokes st' ! rv_pos s = c" if "rv_call s = Some c" for c
    using assms(1,5) that by (simp add: sc_inv_def nth_append)
  moreover have "rt_pos s < length (free_locks st') \<and> free_locks st' ! rt_pos s = fst c" if "rt_call s = Some c" for c
    using assms(1,6) that by (simp add: sc_inv_def nth_append)
  ultimately show ?thesis by (simp add: sc_inv_def)
qed

lemma sc_inv_listed: "sc_inv s \<Longrightarrow> uninvited (sc_info l (sc s)) \<Longrightarrow> l \<in> set (listed s)"
  by (simp add: sc_inv_def)

lemma sc_inv_waiting:
  "sc_inv s \<Longrightarrow> distinct (waiting_clients (sc_info l (sc s))) \<and> '''' \<notin> set (waiting_clients (sc_info l (sc s)))"
  by (simp add: sc_inv_def)

lemma sc_acquire_inv:
  assumes "sc_inv s" and "clt \<noteq> ''''"
  shows "sc_inv (s\<lparr>sc := snd (sc_acquire clt seq lid (sc s))\<rparr>)"
proof -
  let ?li = "sc_info lid (sc s)" and ?st = "snd (sc_acquire clt seq lid (sc s))"
  have "\<exists>rs. revokes ?st = revokes (sc s) @ rs"
    using push_if_absent_append [of "(lid, clt_id ?li)" "revokes (sc s)"]
    by (simp add: sc_acquire_def Let_def)
  then obtain rs where rs: "revokes ?st = revokes (sc s) @ rs" ..
  have fs: "free_locks ?st = free_locks (sc s) @ []" and o: "\<And>l. l \<noteq> lid \<Longrightarrow> sc_info l ?st = sc_info l (sc s)"
    by (simp_all add: sc_acquire_def Let_def)
  have d: "distinct (waiting_clients (sc_info lid ?st))" "'''' \<notin> set (waiting_clients (sc_info lid ?st))"
    using sc_inv_waiting [OF assms(1), of lid] assms(2) by (auto simp: sc_acquire_def Let_def)
  have "lid \<in> set [] \<or> lid \<in> set (listed s)" if "uninvited (sc_info lid ?st)"
    using that sc_inv_listed [OF assms(1), of lid] assms(2)
    by (auto simp: sc_acquire_def Let_def uninvited_def split: if_splits)
  then show ?thesis by (intro sc_inv_update [OF assms(1) o d rs fs])
qed

lemma sc_release_inv:
  assumes "sc_inv s"
  shows "sc_inv (s\<lparr>sc := snd (sc_release clt seq lid (sc s))\<rparr>)"
proof -
  let ?st = "snd (sc_release clt seq lid (sc s))"
  define fs where "fs = (if fst (sc_release clt seq lid (sc s)) = lock_OK then [lid] else [])"
  have fs: "free_locks ?st = free_locks (sc s) @ fs" and o: "\<And>l. l \<noteq> lid \<Longrightarrow> sc_info l ?st = sc_info l (sc s)"
    and rs: "revokes ?st = revokes (sc s) @ []"
    by (simp_all add: sc_release_def Let_def fs_def)
  have d: "distinct (waiting_clients (sc_info lid ?st))" "'''' \<notin> set (waiting_clients (sc_info lid ?st))"
    using sc_inv_waiting [OF assms(1), of lid] by (auto simp: sc_release_def Let_def)
  have "lid \<in> set fs \<or> lid \<in> set (listed s)" if "uninvited (sc_info lid ?st)"
    using that sc_inv_listed [OF assms(1), of lid] by (auto simp: sc_release_def Let_def fs_def split: if_splits)
  then show ?thesis by (intro sc_inv_update [OF assms(1) o d rs fs])
qed

text \<open>The revoker touches only its own call, its position and the list of revokes.\<close>

lemma sc_inv_revoker:
  assumes "sc_inv s" and "\<And>l. sc_info l st' = sc_info l (sc s)" and "free_locks st' = free_locks (sc s)"
    and "\<And>c. call = Some c \<Longrightarrow> i < length (revokes st') \<and> revokes st' ! i = c"
  shows "sc_inv (s\<lparr>sc := st', rv_pos := i, rv_call := call\<rparr>)"
proof -
  have "listed (s\<lparr>sc := st', rv_pos := i, rv_call := call\<rparr>) = listed s"
    using assms(3) by (simp add: listed_def)
  then show ?thesis using assms by (simp add: sc_inv_def)
qed

lemma revoker_step_inv:
  assumes "sc_inv s" and "sc_exec Revoker_Step s = Some (out, s')"
  shows "sc_inv s'"
proof (cases "rv_pos s < length (revokes (sc s))")
  case True
  obtain lid clt where c: "revokes (sc s) ! rv_pos s = (lid, clt)" by fastforce
  have s': "s' = s\<lparr>sc := connect clt (sc s), rv_pos := rv_pos s, rv_call := Some (lid, clt)\<rparr>"
    using assms(2) True c by (simp add: revoker_call_def split: if_splits)
  show ?thesis unfolding s' by (rule sc_inv_revoker [OF assms(1)]) (use True c in auto)
next
  case False
  have n: "rv_call s = None" by (rule ccontr) (use assms(2) in simp)
  have s': "s' = s\<lparr>sc := sc s, rv_pos := 0, rv_call := None\<rparr>"
    using assms(2) False n by (cases s) (auto simp: revoker_call_def)
  show ?thesis unfolding s' by (rule sc_inv_revoker [OF assms(1)]) auto
qed

lemma revoker_return_inv:
  assumes "sc_inv s" and "sc_exec (Revoker_Return ret) s = Some (out, s')"
  shows "sc_inv s'"
proof -
  obtain i st where r: "revoker_return (rv_pos s) ret (sc s) = (i, st)" by fastforce
  have s': "s' = s\<lparr>sc := st, rv_pos := i, rv_call := None\<rparr>"
    using assms(2) r by (auto split: option.splits)
  have "\<And>l. sc_info l st = sc_info l (sc s)" "free_locks st = free_locks (sc s)"
    using r by (auto simp: revoker_return_def split: if_splits)
  then show ?thesis unfolding s' by (rule sc_inv_revoker [OF assms(1)]) auto
qed

lemma retryer_step_inv:
  assumes "sc_inv s" and "sc_exec Retryer_Step s = Some (out, s')"
  shows "sc_inv s'"
proof -
  have n: "rt_call s = None" by (rule ccontr) (use assms(2) in simp)
  show ?thesis
  proof (cases "retryer_pick (rt_pos s) (sc s)")
    case None
    then have "s' = s\<lparr>rt_pos := 0\<rparr>" using assms(2) n by simp
    then show ?thesis using assms(1) n by (simp add: sc_inv_def listed_def)
  next
    case (Some p)
    let ?lid = "free_locks (sc s) ! rt_pos s"
    let ?li = "sc_info ?lid (sc s)"
    have i: "rt_pos s < length (free_locks (sc s))"
      using Some by (auto simp: retryer_pick_def split: if_splits)
    show ?thesis
    proof (cases "waiting_clients ?li \<noteq> [] \<and> retryer_sent_to ?li = ''''")
      case False
      have "retryer_pick (rt_pos s) (sc s) = Some (Inl (Suc (rt_pos s)), sc_set_info ?lid ?li (sc s))"
        unfolding retryer_pick_def Let_def using i by (simp only: if_True if_False False)
      then have "s' = s\<lparr>sc := sc_set_info ?lid ?li (sc s), rt_pos := Suc (rt_pos s)\<rparr>"
        using assms(2) n by simp
      then show ?thesis using assms(1) n by (simp add: sc_inv_def listed_def)
    next
      case True
      define clt where "clt = hd (waiting_clients ?li)"
      have c: "clt \<in> set (waiting_clients ?li)" using True by (simp add: clt_def)
      then have ne: "clt \<noteq> ''''" using sc_inv_waiting [OF assms(1), of ?lid] by auto
      have s': "s' = s\<lparr>sc := connect clt (sc_set_info ?lid (?li\<lparr>waiting_clients := tl (waiting_clients ?li),
          retryer_sent_to := clt\<rparr>) (sc s)), rt_call := Some (?lid, clt)\<rparr>"
        using assms(2) n i True by (simp add: retryer_pick_def Let_def clt_def)
      have t: "distinct (tl (waiting_clients ?li)) \<and> '''' \<notin> set (tl (waiting_clients ?li))"
        using sc_inv_waiting [OF assms(1), of ?lid] by (meson distinct_tl list.set_sel(2) True)
      have "l \<in> set (listed s')" if "uninvited (sc_info l (sc s'))" for l
      proof (cases "l = ?lid")
        case True
        then show ?thesis using that ne by (simp add: s' uninvited_def)
      next
        case False
        then have "l \<in> set (free_locks (sc s))"
          using sc_inv_listed [OF assms(1), of l] that n by (simp add: s' listed_def)
        then show ?thesis using erase_nth_other [OF i _ False] by (simp add: s' listed_def)
      qed
      moreover have "distinct (waiting_clients (sc_info l (sc s'))) \<and> '''' \<notin> set (waiting_clients (sc_info l (sc s')))" for l
        using t sc_inv_waiting [OF assms(1), of l] by (simp add: s')
      ultimately show ?thesis using assms(1) i by (simp add: sc_inv_def s')
    qed
  qed
qed

lemma retryer_return_inv:
  assumes "sc_inv s" and "sc_exec (Retryer_Return ret) s = Some (out, s')"
  shows "sc_inv s'"
proof -
  obtain lid clt where c: "rt_call s = Some (lid, clt)" using assms(2) by (auto split: option.splits)
  obtain i st where r: "retryer_return (rt_pos s) lid clt ret (sc s) = (i, st)" by fastforce
  have s': "s' = s\<lparr>sc := st, rt_pos := i, rt_call := None\<rparr>"
    using assms(2) c r by simp
  have info: "\<And>l. sc_info l st = sc_info l (sc s)"
    and sub: "set (listed s) \<subseteq> set (free_locks st)"
    using r c set_erase_subset [of "rt_pos s" "free_locks (sc s)"]
    by (auto simp: retryer_return_def Let_def listed_def split: if_splits)
  have "\<exists>rs. revokes st = revokes (sc s) @ rs"
    using r push_if_absent_append [of "(lid, clt)" "revokes (sc s)"]
    by (auto simp: retryer_return_def Let_def split: if_splits)
  then have rv: "rv_pos s < length (revokes st) \<and> revokes st ! rv_pos s = c" if "rv_call s = Some c" for c
    using assms(1) that by (auto simp: sc_inv_def nth_append)
  have "l \<in> set (listed s')" if "uninvited (sc_info l (sc s))" for l
    using sc_inv_listed [OF assms(1) that] sub by (auto simp: s' listed_def)
  then show ?thesis
    using sc_inv_waiting [OF assms(1)] rv by (simp add: sc_inv_def info s')
qed

lemma sc_exec_inv:
  assumes "sc_inv s" and "named_client e" and "sc_exec e s = Some (out, s')"
  shows "sc_inv s'"
proof (cases e)
  case (SC_Acquire clt seq lid)
  then have "s' = s\<lparr>sc := snd (sc_acquire clt seq lid (sc s))\<rparr>"
    using assms(3) by (simp add: split_beta)
  then show ?thesis using sc_acquire_inv [OF assms(1)] assms(2) SC_Acquire by simp
next
  case (SC_Release clt seq lid)
  then have "s' = s\<lparr>sc := snd (sc_release clt seq lid (sc s))\<rparr>"
    using assms(3) by (simp add: split_beta)
  then show ?thesis using sc_release_inv [OF assms(1)] by simp
qed (use assms in \<open>blast intro: revoker_step_inv revoker_return_inv retryer_step_inv retryer_return_inv\<close>)+

lemma sc_run_inv:
  "sc_inv s \<Longrightarrow> \<forall>e\<in>set es. named_client e \<Longrightarrow> sc_run es s = Some s' \<Longrightarrow> sc_inv s'"
proof (induction es arbitrary: s)
  case (Cons e es)
  obtain out s1 where e: "sc_exec e s = Some (out, s1)" using Cons.prems(3) by (auto split: option.splits)
  have "sc_inv s1" by (rule sc_exec_inv [OF Cons.prems(1) _ e]) (use Cons.prems(2) in simp)
  then show ?case using Cons e by simp
qed simp

lemma sc_inv_new: "sc_inv sc_server_new"
  by (simp add: sc_inv_def sc_server_new_def lock_server_cache_new_def sc_info_def sc_lock_info_new_def
      listed_def uninvited_def)

text \<open>
  C14. No lost wake-up on the server: whatever the clients request and however the calls of the revoker
  and the retryer turn out, a lock that is free, has waiting clients and has invited none of them is
  on the list the retryer works through.
\<close>

theorem waiting_client_listed:
  assumes "sc_run es sc_server_new = Some s" and "\<forall>e\<in>set es. named_client e"
    and "sc_lstate (sc_info lid (sc s)) = SC_FREE" and "waiting_clients (sc_info lid (sc s)) \<noteq> []"
    and "retryer_sent_to (sc_info lid (sc s)) = ''''"
  shows "lid \<in> set (free_locks (sc s)) \<and> distinct (waiting_clients (sc_info lid (sc s)))"
proof -
  have inv: "sc_inv s" using sc_run_inv [OF sc_inv_new assms(2,1)] .
  have "lid \<in> set (listed s)"
    using sc_inv_listed [OF inv] assms(3-5) by (simp add: uninvited_def)
  then have "lid \<in> set (free_locks (sc s))"
    using set_erase_subset [of "rt_pos s" "free_locks (sc s)"] by (auto simp: listed_def split: if_splits)
  then show ?thesis using sc_inv_waiting [OF inv] by blast
qed

theorem waiting_client_listed_witness:
  "\<exists>s. sc_run [SC_Acquire ''a'' 0 7, SC_Acquire ''b'' 0 7, SC_Release ''a'' 1 7] sc_server_new = Some s \<and>
     waiting_clients (sc_info 7 (sc s)) = [''b''] \<and> 7 \<in> set (free_locks (sc s))"
proof -
  let ?es = "[SC_Acquire ''a'' 0 7, SC_Acquire ''b'' 0 7, SC_Release ''a'' 1 7]"
  obtain s where s: "sc_run ?es sc_server_new = Some s" "waiting_clients (sc_info 7 (sc s)) = [''b'']"
    "sc_lstate (sc_info 7 (sc s)) = SC_FREE" "retryer_sent_to (sc_info 7 (sc s)) = ''''"
    by (simp add: sc_acquire_def sc_release_def sc_server_new_def lock_server_cache_new_def Let_def
        push_if_absent_def sc_info_def sc_lock_info_new_def sc_set_info_def del: sc_info_set)
  then show ?thesis using waiting_client_listed [OF s(1), of 7] by simp
qed

end
