(* ===== verification/Lock_Client_Cache.thy ===== *)
theory Lock_Client_Cache
  imports Lock_Server
begin

text \<open>
  The caching lock client of \<^verbatim>\<open>lock_client_cache.h\<close> and \<^verbatim>\<open>lock_client_cache.cc\<close>: the state of each
  cached lock, the critical sections of \<^verbatim>\<open>acquire\<close>, \<^verbatim>\<open>release\<close> and the releaser thread, and the handlers
  \<^verbatim>\<open>revoke\<close> and \<^verbatim>\<open>retry\<close>. A thread that waits on \<^verbatim>\<open>li.cond\<close> goes round its loop again when it wakes.
\<close>

section \<open>State\<close>

datatype cc_state = CC_NONE | CC_FREE | CC_LOCKED | CC_ACQUIRING | CC_RELEASING

type_synonym tid = nat

record cc_lock_info =
  cc_lstate :: cc_state
  sequence_number :: int
  waiting_threads :: "tid list"
  to_be_revoked :: bool
  retry_received :: bool

definition cc_lock_info_new :: cc_lock_info where
  "cc_lock_info_new = \<lparr>cc_lstate = CC_NONE, sequence_number = 0, waiting_threads = [],
     to_be_revoked = False, retry_received = False\<rparr>"

record lock_client_cache =
  lock_cache :: "lockid_t \<rightharpoonup> cc_lock_info"
  revoke_queue :: "lockid_t list"

definition lock_client_cache_new :: lock_client_cache where
  "lock_client_cache_new = \<lparr>lock_cache = Map.empty, revoke_queue = []\<rparr>"

text \<open>\<^verbatim>\<open>lock_cache[lid]\<close>: a missing entry is created by the default constructor.\<close>

definition cc_info :: "lockid_t \<Rightarrow> lock_client_cache \<Rightarrow> cc_lock_info" where
  "cc_info lid st = (case lock_cache st lid of None \<Rightarrow> cc_lock_info_new | Some li \<Rightarrow> li)"

definition cc_set_info :: "lockid_t \<Rightarrow> cc_lock_info \<Rightarrow> lock_client_cache \<Rightarrow> lock_client_cache" where
  "cc_set_info lid li st = st\<lparr>lock_cache := (lock_cache st)(lid \<mapsto> li)\<rparr>"

text \<open>The port of a client and its identity, from the value \<^verbatim>\<open>rand()\<close> returned.\<close>

definition rlock_port :: "nat \<Rightarrow> u32" where
  "rlock_port r = of_nat (r mod 32000) OR 0x400"

section \<open>Acquire and release\<close>

text \<open>
  Entering \<^verbatim>\<open>acquire\<close>, up to its loop; one round of the loop, which sleeps, calls the server with a
  sequence number or takes the lock; and what follows the server's answer. The calling thread is in
  the list of waiting threads all the time, so \<^verbatim>\<open>front()\<close> is never applied to an empty list; the code
  increments the sequence number just after it leaves the critical section.
\<close>

definition add_pthread_to_waiting_threads :: "tid \<Rightarrow> cc_lock_info \<Rightarrow> cc_lock_info" where
  "add_pthread_to_waiting_threads t li = li\<lparr>waiting_threads := push_if_absent t (waiting_threads li)\<rparr>"

definition remove_pthread_from_waiting_threads :: "tid \<Rightarrow> cc_lock_info \<Rightarrow> cc_lock_info" where
  "remove_pthread_from_waiting_threads t li = li\<lparr>waiting_threads := removeAll t (waiting_threads li)\<rparr>"

definition cc_acquire_enter :: "tid \<Rightarrow> lockid_t \<Rightarrow> lock_client_cache \<Rightarrow> lock_client_cache" where
  "cc_acquire_enter t lid st =
     cc_set_info lid (add_pthread_to_waiting_threads t (cc_info lid st)) st"

datatype cc_round = Sleep | Call_Acquire int | Got

definition cc_acquire_round :: "tid \<Rightarrow> lockid_t \<Rightarrow> lock_client_cache \<Rightarrow> cc_round \<times> lock_client_cache" where
  "cc_acquire_round t lid st =
     (let li = cc_info lid st in
      if to_be_revoked li then (Sleep, st)
      else if waiting_threads li = [] \<or> hd (waiting_threads li) \<noteq> t then (Sleep, st)
      else if cc_lstate li \<noteq> CC_NONE \<and> cc_lstate li \<noteq> CC_FREE then (Sleep, st)
      else if cc_lstate li = CC_NONE
      then (Call_Acquire (sequence_number li),
            cc_set_info lid (li\<lparr>cc_lstate := CC_ACQUIRING, retry_received := False,
                               sequence_number := sequence_number li + 1\<rparr>) st)
      else (Got, cc_set_info lid (li\<lparr>cc_lstate := CC_LOCKED, waiting_threads := tl (waiting_threads li)\<rparr>) st))"

text \<open>After the call: the thread returns with the lock, waits for a retry, or goes round again.\<close>

datatype cc_next = Return | Await_Retry | Again

definition cc_acquire_reply :: "int \<Rightarrow> lockid_t \<Rightarrow> lock_client_cache \<Rightarrow> cc_next \<times> lock_client_cache" where
  "cc_acquire_reply ret lid st =
     (let li = cc_info lid st in
      if ret = lock_OK
      then (Return, cc_set_info lid (li\<lparr>cc_lstate := CC_LOCKED, waiting_threads := tl (waiting_threads li)\<rparr>) st)
      else if ret = lock_RETRY then (Await_Retry, cc_set_info lid (li\<lparr>cc_lstate := CC_NONE\<rparr>) st)
      else (Again, st))"

definition cc_release :: "tid \<Rightarrow> lockid_t \<Rightarrow> lock_client_cache \<Rightarrow> int \<times> lock_client_cache" where
  "cc_release t lid st =
     (lock_OK, cc_set_info lid
        (remove_pthread_from_waiting_threads t ((cc_info lid st)\<lparr>cc_lstate := CC_FREE\<rparr>)) st)"

section \<open>The releaser and the handlers\<close>

text \<open>
  The releaser at position \<open>i\<close> of the revoke queue: the end of a pass, a lock to leave alone (\<open>Inl\<close>), or
  a release call with its sequence number (\<open>Inr\<close>); and what it does with the answer. The user's
  \<^verbatim>\<open>dorelease\<close> runs before the call.
\<close>

definition releaser_pick ::
  "nat \<Rightarrow> lock_client_cache \<Rightarrow> ((nat + (lockid_t \<times> int)) \<times> lock_client_cache) option" where
  "releaser_pick i st =
     (if i < length (revoke_queue st)
      then let lid = revoke_queue st ! i; li = cc_info lid st in
           if cc_lstate li \<noteq> CC_LOCKED
           then Some (Inr (lid, sequence_number li),
                      cc_set_info lid (li\<lparr>cc_lstate := CC_RELEASING, sequence_number := sequence_number li + 1\<rparr>) st)
           else Some (Inl (Suc i), cc_set_info lid li st)
      else None)"

definition releaser_return :: "nat \<Rightarrow> lockid_t \<Rightarrow> int \<Rightarrow> lock_client_cache \<Rightarrow> nat \<times> lock_client_cache" where
  "releaser_return i lid ret st =
     (if ret = lock_OK
      then (i, (cc_set_info lid ((cc_info lid st)\<lparr>to_be_revoked := False, cc_lstate := CC_NONE\<rparr>) st)
                 \<lparr>revoke_queue := erase i (revoke_queue st)\<rparr>)
      else (Suc i, st))"

definition cc_revoke :: "lockid_t \<Rightarrow> lock_client_cache \<Rightarrow> int \<times> lock_client_cache" where
  "cc_revoke lid st =
     (rlock_OK, (cc_set_info lid ((cc_info lid st)\<lparr>to_be_revoked := True\<rparr>) st)
                  \<lparr>revoke_queue := push_if_absent lid (revoke_queue st)\<rparr>)"

definition cc_retry :: "lockid_t \<Rightarrow> lock_client_cache \<Rightarrow> int \<times> lock_client_cache" where
  "cc_retry lid st =
     (case lock_cache st lid of
        None \<Rightarrow> (rlock_RPCERR, st)
      | Some li \<Rightarrow> (rlock_OK, cc_set_info lid (li\<lparr>retry_received := True\<rparr>) st))"

fun get_state :: "int \<Rightarrow> string" where
  "get_state n = (if n = 0 then ''NONE'' else if n = 1 then ''FREE'' else if n = 2 then ''LOCKED''
     else if n = 3 then ''ACQUIRING'' else if n = 4 then ''RELEASING'' else ''UNKNOWN'')"

lemma cc_info_set [simp]:
  "cc_info l (cc_set_info lid li st) = (if l = lid then li else cc_info l st)"
  "cc_info l (st\<lparr>revoke_queue := q\<rparr>) = cc_info l st"
  by (simp_all add: cc_info_def cc_set_info_def)

text \<open>The state of a lock after each critical section.\<close>

abbreviation lock_at :: "lockid_t \<Rightarrow> lock_client_cache \<Rightarrow> cc_state" where
  "lock_at lid st \<equiv> cc_lstate (cc_info lid st)"

lemma lock_at_enter [simp]: "lock_at l (cc_acquire_enter t lid st) = lock_at l st"
  by (simp add: cc_acquire_enter_def add_pthread_to_waiting_threads_def)

lemma lock_at_release [simp]: "lock_at l (snd (cc_release t lid st)) = (if l = lid then CC_FREE else lock_at l st)"
  by (simp add: cc_release_def remove_pthread_from_waiting_threads_def)

lemma lock_at_revoke [simp]: "lock_at l (snd (cc_revoke lid st)) = lock_at l st"
  by (simp add: cc_revoke_def)

lemma lock_at_retry [simp]: "lock_at l (snd (cc_retry lid st)) = lock_at l st"
  by (cases "lock_cache st lid") (auto simp: cc_retry_def cc_info_def cc_set_info_def)

lemma lock_at_reply:
  "lock_at l (snd (cc_acquire_reply ret lid st)) =
     (if l = lid \<and> ret = lock_OK then CC_LOCKED else if l = lid \<and> ret = lock_RETRY then CC_NONE else lock_at l st)"
  by (simp add: cc_acquire_reply_def Let_def)

lemma cc_acquire_round_cases:
  assumes "cc_acquire_round t lid st = (r, st')"
  obtains (sleep) "r = Sleep" "st' = st"
  | (call) n where "r = Call_Acquire n" "lock_at lid st = CC_NONE" "lock_at lid st' = CC_ACQUIRING"
      "\<And>l. l \<noteq> lid \<Longrightarrow> lock_at l st' = lock_at l st"
  | (got) "r = Got" "lock_at lid st = CC_FREE" "lock_at lid st' = CC_LOCKED"
      "\<And>l. l \<noteq> lid \<Longrightarrow> lock_at l st' = lock_at l st"
proof -
  let ?li = "cc_info lid st"
  let ?blocked = "to_be_revoked ?li \<or> waiting_threads ?li = [] \<or> hd (waiting_threads ?li) \<noteq> t \<or>
    cc_lstate ?li \<noteq> CC_NONE \<and> cc_lstate ?li \<noteq> CC_FREE"
  consider ?blocked | "\<not> ?blocked" "cc_lstate ?li = CC_NONE" | "\<not> ?blocked" "cc_lstate ?li = CC_FREE"
    by blast
  then show ?thesis
  proof cases
    case 1
    then have "cc_acquire_round t lid st = (Sleep, st)"
      unfolding cc_acquire_round_def Let_def by metis
    then show ?thesis using assms sleep by simp
  next
    case 2
    then have "cc_acquire_round t lid st = (Call_Acquire (sequence_number ?li),
            cc_set_info lid (?li\<lparr>cc_lstate := CC_ACQUIRING, retry_received := False,
                               sequence_number := sequence_number ?li + 1\<rparr>) st)"
      by (simp add: cc_acquire_round_def Let_def)
    then show ?thesis using assms 2 by (intro call) auto
  next
    case 3
    then have "cc_acquire_round t lid st =
        (Got, cc_set_info lid (?li\<lparr>cc_lstate := CC_LOCKED, waiting_threads := tl (waiting_threads ?li)\<rparr>) st)"
      by (simp add: cc_acquire_round_def Let_def)
    then show ?thesis using assms 3 by (intro got) auto
  qed
qed

end
