(* ===== verification/Lock_System.thy ===== *)
theory Lock_System
  imports Lock_Server_Cache Lock_Client_Cache "HOL-Library.Monad_Syntax"
begin

text \<open>
  The caching lock server together with its clients. A call is a message to the callee and a reply; the
  RPC layer delivers each call once, messages of different calls overtake each other freely. Threads
  of a client move between the critical sections of \<^verbatim>\<open>acquire\<close>; the program counter of a thread
  for a lock says where it is.
\<close>

section \<open>State and steps\<close>

datatype tpc = Outside | Looping | Calling | Waiting | Holding

datatype msg =
    Acq_Req string tid lockid_t int
  | Acq_Rep string tid lockid_t int
  | Rel_Req string lockid_t int
  | Rel_Rep string lockid_t int
  | Revoke_Req string lockid_t
  | Revoke_Rep int
  | Retry_Req string lockid_t
  | Retry_Rep int

record locksys =
  server :: sc_server
  clients :: "string \<Rightarrow> lock_client_cache"
  rel_pos :: "string \<Rightarrow> nat"
  rel_busy :: "string \<Rightarrow> bool"
  tpcs :: "string \<Rightarrow> tid \<Rightarrow> lockid_t \<Rightarrow> tpc"
  net :: "msg list"

definition locksys_new :: locksys where
  "locksys_new = \<lparr>server = sc_server_new, clients = (\<lambda>_. lock_client_cache_new), rel_pos = (\<lambda>_. 0),
     rel_busy = (\<lambda>_. False), tpcs = (\<lambda>_ _ _. Outside), net = []\<rparr>"

datatype event =
    Begin string tid lockid_t
  | Round string tid lockid_t
  | Acq_Return string tid lockid_t int
  | Resume string tid lockid_t
  | Unlock string tid lockid_t
  | Releaser string
  | Rel_Return string lockid_t int
  | Serve_Acquire string tid lockid_t int
  | Serve_Release string lockid_t int
  | Revoker
  | Serve_Revoke string lockid_t
  | Revoke_Return int
  | Retryer
  | Serve_Retry string lockid_t
  | Retry_Return int

definition set_tpc :: "string \<Rightarrow> tid \<Rightarrow> lockid_t \<Rightarrow> tpc \<Rightarrow> locksys \<Rightarrow> locksys" where
  "set_tpc c t l p s = s\<lparr>tpcs := (tpcs s)(c := (tpcs s c)(t := (tpcs s c t)(l := p)))\<rparr>"

definition set_client :: "string \<Rightarrow> lock_client_cache \<Rightarrow> locksys \<Rightarrow> locksys" where
  "set_client c st s = s\<lparr>clients := (clients s)(c := st)\<rparr>"

definition send_msg :: "msg \<Rightarrow> locksys \<Rightarrow> locksys" where
  "send_msg m s = s\<lparr>net := m # net s\<rparr>"

definition receive :: "msg \<Rightarrow> locksys \<Rightarrow> locksys option" where
  "receive m s = (if m \<in> set (net s) then Some (s\<lparr>net := remove1 m (net s)\<rparr>) else None)"

definition guard :: "bool \<Rightarrow> locksys \<Rightarrow> locksys option" where
  "guard b s = (if b then Some s else None)"

text \<open>One event; \<^const>\<open>None\<close> when the event is not possible.\<close>

fun exec :: "event \<Rightarrow> locksys \<Rightarrow> locksys option" where
  "exec (Begin c t l) s =
     do { s1 \<leftarrow> guard (tpcs s c t l = Outside) s;
          Some (set_tpc c t l Looping (set_client c (cc_acquire_enter t l (clients s1 c)) s1)) }"
| "exec (Round c t l) s =
     do { s1 \<leftarrow> guard (tpcs s c t l = Looping) s;
          let (r, st) = cc_acquire_round t l (clients s1 c);
          Some (case r of
                  Sleep \<Rightarrow> s1
                | Call_Acquire n \<Rightarrow> send_msg (Acq_Req c t l n) (set_tpc c t l Calling (set_client c st s1))
                | Got \<Rightarrow> set_tpc c t l Holding (set_client c st s1)) }"
| "exec (Acq_Return c t l ret) s =
     do { s1 \<leftarrow> receive (Acq_Rep c t l ret) s;
          let (nx, st) = cc_acquire_reply ret l (clients s1 c);
          Some (set_tpc c t l (case nx of Return \<Rightarrow> Holding | Await_Retry \<Rightarrow> Waiting | Again \<Rightarrow> Looping)
                  (set_client c st s1)) }"
| "exec (Resume c t l) s =
     do { s1 \<leftarrow> guard (tpcs s c t l = Waiting \<and> retry_received (cc_info l (clients s c))) s;
          Some (set_tpc c t l Looping s1) }"
| "exec (Unlock c t l) s =
     do { s1 \<leftarrow> guard (tpcs s c t l = Holding) s;
          Some (set_tpc c t l Outside (set_client c (snd (cc_release t l (clients s1 c))) s1)) }"
| "exec (Releaser c) s =
     do { s1 \<leftarrow> guard (\<not> rel_busy s c) s;
          Some (case releaser_pick (rel_pos s1 c) (clients s1 c) of
                  None \<Rightarrow> s1\<lparr>rel_pos := (rel_pos s1)(c := 0)\<rparr>
                | Some (Inl i, st) \<Rightarrow> (set_client c st s1)\<lparr>rel_pos := (rel_pos s1)(c := i)\<rparr>
                | Some (Inr (l, n), st) \<Rightarrow>
                    send_msg (Rel_Req c l n) ((set_client c st s1)\<lparr>rel_busy := (rel_busy s1)(c := True)\<rparr>)) }"
| "exec (Rel_Return c l ret) s =
     do { s1 \<leftarrow> receive (Rel_Rep c l ret) s;
          let (i, st) = releaser_return (rel_pos s1 c) l ret (clients s1 c);
          Some ((set_client c st s1)\<lparr>rel_pos := (rel_pos s1)(c := i), rel_busy := (rel_busy s1)(c := False)\<rparr>) }"
| "exec (Serve_Acquire c t l n) s =
     do { s1 \<leftarrow> receive (Acq_Req c t l n) s;
          let (r, st) = sc_acquire c n l (sc (server s1));
          Some (send_msg (Acq_Rep c t l r) (s1\<lparr>server := (server s1)\<lparr>sc := st\<rparr>\<rparr>)) }"
| "exec (Serve_Release c l n) s =
     do { s1 \<leftarrow> receive (Rel_Req c l n) s;
          let (r, st) = sc_release c n l (sc (server s1));
          Some (send_msg (Rel_Rep c l r) (s1\<lparr>server := (server s1)\<lparr>sc := st\<rparr>\<rparr>)) }"
| "exec Revoker s =
     do { (out, sv) \<leftarrow> sc_exec Revoker_Step (server s);
          Some (case out of Send_Revoke l c \<Rightarrow> send_msg (Revoke_Req c l) (s\<lparr>server := sv\<rparr>)
                | _ \<Rightarrow> s\<lparr>server := sv\<rparr>) }"
| "exec (Serve_Revoke c l) s =
     do { s1 \<leftarrow> receive (Revoke_Req c l) s;
          let (r, st) = cc_revoke l (clients s1 c);
          Some (send_msg (Revoke_Rep r) (set_client c st s1)) }"
| "exec (Revoke_Return ret) s =
     do { s1 \<leftarrow> receive (Revoke_Rep ret) s;
          (out, sv) \<leftarrow> sc_exec (Revoker_Return ret) (server s1);
          Some (s1\<lparr>server := sv\<rparr>) }"
| "exec Retryer s =
     do { (out, sv) \<leftarrow> sc_exec Retryer_Step (server s);
          Some (case out of Send_Retry l c \<Rightarrow> send_msg (Retry_Req c l) (s\<lparr>server := sv\<rparr>)
                | _ \<Rightarrow> s\<lparr>server := sv\<rparr>) }"
| "exec (Serve_Retry c l) s =
     do { s1 \<leftarrow> receive (Retry_Req c l) s;
          let (r, st) = cc_retry l (clients s1 c);
          Some (send_msg (Retry_Rep r) (set_client c st s1)) }"
| "exec (Retry_Return ret) s =
     do { s1 \<leftarrow> receive (Retry_Rep ret) s;
          (out, sv) \<leftarrow> sc_exec (Retryer_Return ret) (server s1);
          Some (s1\<lparr>server := sv\<rparr>) }"

fun run :: "event list \<Rightarrow> locksys \<Rightarrow> locksys option" where
  "run [] s = Some s"
| "run (e # es) s = do { s1 \<leftarrow> exec e s; run es s1 }"

section \<open>Runs in which the releaser leaves locks alone that it does not own\<close>

text \<open>
  The releaser acts on the lock at its position when that lock is not \<^const>\<open>CC_LOCKED\<close>. In a
  \<open>careful\<close> run it finds the lock \<^const>\<open>CC_LOCKED\<close> or \<^const>\<open>CC_FREE\<close> each time.
\<close>

fun careful_event :: "event \<Rightarrow> locksys \<Rightarrow> bool" where
  "careful_event (Releaser c) s =
     (rel_pos s c < length (revoke_queue (clients s c)) \<longrightarrow>
      (let p = lock_at (revoke_queue (clients s c) ! rel_pos s c) (clients s c)
       in p = CC_LOCKED \<or> p = CC_FREE))"
| "careful_event _ s = True"

fun careful :: "event list \<Rightarrow> locksys \<Rightarrow> bool" where
  "careful [] s = True"
| "careful (e # es) s = (careful_event e s \<and> (case exec e s of None \<Rightarrow> True | Some s' \<Rightarrow> careful es s'))"


section \<open>A run that breaks mutual exclusion\<close>

text \<open>
  Client \<open>a\<close> is granted the lock, but before the reply reaches it, client \<open>b\<close> asks for the lock and the
  server revokes it. The releaser of \<open>a\<close> sees \<^const>\<open>CC_ACQUIRING\<close> and gives the lock back; then the
  reply arrives and \<open>a\<close> holds the lock.
\<close>

definition early_revoke :: "event list" where
  "early_revoke =
     [Begin ''a'' 0 7, Round ''a'' 0 7, Serve_Acquire ''a'' 0 7 0,
      Begin ''b'' 0 7, Round ''b'' 0 7, Serve_Acquire ''b'' 0 7 0,
      Revoker, Serve_Revoke ''a'' 7, Releaser ''a'', Serve_Release ''a'' 7 1, Rel_Return ''a'' 7 0,
      Acq_Return ''a'' 0 7 0, Acq_Return ''b'' 0 7 1,
      Retryer, Serve_Retry ''b'' 7, Resume ''b'' 0 7, Round ''b'' 0 7, Serve_Acquire ''b'' 0 7 1,
      Acq_Return ''b'' 0 7 0]"

section \<open>The ownership invariant\<close>

fun is_acq :: "string \<Rightarrow> lockid_t \<Rightarrow> msg \<Rightarrow> bool" where
  "is_acq c l (Acq_Req c' t l' n) = (c' = c \<and> l' = l)"
| "is_acq c l (Acq_Rep c' t l' r) = (c' = c \<and> l' = l)"
| "is_acq c l _ = False"

fun is_rel :: "string \<Rightarrow> lockid_t \<Rightarrow> msg \<Rightarrow> bool" where
  "is_rel c l (Rel_Req c' l' n) = (c' = c \<and> l' = l)"
| "is_rel c l (Rel_Rep c' l' r) = (c' = c \<and> l' = l)"
| "is_rel c l _ = False"

definition holders :: "string \<Rightarrow> lockid_t \<Rightarrow> locksys \<Rightarrow> tid set" where
  "holders c l s = {t. tpcs s c t l = Holding}"

text \<open>
  What a client's state of a lock says about its messages in flight, its threads and the owner \<open>ow\<close>
  that the server has on record.
\<close>

definition pair_ok ::
  "string \<Rightarrow> lockid_t \<Rightarrow> string option \<Rightarrow> cc_state \<Rightarrow> msg list \<Rightarrow> msg list \<Rightarrow> tid set \<Rightarrow> bool" where
  "pair_ok c l ow p acqs rels H =
     (case p of
        CC_NONE \<Rightarrow> acqs = [] \<and> rels = [] \<and> H = {}
      | CC_FREE \<Rightarrow> acqs = [] \<and> rels = [] \<and> H = {} \<and> ow = Some c
      | CC_LOCKED \<Rightarrow> acqs = [] \<and> rels = [] \<and> (\<exists>t. H = {t}) \<and> ow = Some c
      | CC_ACQUIRING \<Rightarrow> rels = [] \<and> H = {} \<and>
          (\<exists>t. (\<exists>n. acqs = [Acq_Req c t l n]) \<or> 
                acqs = [Acq_Rep c t l lock_OK] \<and> ow = Some c \<or> acqs = [Acq_Rep c t l lock_RETRY])
      | CC_RELEASING \<Rightarrow> acqs = [] \<and> H = {} \<and>
          ((\<exists>n. rels = [Rel_Req c l n]) \<and> ow = Some c \<or> rels = [Rel_Rep c l lock_OK]))"

abbreviation pair_at :: "string \<Rightarrow> lockid_t \<Rightarrow> locksys \<Rightarrow> bool" where
  "pair_at c l s \<equiv> pair_ok c l (owner l (sc (server s))) (lock_at l (clients s c))
     (filter (is_acq c l) (net s)) (filter (is_rel c l) (net s)) (holders c l s)"

definition lock_inv :: "locksys \<Rightarrow> bool" where
  "lock_inv s \<longleftrightarrow> (\<forall>c l. pair_at c l s)"

lemma pair_ok_owner: "pair_ok c l ow p as rs H \<Longrightarrow> ow \<noteq> Some c \<Longrightarrow> pair_ok c l ow' p as rs H"
  by (auto simp: pair_ok_def split: cc_state.splits)

text \<open>
  An event that concerns client \<open>c0\<close> and lock \<open>l0\<close> may change the owner of \<open>l0\<close> when it was nobody or \<open>c0\<close>.
\<close>

lemma lock_inv_update:
  assumes "lock_inv s" and "pair_at c0 l0 s'"
    and "\<And>c l. (c, l) \<noteq> (c0, l0) \<Longrightarrow> lock_at l (clients s' c) = lock_at l (clients s c) \<and>
           filter (is_acq c l) (net s') = filter (is_acq c l) (net s) \<and>
           filter (is_rel c l) (net s') = filter (is_rel c l) (net s) \<and> holders c l s' = holders c l s"
    and "\<And>l. l \<noteq> l0 \<Longrightarrow> owner l (sc (server s')) = owner l (sc (server s))"
    and "owner l0 (sc (server s')) = owner l0 (sc (server s)) \<or>
         owner l0 (sc (server s)) = None \<or> owner l0 (sc (server s)) = Some c0"
  shows "lock_inv s'"
  unfolding lock_inv_def
proof (intro allI)
  fix c l
  have old: "pair_at c l s" using assms(1) by (simp add: lock_inv_def)
  show "pair_at c l s'"
  proof (cases "(c, l) = (c0, l0)")
    case True
    then show ?thesis using assms(2) by simp
  next
    case False
    note e = assms(3) [OF False]
    show ?thesis
    proof (cases "owner l (sc (server s')) = owner l (sc (server s))")
      case True
      then show ?thesis using old e by simp
    next
      case other: False
      then have "l = l0" using assms(4) by blast
      then have "owner l (sc (server s)) \<noteq> Some c" using assms(5) other False by auto
      then show ?thesis using pair_ok_owner [OF old] e by simp
    qed
  qed
qed

lemma view_simps [simp]:
  "clients (set_tpc c t l p s) = clients s" "net (set_tpc c t l p s) = net s" "server (set_tpc c t l p s) = server s"
  "clients (set_client c st s) = (clients s)(c := st)" "net (set_client c st s) = net s"
  "server (set_client c st s) = server s" "tpcs (set_client c st s) = tpcs s"
  "clients (send_msg m s) = clients s" "net (send_msg m s) = m # net s" "server (send_msg m s) = server s"
  "tpcs (send_msg m s) = tpcs s"
  "rel_pos (set_client c st s) = rel_pos s" "rel_busy (set_client c st s) = rel_busy s"
  by (simp_all add: set_tpc_def set_client_def send_msg_def)

lemma holders_simps [simp]:
  "holders c l (set_client c' st s) = holders c l s"
  "holders c l (send_msg m s) = holders c l s"
  "holders c l (s\<lparr>net := n\<rparr>) = holders c l s"
  "holders c l (s\<lparr>server := sv\<rparr>) = holders c l s"
  "holders c l (s\<lparr>rel_pos := rp\<rparr>) = holders c l s"
  "holders c l (s\<lparr>rel_busy := rb\<rparr>) = holders c l s"
  "holders c l (set_tpc c' t l' p s) =
     (if c = c' \<and> l = l' then (if p = Holding then insert t (holders c l s) else holders c l s - {t}) else holders c l s)"
  by (auto simp: holders_def set_tpc_def)

lemma receive_SomeD: "receive m s = Some s1 \<Longrightarrow> m \<in> set (net s) \<and> s1 = s\<lparr>net := remove1 m (net s)\<rparr>"
  by (auto simp: receive_def split: if_splits)

lemma guard_SomeD: "guard b s = Some s1 \<Longrightarrow> b \<and> s1 = s"
  by (auto simp: guard_def split: if_splits)

lemma filter_mem:
  assumes "filter P ms = [x]" and "m \<in> set ms" and "P m"
  shows "x = m"
proof -
  have "m \<in> set (filter P ms)" using assms(2,3) by simp
  then show ?thesis using assms(1) by simp
qed

end
