(* ===== verification/Lock_Exclusion.thy ===== *)
theory Lock_Exclusion
  imports Lock_System
begin

text \<open>
  Mutual exclusion of the caching lock service: every event of a careful run keeps the ownership
  invariant of \<^verbatim>\<open>Lock_System\<close>, and a run that is not careful breaks it.
\<close>

section \<open>Every event keeps the invariant\<close>

lemma lock_inv_at: "lock_inv s \<Longrightarrow> pair_at c l s"
  by (simp add: lock_inv_def)

lemma begin_inv:
  assumes "lock_inv s" and "exec (Begin c t l) s = Some s'"
  shows "lock_inv s'"
proof -
  have o: "tpcs s c t l = Outside"
    and s': "s' = set_tpc c t l Looping (set_client c (cc_acquire_enter t l (clients s c)) s)"
    using assms(2) by (auto simp: bind_eq_Some_conv dest: guard_SomeD)
  have "holders c l s - {t} = holders c l s" using o by (auto simp: holders_def)
  then show ?thesis unfolding s'
    using lock_inv_at [OF assms(1), of c l] by (intro lock_inv_update [OF assms(1), of c l]) auto
qed

lemma round_inv:
  assumes "lock_inv s" and "exec (Round c t l) s = Some s'"
  shows "lock_inv s'"
proof -
  obtain r st where r: "cc_acquire_round t l (clients s c) = (r, st)" by fastforce
  have "tpcs s c t l = Looping" using assms(2) by (auto simp: bind_eq_Some_conv dest: guard_SomeD)
  then have h: "holders c l s - {t} = holders c l s" by (auto simp: holders_def)
  have s': "s' = (case r of Sleep \<Rightarrow> s
      | Call_Acquire n \<Rightarrow> send_msg (Acq_Req c t l n) (set_tpc c t l Calling (set_client c st s))
      | Got \<Rightarrow> set_tpc c t l Holding (set_client c st s))"
    using assms(2) r by (auto simp: bind_eq_Some_conv dest: guard_SomeD)
  note p = lock_inv_at [OF assms(1), of c l]
  from r show ?thesis
  proof (cases rule: cc_acquire_round_cases)
    case sleep
    then show ?thesis using s' assms(1) by simp
  next
    case (call n)
    have e: "s' = send_msg (Acq_Req c t l n) (set_tpc c t l Calling (set_client c st s))"
      using s' call by simp
    show ?thesis unfolding e
      using p call h by (intro lock_inv_update [OF assms(1), of c l]) (auto simp: pair_ok_def)
  next
    case got
    have e: "s' = set_tpc c t l Holding (set_client c st s)" using s' got by simp
    show ?thesis unfolding e
      using p got by (intro lock_inv_update [OF assms(1), of c l]) (auto simp: pair_ok_def)
  qed
qed

text \<open>A message of an acquire or a release fixes the state of the client.\<close>

lemma pending_acq:
  assumes "lock_inv s" and "m \<in> set (net s)" and "is_acq c l m"
  shows "lock_at l (clients s c) = CC_ACQUIRING" and "filter (is_acq c l) (net s) = [m]"
    and "filter (is_rel c l) (net s) = []" and "holders c l s = {}"
proof -
  have "filter (is_acq c l) (net s) \<noteq> []" using assms(2,3) by (auto simp: filter_empty_conv)
  then obtain x where x: "lock_at l (clients s c) = CC_ACQUIRING" "filter (is_acq c l) (net s) = [x]"
    "filter (is_rel c l) (net s) = []" "holders c l s = {}"
    using lock_inv_at [OF assms(1), of c l] by (auto simp: pair_ok_def split: cc_state.splits)
  with filter_mem [OF x(2) assms(2,3)] show "lock_at l (clients s c) = CC_ACQUIRING"
    "filter (is_acq c l) (net s) = [m]" "filter (is_rel c l) (net s) = []" "holders c l s = {}"
    by simp_all
qed

lemma pending_rel:
  assumes "lock_inv s" and "m \<in> set (net s)" and "is_rel c l m"
  shows "lock_at l (clients s c) = CC_RELEASING" and "filter (is_rel c l) (net s) = [m]"
    and "filter (is_acq c l) (net s) = []" and "holders c l s = {}"
proof -
  have "filter (is_rel c l) (net s) \<noteq> []" using assms(2,3) by (auto simp: filter_empty_conv)
  then obtain x where x: "lock_at l (clients s c) = CC_RELEASING" "filter (is_rel c l) (net s) = [x]"
    "filter (is_acq c l) (net s) = []" "holders c l s = {}"
    using lock_inv_at [OF assms(1), of c l] by (auto simp: pair_ok_def split: cc_state.splits)
  with filter_mem [OF x(2) assms(2,3)] show "lock_at l (clients s c) = CC_RELEASING"
    "filter (is_rel c l) (net s) = [m]" "filter (is_acq c l) (net s) = []" "holders c l s = {}"
    by simp_all
qed

lemma acq_return_inv:
  assumes "lock_inv s" and "exec (Acq_Return c t l ret) s = Some s'"
  shows "lock_inv s'"
proof -
  let ?m = "Acq_Rep c t l ret"
  obtain nx st where r: "cc_acquire_reply ret l (clients s c) = (nx, st)" by fastforce
  have m: "?m \<in> set (net s)" and s': "s' = set_tpc c t l (case nx of Return \<Rightarrow> Holding | Await_Retry \<Rightarrow> Waiting | Again \<Rightarrow> Looping)
      (set_client c st (s\<lparr>net := remove1 ?m (net s)\<rparr>))"
    using assms(2) r by (auto simp: bind_eq_Some_conv dest!: receive_SomeD)
  have q: "is_acq c l ?m" by simp
  note pend = pending_acq [OF assms(1) m q]
  have ret: "ret = lock_OK \<and> owner l (sc (server s)) = Some c \<or> ret = lock_RETRY"
    using lock_inv_at [OF assms(1), of c l] by (auto simp: pair_ok_def pend)
  have st: "lock_at l st = (if ret = lock_OK then CC_LOCKED else CC_NONE)" "nx = (if ret = lock_OK then Return else Await_Retry)"
    "\<And>l'. l' \<noteq> l \<Longrightarrow> lock_at l' st = lock_at l' (clients s c)"
    using lock_at_reply [of _ ret l "clients s c"] r ret by (auto simp: cc_acquire_reply_def Let_def)
  show ?thesis unfolding s'
    using ret st pend
    by (intro lock_inv_update [OF assms(1), of c l]) (auto simp: pair_ok_def filter_remove1)
qed

lemma resume_inv:
  assumes "lock_inv s" and "exec (Resume c t l) s = Some s'"
  shows "lock_inv s'"
proof -
  have w: "tpcs s c t l = Waiting" and s': "s' = set_tpc c t l Looping s"
    using assms(2) by (auto simp: bind_eq_Some_conv dest: guard_SomeD)
  have "holders c l s - {t} = holders c l s" using w by (auto simp: holders_def)
  then show ?thesis unfolding s'
    using lock_inv_at [OF assms(1), of c l] by (intro lock_inv_update [OF assms(1), of c l]) auto
qed

lemma unlock_inv:
  assumes "lock_inv s" and "exec (Unlock c t l) s = Some s'"
  shows "lock_inv s'"
proof -
  have h: "t \<in> holders c l s" and s': "s' = set_tpc c t l Outside (set_client c (snd (cc_release t l (clients s c))) s)"
    using assms(2) by (auto simp: bind_eq_Some_conv holders_def dest: guard_SomeD)
  have "lock_at l (clients s c) = CC_LOCKED \<and> holders c l s = {t} \<and> filter (is_acq c l) (net s) = [] \<and>
      filter (is_rel c l) (net s) = [] \<and> owner l (sc (server s)) = Some c"
    using lock_inv_at [OF assms(1), of c l] h by (auto simp: pair_ok_def split: cc_state.splits)
  then show ?thesis unfolding s'
    by (intro lock_inv_update [OF assms(1), of c l]) (auto simp: pair_ok_def)
qed

lemma releaser_inv:
  assumes "lock_inv s" and "careful_event (Releaser c) s" and "exec (Releaser c) s = Some s'"
  shows "lock_inv s'"
proof (cases "rel_pos s c < length (revoke_queue (clients s c))")
  case False
  then have "s' = s\<lparr>rel_pos := (rel_pos s)(c := 0)\<rparr>"
    using assms(3) by (auto simp: bind_eq_Some_conv releaser_pick_def dest!: guard_SomeD)
  then show ?thesis using assms(1) by (simp add: lock_inv_def)
next
  case True
  let ?l = "revoke_queue (clients s c) ! rel_pos s c"
  let ?li = "cc_info ?l (clients s c)"
  show ?thesis
  proof (cases "cc_lstate ?li = CC_LOCKED")
    case locked: True
    have s': "s' = (set_client c (cc_set_info ?l ?li (clients s c)) s)\<lparr>rel_pos := (rel_pos s)(c := Suc (rel_pos s c))\<rparr>"
      using assms(3) True locked by (auto simp: bind_eq_Some_conv releaser_pick_def Let_def dest!: guard_SomeD)
    show ?thesis using assms(1) by (simp add: lock_inv_def s')
  next
    case False
    then have free: "cc_lstate ?li = CC_FREE" using assms(2) True by (auto simp: Let_def)
    have s': "s' = send_msg (Rel_Req c ?l (sequence_number ?li)) ((set_client c
        (cc_set_info ?l (?li\<lparr>cc_lstate := CC_RELEASING, sequence_number := sequence_number ?li + 1\<rparr>) (clients s c)) s)
          \<lparr>rel_busy := (rel_busy s)(c := True)\<rparr>)"
      using assms(3) True False by (auto simp: bind_eq_Some_conv releaser_pick_def Let_def dest!: guard_SomeD)
    show ?thesis unfolding s'
      using lock_inv_at [OF assms(1), of c ?l] free
      by (intro lock_inv_update [OF assms(1), of c ?l]) (auto simp: pair_ok_def)
  qed
qed

lemma rel_return_inv:
  assumes "lock_inv s" and "exec (Rel_Return c l ret) s = Some s'"
  shows "lock_inv s'"
proof -
  let ?m = "Rel_Rep c l ret"
  obtain i st where r: "releaser_return (rel_pos s c) l ret (clients s c) = (i, st)" by fastforce
  have m: "?m \<in> set (net s)" and s': "s' = (set_client c st (s\<lparr>net := remove1 ?m (net s)\<rparr>))
      \<lparr>rel_pos := (rel_pos s)(c := i), rel_busy := (rel_busy s)(c := False)\<rparr>"
    using assms(2) r by (auto simp: bind_eq_Some_conv dest!: receive_SomeD)
  have q: "is_rel c l ?m" by simp
  note pend = pending_rel [OF assms(1) m q]
  have ret: "ret = lock_OK"
    using lock_inv_at [OF assms(1), of c l] by (auto simp: pair_ok_def pend)
  have st: "lock_at l st = CC_NONE" "\<And>l'. l' \<noteq> l \<Longrightarrow> lock_at l' st = lock_at l' (clients s c)"
    using r ret by (auto simp: releaser_return_def)
  show ?thesis unfolding s'
    using st pend by (intro lock_inv_update [OF assms(1), of c l]) (auto simp: pair_ok_def filter_remove1)
qed


lemma serve_acquire_inv:
  assumes "lock_inv s" and "exec (Serve_Acquire c t l n) s = Some s'"
  shows "lock_inv s'"
proof -
  let ?m = "Acq_Req c t l n"
  obtain r st where r: "sc_acquire c n l (sc (server s)) = (r, st)" by fastforce
  have m: "?m \<in> set (net s)" and s': "s' = send_msg (Acq_Rep c t l r)
      ((s\<lparr>net := remove1 ?m (net s)\<rparr>)\<lparr>server := (server s)\<lparr>sc := st\<rparr>\<rparr>)"
    using assms(2) r by (auto simp: bind_eq_Some_conv dest!: receive_SomeD)
  have q: "is_acq c l ?m" by simp
  note pend = pending_acq [OF assms(1) m q]
  have ow: "owner l' st = (if l' = l \<and> r = lock_OK then Some c else owner l' (sc (server s)))" for l'
    using owner_acquire [of l' c n l "sc (server s)"] r by simp
  have g: "r = lock_OK \<longrightarrow> owner l (sc (server s)) = None"
    using owner_acquire_granted [of c n l "sc (server s)"] r by simp
  have "r = lock_OK \<or> r = lock_RETRY" using r by (auto simp: sc_acquire_def Let_def split: if_splits)
  then show ?thesis unfolding s'
    using pend g by (intro lock_inv_update [OF assms(1), of c l]) (auto simp: pair_ok_def filter_remove1 ow)
qed

lemma serve_release_inv:
  assumes "lock_inv s" and "exec (Serve_Release c l n) s = Some s'"
  shows "lock_inv s'"
proof -
  let ?m = "Rel_Req c l n"
  obtain r st where r: "sc_release c n l (sc (server s)) = (r, st)" by fastforce
  have m: "?m \<in> set (net s)" and s': "s' = send_msg (Rel_Rep c l r)
      ((s\<lparr>net := remove1 ?m (net s)\<rparr>)\<lparr>server := (server s)\<lparr>sc := st\<rparr>\<rparr>)"
    using assms(2) r by (auto simp: bind_eq_Some_conv dest!: receive_SomeD)
  have q: "is_rel c l ?m" by simp
  note pend = pending_rel [OF assms(1) m q]
  have own: "owner l (sc (server s)) = Some c"
    using lock_inv_at [OF assms(1), of c l] by (auto simp: pair_ok_def pend)
  have ok: "r = lock_OK" using sc_release_owner [OF own, of n] r by simp
  have ow: "owner l' st = (if l' = l then None else owner l' (sc (server s)))" for l'
    using owner_release [of l' c n l "sc (server s)"] r ok by simp
  show ?thesis unfolding s'
    using pend own ok by (intro lock_inv_update [OF assms(1), of c l]) (auto simp: pair_ok_def filter_remove1 ow)
qed

text \<open>The remaining events change neither a client's lock state nor an owner.\<close>

lemma lock_inv_silent:
  assumes "lock_inv s" and "\<And>c l. lock_at l (clients s' c) = lock_at l (clients s c)"
    and "\<And>l. owner l (sc (server s')) = owner l (sc (server s))" and "tpcs s' = tpcs s"
    and "\<And>c l. filter (is_acq c l) (net s') = filter (is_acq c l) (net s)"
    and "\<And>c l. filter (is_rel c l) (net s') = filter (is_rel c l) (net s)"
  shows "lock_inv s'"
  using assms by (simp add: lock_inv_def holders_def)

lemma sc_exec_owner:
  assumes "sc_exec e sv = Some (out, sv')" and "e \<in> {Revoker_Step, Revoker_Return r, Retryer_Step, Retryer_Return r}"
  shows "owner l (sc sv') = owner l (sc sv)"
  using assms
  by (auto simp: split_beta owner_threads(2,4) split: option.splits if_splits sum.splits)
    (erule owner_threads(1) owner_threads(3))+

lemma revoker_inv:
  assumes "lock_inv s" and "exec Revoker s = Some s'"
  shows "lock_inv s'"
proof -
  obtain out sv where e: "sc_exec Revoker_Step (server s) = Some (out, sv)" using assms(2) by (auto simp: bind_eq_Some_conv)
  then show ?thesis
    using assms(2) sc_exec_owner [OF e]
    by (intro lock_inv_silent [OF assms(1)]) (auto split: sc_output.splits)
qed

lemma retryer_inv:
  assumes "lock_inv s" and "exec Retryer s = Some s'"
  shows "lock_inv s'"
proof -
  obtain out sv where e: "sc_exec Retryer_Step (server s) = Some (out, sv)" using assms(2) by (auto simp: bind_eq_Some_conv)
  then show ?thesis
    using assms(2) sc_exec_owner [OF e]
    by (intro lock_inv_silent [OF assms(1)]) (auto split: sc_output.splits)
qed

lemma revoke_return_inv:
  assumes "lock_inv s" and "exec (Revoke_Return ret) s = Some s'"
  shows "lock_inv s'"
proof -
  obtain out sv where "sc_exec (Revoker_Return ret) (server s) = Some (out, sv)"
    and "s' = s\<lparr>net := remove1 (Revoke_Rep ret) (net s), server := sv\<rparr>"
    using assms(2) by (auto simp: bind_eq_Some_conv simp del: sc_exec.simps dest!: receive_SomeD)
  then show ?thesis
    using sc_exec_owner [of "Revoker_Return ret"] by (intro lock_inv_silent [OF assms(1)]) (auto simp: filter_remove1)
qed

lemma retry_return_inv:
  assumes "lock_inv s" and "exec (Retry_Return ret) s = Some s'"
  shows "lock_inv s'"
proof -
  obtain out sv where "sc_exec (Retryer_Return ret) (server s) = Some (out, sv)"
    and "s' = s\<lparr>net := remove1 (Retry_Rep ret) (net s), server := sv\<rparr>"
    using assms(2) by (auto simp: bind_eq_Some_conv simp del: sc_exec.simps dest!: receive_SomeD)
  then show ?thesis
    using sc_exec_owner [of "Retryer_Return ret"] by (intro lock_inv_silent [OF assms(1)]) (auto simp: filter_remove1)
qed

lemma serve_revoke_inv:
  assumes "lock_inv s" and "exec (Serve_Revoke c l) s = Some s'"
  shows "lock_inv s'"
proof -
  have "s' = send_msg (Revoke_Rep rlock_OK) (set_client c (snd (cc_revoke l (clients s c)))
      (s\<lparr>net := remove1 (Revoke_Req c l) (net s)\<rparr>))"
    using assms(2) by (auto simp: bind_eq_Some_conv cc_revoke_def dest!: receive_SomeD)
  then show ?thesis by (intro lock_inv_silent [OF assms(1)]) (auto simp: filter_remove1)
qed

lemma serve_retry_inv:
  assumes "lock_inv s" and "exec (Serve_Retry c l) s = Some s'"
  shows "lock_inv s'"
proof -
  have "s' = send_msg (Retry_Rep (fst (cc_retry l (clients s c)))) (set_client c (snd (cc_retry l (clients s c)))
      (s\<lparr>net := remove1 (Retry_Req c l) (net s)\<rparr>))"
    using assms(2) by (auto simp: bind_eq_Some_conv split_beta dest!: receive_SomeD)
  then show ?thesis by (intro lock_inv_silent [OF assms(1)]) (auto simp: filter_remove1)
qed

lemmas event_invs = begin_inv round_inv acq_return_inv resume_inv unlock_inv releaser_inv rel_return_inv
  serve_acquire_inv serve_release_inv revoker_inv serve_revoke_inv revoke_return_inv retryer_inv
  serve_retry_inv retry_return_inv

lemma exec_inv: "lock_inv s \<Longrightarrow> careful_event e s \<Longrightarrow> exec e s = Some s' \<Longrightarrow> lock_inv s'"
  by (cases e) (blast intro: event_invs)+

lemma run_inv: "lock_inv s \<Longrightarrow> careful es s \<Longrightarrow> run es s = Some s' \<Longrightarrow> lock_inv s'"
proof (induction es arbitrary: s)
  case (Cons e es)
  obtain s1 where e: "exec e s = Some s1" using Cons.prems(3) by (auto simp: bind_eq_Some_conv)
  have "lock_inv s1" by (rule exec_inv [OF Cons.prems(1) _ e]) (use Cons.prems(2) in simp)
  then show ?case by (rule Cons.IH) (use Cons.prems(2,3) e in simp_all)
qed simp

lemma lock_inv_new: "lock_inv locksys_new"
  by (simp add: lock_inv_def locksys_new_def pair_ok_def holders_def cc_info_def lock_client_cache_new_def
      cc_lock_info_new_def)

section \<open>Mutual exclusion\<close>

text \<open>
  C2. Mutual exclusion of the caching lock service: in every run in which the releaser of a client only
  acts on locks its client owns, at most one thread of one client holds a lock at any time, and the
  server has that client on record as the owner.
\<close>

theorem mutual_exclusion:
  assumes "run es locksys_new = Some s" and "careful es locksys_new"
    and "tpcs s c t l = Holding" and "tpcs s c' t' l = Holding"
  shows "c = c' \<and> t = t' \<and> owner l (sc (server s)) = Some c"
proof -
  have inv: "lock_inv s" by (rule run_inv [OF lock_inv_new assms(2,1)])
  have "t \<in> holders c l s" "t' \<in> holders c' l s" using assms(3,4) by (simp_all add: holders_def)
  then have "owner l (sc (server s)) = Some c \<and> holders c l s = {t}" "owner l (sc (server s)) = Some c' \<and> holders c' l s = {t'}"
    using lock_inv_at [OF inv, of c l] lock_inv_at [OF inv, of c' l]
    by (auto simp: pair_ok_def split: cc_state.splits)
  then show ?thesis by auto
qed

definition polite_revoke :: "event list" where
  "polite_revoke =
     [Begin ''a'' 0 7, Round ''a'' 0 7, Serve_Acquire ''a'' 0 7 0, Acq_Return ''a'' 0 7 0,
      Begin ''b'' 0 7, Round ''b'' 0 7, Serve_Acquire ''b'' 0 7 0, Acq_Return ''b'' 0 7 1,
      Revoker, Serve_Revoke ''a'' 7, Releaser ''a'', Unlock ''a'' 0 7, Releaser ''a'', Releaser ''a'',
      Serve_Release ''a'' 7 1, Rel_Return ''a'' 7 0,
      Retryer, Serve_Retry ''b'' 7, Resume ''b'' 0 7, Round ''b'' 0 7, Serve_Acquire ''b'' 0 7 1,
      Acq_Return ''b'' 0 7 0]"

theorem mutual_exclusion_witness:
  "\<exists>s. run polite_revoke locksys_new = Some s \<and> tpcs s ''b'' 0 7 = Holding \<and>
     owner 7 (sc (server s)) = Some ''b''"
proof -
  have "map_option (\<lambda>s. tpcs s ''b'' 0 7) (run polite_revoke locksys_new) = Some Holding"
    and c: "careful polite_revoke locksys_new"
    by code_simp+
  then obtain s where s: "run polite_revoke locksys_new = Some s" "tpcs s ''b'' 0 7 = Holding" by auto
  then show ?thesis using mutual_exclusion [OF s(1) c s(2) s(2)] by blast
qed

text \<open>
  C27. Without that proviso mutual exclusion fails: when a revoke overtakes the reply that grants the
  lock, the releaser gives back a lock its client is still acquiring, and two clients end up
  holding it.
\<close>

theorem early_revoke_breaks_exclusion:
  "\<exists>s. run early_revoke locksys_new = Some s \<and> tpcs s ''a'' 0 7 = Holding \<and> tpcs s ''b'' 0 7 = Holding"
proof -
  have "map_option (\<lambda>s. (tpcs s ''a'' 0 7, tpcs s ''b'' 0 7)) (run early_revoke locksys_new) = Some (Holding, Holding)"
    by code_simp
  then show ?thesis by auto
qed

end
