(* ===== verification/Extent.thy ===== *)
theory Extent
  imports Marshall
begin

text \<open>
  Extents: the protocol (\<^verbatim>\<open>extent_protocol.h\<close>), the extent server (\<^verbatim>\<open>extent_server.cc\<close>) and the
  extent client (\<^verbatim>\<open>extent_client.cc\<close>), which inherits the server's maps as its cache, writes changed
  extents back on \<^verbatim>\<open>flush\<close> and holds a queue of threads per extent. Calls go to one server; the
  world record says whether the server answers and what \<^verbatim>\<open>time(0)\<close> returns.
\<close>

section \<open>Protocol\<close>

type_synonym extentid_t = u64

abbreviation (input) ex_OK :: int where "ex_OK \<equiv> 0"
abbreviation (input) ex_RPCERR :: int where "ex_RPCERR \<equiv> 1"
abbreviation (input) ex_NOENT :: int where "ex_NOENT \<equiv> 2"
abbreviation (input) ex_IOERR :: int where "ex_IOERR \<equiv> 3"
abbreviation (input) ex_FBIG :: int where "ex_FBIG \<equiv> 4"
abbreviation (input) rpc_timeout :: int where "rpc_timeout \<equiv> -1"

record attr =
  atime :: u32
  mtime :: u32
  ctime :: u32
  asize :: u32

definition put_attr :: "attr \<Rightarrow> marshall \<Rightarrow> marshall" where
  "put_attr a m = put_uint (asize a) (put_uint (ctime a) (put_uint (mtime a) (put_uint (atime a) m)))"

definition get_attr :: "attr getter" where
  "get_attr a u =
     do { (x1, u1) \<leftarrow> get_uint (atime a) u;
          (x2, u2) \<leftarrow> get_uint (mtime a) u1;
          (x3, u3) \<leftarrow> get_uint (ctime a) u2;
          (x4, u4) \<leftarrow> get_uint (asize a) u3;
          Some (\<lparr>atime = x1, mtime = x2, ctime = x3, asize = x4\<rparr>, u4) }"

section \<open>Server\<close>

record extent_server =
  extents :: "extentid_t \<rightharpoonup> string"
  extent_attrs :: "extentid_t \<rightharpoonup> attr"

definition extent_server_new :: extent_server where
  "extent_server_new = \<lparr>extents = Map.empty, extent_attrs = Map.empty\<rparr>"

definition es_put :: "extentid_t \<Rightarrow> string \<Rightarrow> attr \<Rightarrow> extent_server \<Rightarrow> int \<times> extent_server" where
  "es_put eid buf a st =
     (ex_OK, st\<lparr>extents := (extents st)(eid \<mapsto> buf), extent_attrs := (extent_attrs st)(eid \<mapsto> a)\<rparr>)"

text \<open>An output parameter that the code leaves alone is \<^const>\<open>None\<close>.\<close>

definition es_get :: "u32 \<Rightarrow> extentid_t \<Rightarrow> extent_server \<Rightarrow> (int \<times> string option) \<times> extent_server" where
  "es_get now eid st =
     (case (extents st eid, extent_attrs st eid) of
        (Some buf, Some a) \<Rightarrow>
          ((ex_OK, Some buf), st\<lparr>extent_attrs := (extent_attrs st)(eid \<mapsto> a\<lparr>atime := now\<rparr>)\<rparr>)
      | _ \<Rightarrow> ((ex_NOENT, None), st))"

definition es_getattr :: "extentid_t \<Rightarrow> extent_server \<Rightarrow> int \<times> attr option" where
  "es_getattr eid st =
     (case extent_attrs st eid of Some a \<Rightarrow> (ex_OK, Some a) | None \<Rightarrow> (ex_NOENT, None))"

definition es_remove :: "extentid_t \<Rightarrow> extent_server \<Rightarrow> int \<times> extent_server" where
  "es_remove eid st =
     (if extents st eid \<noteq> None
      then (ex_OK, st\<lparr>extents := (extents st)(eid := None), extent_attrs := (extent_attrs st)(eid := None)\<rparr>)
      else (ex_NOENT, st))"

definition es_setattr :: "extentid_t \<Rightarrow> attr \<Rightarrow> extent_server \<Rightarrow> int \<times> extent_server" where
  "es_setattr eid a st =
     (if extent_attrs st eid \<noteq> None then (ex_OK, st\<lparr>extent_attrs := (extent_attrs st)(eid \<mapsto> a)\<rparr>)
      else (ex_NOENT, st))"

section \<open>Client\<close>

record extent_client =
  cache :: extent_server
  modified_extents :: "extentid_t list"
  modified_extent_attributes :: "extentid_t list"
  removed_extents :: "extentid_t list"
  ec_waiting :: "extentid_t \<Rightarrow> nat list"

definition extent_client_new :: extent_client where
  "extent_client_new = \<lparr>cache = extent_server_new, modified_extents = [], modified_extent_attributes = [],
     removed_extents = [], ec_waiting = (\<lambda>_. [])\<rparr>"

record xworld =
  xclient :: extent_client
  xserver :: extent_server
  xup :: bool
  xnow :: u32
  xtid :: nat

definition set_xclient :: "extent_client \<Rightarrow> xworld \<Rightarrow> xworld" where
  "set_xclient c w = w\<lparr>xclient := c\<rparr>"

text \<open>
  The queue of threads: the caller joins at the end and goes on when it is at the front. An operation
  whose caller has to wait is \<^const>\<open>None\<close>.
\<close>

definition put_thread_to_wait_if_needed :: "extentid_t \<Rightarrow> xworld \<Rightarrow> xworld option" where
  "put_thread_to_wait_if_needed eid w =
     (let c = xclient w;
          q = push_if_absent (xtid w) (ec_waiting c eid)
      in if hd q \<noteq> xtid w then None
         else Some (set_xclient (c\<lparr>ec_waiting := (ec_waiting c)(eid := q)\<rparr>) w))"

definition unlock_mutex_and_deque_thread :: "extentid_t \<Rightarrow> xworld \<Rightarrow> xworld" where
  "unlock_mutex_and_deque_thread eid w =
     (let c = xclient w
      in set_xclient (c\<lparr>ec_waiting := (ec_waiting c)(eid := removeAll (xtid w) (ec_waiting c eid))\<rparr>) w)"

definition add_extent_to_modified_queues :: "extentid_t \<Rightarrow> extent_client \<Rightarrow> extent_client" where
  "add_extent_to_modified_queues eid c =
     c\<lparr>modified_extents := push_if_absent eid (modified_extents c),
       modified_extent_attributes := push_if_absent eid (modified_extent_attributes c),
       removed_extents := remove1 eid (removed_extents c)\<rparr>"

definition get_and_cache_extent_from_server ::
  "extentid_t \<Rightarrow> xworld \<Rightarrow> (int \<times> string option \<times> attr option) \<times> xworld" where
  "get_and_cache_extent_from_server eid w =
     (if \<not> xup w then ((rpc_timeout, None, None), w)
      else let ((ret, buf), s1) = es_get (xnow w) eid (xserver w); w1 = w\<lparr>xserver := s1\<rparr> in
      (case buf of
         None \<Rightarrow> ((ret, None, None), w1)
       | Some b \<Rightarrow>
           (case es_getattr eid s1 of
              (ret2, None) \<Rightarrow> ((ret2, Some b, None), w1)
            | (ret2, Some a) \<Rightarrow>
                ((ret2, Some b, Some a),
                 set_xclient (add_extent_to_modified_queues eid
                   ((xclient w1)\<lparr>cache := snd (es_put eid b a (cache (xclient w1)))\<rparr>)) w1))))"

definition ec_get :: "extentid_t \<Rightarrow> xworld \<Rightarrow> ((int \<times> string option) \<times> xworld) option" where
  "ec_get eid w =
     do { w1 \<leftarrow> put_thread_to_wait_if_needed eid w;
          let (r, w2) =
            (if extents (cache (xclient w1)) eid \<noteq> None
             then let (r, s) = es_get (xnow w1) eid (cache (xclient w1))
                  in (r, set_xclient ((xclient w1)\<lparr>cache := s\<rparr>) w1)
             else let ((ret, buf, a), w2) = get_and_cache_extent_from_server eid w1 in ((ret, buf), w2));
          Some (r, unlock_mutex_and_deque_thread eid w2) }"

definition ec_getattr :: "extentid_t \<Rightarrow> xworld \<Rightarrow> ((int \<times> attr option) \<times> xworld) option" where
  "ec_getattr eid w =
     do { w1 \<leftarrow> put_thread_to_wait_if_needed eid w;
          let (r, w2) =
            (if extent_attrs (cache (xclient w1)) eid \<noteq> None
             then (es_getattr eid (cache (xclient w1)), w1)
             else let ((ret, buf, a), w2) = get_and_cache_extent_from_server eid w1 in ((ret, a), w2));
          Some (r, unlock_mutex_and_deque_thread eid w2) }"

definition ec_put :: "extentid_t \<Rightarrow> string \<Rightarrow> xworld \<Rightarrow> (int \<times> xworld) option" where
  "ec_put eid buf w =
     do { w1 \<leftarrow> put_thread_to_wait_if_needed eid w;
          let a = \<lparr>atime = xnow w1, mtime = xnow w1, ctime = xnow w1, asize = of_nat (length buf)\<rparr>;
          let (ret, s) = es_put eid buf a (cache (xclient w1));
          let c = (xclient w1)\<lparr>cache := s\<rparr>;
          Some (ret, unlock_mutex_and_deque_thread eid
                       (set_xclient (if ret = ex_OK then add_extent_to_modified_queues eid c else c) w1)) }"

definition ec_remove :: "extentid_t \<Rightarrow> xworld \<Rightarrow> (int \<times> xworld) option" where
  "ec_remove eid w =
     do { w1 \<leftarrow> put_thread_to_wait_if_needed eid w;
          let (ret, s) = es_remove eid (cache (xclient w1));
          let c = (xclient w1)\<lparr>cache := s\<rparr>;
          let c' = (if ret = ex_OK
                    then c\<lparr>removed_extents := removed_extents c @ [eid],
                           modified_extents := remove1 eid (modified_extents c),
                           modified_extent_attributes := remove1 eid (modified_extent_attributes c)\<rparr>
                    else c);
          Some (ret, unlock_mutex_and_deque_thread eid (set_xclient c' w1)) }"

text \<open>
  \<^verbatim>\<open>flush\<close> in two parts: the write-back of a modified extent (\<^verbatim>\<open>extents[eid]\<close> of a missing extent is
  the empty string), and the removal of a removed one.
\<close>

definition flush_modified :: "extentid_t \<Rightarrow> xworld \<Rightarrow> xworld" where
  "flush_modified eid w =
     (let c = xclient w in
      if eid \<in> set (modified_extents c) \<and> xup w
      then let buf = (case extents (cache c) eid of None \<Rightarrow> '''' | Some b \<Rightarrow> b);
               a = (case extent_attrs (cache c) eid of
                      None \<Rightarrow> \<lparr>atime = 0, mtime = 0, ctime = 0, asize = 0\<rparr> | Some a \<Rightarrow> a)
           in set_xclient
                (c\<lparr>modified_extents := removeAll eid (modified_extents c),
                   modified_extent_attributes := removeAll eid (modified_extent_attributes c),
                   cache := \<lparr>extents = (extents (cache c))(eid := None),
                             extent_attrs = (extent_attrs (cache c))(eid := None)\<rparr>\<rparr>)
                (w\<lparr>xserver := snd (es_put eid buf a (xserver w))\<rparr>)
      else w)"

definition flush_removed :: "extentid_t \<Rightarrow> xworld \<Rightarrow> xworld" where
  "flush_removed eid w =
     (let c = xclient w in
      if eid \<in> set (removed_extents c) \<and> xup w
      then let (ret, s) = es_remove eid (xserver w); w1 = w\<lparr>xserver := s\<rparr>
           in if ret = ex_OK
              then set_xclient (c\<lparr>removed_extents := removeAll eid (removed_extents c)\<rparr>) w1 else w1
      else w)"

definition ec_flush :: "extentid_t \<Rightarrow> xworld \<Rightarrow> xworld option" where
  "ec_flush eid w =
     do { w1 \<leftarrow> put_thread_to_wait_if_needed eid w;
          Some (unlock_mutex_and_deque_thread eid (flush_removed eid (flush_modified eid w1))) }"

definition dorelease :: "extentid_t \<Rightarrow> xworld \<Rightarrow> xworld option" where
  "dorelease lid w = ec_flush lid w"

section \<open>Attributes on the wire\<close>

definition enc_attr :: "attr \<Rightarrow> string" where
  "enc_attr a = be32 (atime a) @ be32 (mtime a) @ be32 (ctime a) @ be32 (asize a)"

lemma get_attr_at:
  assumes "u_at u (enc_attr a @ r)"
  shows "get_attr old u = Some (a, u_adv 16 u)"
proof -
  have at: "u_at u (be32 (atime a) @ be32 (mtime a) @ be32 (ctime a) @ be32 (asize a) @ r)"
    using assms by (simp add: enc_attr_def)
  note at1 = u_at_adv [OF at, simplified]
  note at2 = u_at_adv [OF at1, simplified]
  note at3 = u_at_adv [OF at2, simplified]
  show ?thesis
    by (simp add: get_attr_def get_uint_at [OF at] get_uint_at [OF at1] get_uint_at [OF at2] get_uint_at [OF at3])
qed

interpretation attr: codec enc_attr put_attr get_attr "\<lambda>_. True"
  by unfold_locales (simp_all add: put_attr_def enc_attr_def put_uint_written get_attr_at [unfolded enc_attr_def])


section \<open>The queue when nobody waits\<close>

definition idle :: "xworld \<Rightarrow> bool" where
  "idle w \<longleftrightarrow> ec_waiting (xclient w) = (\<lambda>_. [])"

definition entered :: "extentid_t \<Rightarrow> xworld \<Rightarrow> xworld" where
  "entered eid w = w\<lparr>xclient := (xclient w)\<lparr>ec_waiting := (\<lambda>_. [])(eid := [xtid w])\<rparr>\<rparr>"

lemma put_thread_idle: "idle w \<Longrightarrow> put_thread_to_wait_if_needed eid w = Some (entered eid w)"
  by (simp add: put_thread_to_wait_if_needed_def idle_def entered_def set_xclient_def push_if_absent_def Let_def)

lemma unlock_entered:
  assumes "ec_waiting (xclient w) = (\<lambda>_. [])(eid := [xtid w])"
  shows "unlock_mutex_and_deque_thread eid w = w\<lparr>xclient := (xclient w)\<lparr>ec_waiting := (\<lambda>_. [])\<rparr>\<rparr>"
  using assms by (simp add: unlock_mutex_and_deque_thread_def set_xclient_def Let_def fun_upd_idem)

lemma entered_simps [simp]:
  "cache (xclient (entered eid w)) = cache (xclient w)"
  "modified_extents (xclient (entered eid w)) = modified_extents (xclient w)"
  "modified_extent_attributes (xclient (entered eid w)) = modified_extent_attributes (xclient w)"
  "removed_extents (xclient (entered eid w)) = removed_extents (xclient w)"
  "ec_waiting (xclient (entered eid w)) = (\<lambda>_. [])(eid := [xtid w])"
  "xserver (entered eid w) = xserver w" "xup (entered eid w) = xup w" "xnow (entered eid w) = xnow w"
  "xtid (entered eid w) = xtid w"
  by (simp_all add: entered_def)

lemma set_xclient_simps [simp]:
  "xclient (set_xclient c w) = c" "xserver (set_xclient c w) = xserver w" "xup (set_xclient c w) = xup w"
  "xnow (set_xclient c w) = xnow w" "xtid (set_xclient c w) = xtid w"
  by (simp_all add: set_xclient_def)

section \<open>The cache invariant\<close>

text \<open>
  What is cached is what is listed for write-back, contents and attributes go together, and nothing is
  both cached and listed for removal.
\<close>

definition cache_inv :: "extent_client \<Rightarrow> bool" where
  "cache_inv c \<longleftrightarrow>
     dom (extents (cache c)) = set (modified_extents c) \<and>
     dom (extent_attrs (cache c)) = set (modified_extents c) \<and>
     set (modified_extent_attributes c) = set (modified_extents c) \<and>
     distinct (modified_extents c) \<and> distinct (modified_extent_attributes c) \<and>
     distinct (removed_extents c) \<and> set (removed_extents c) \<inter> set (modified_extents c) = {}"

definition server_inv :: "extent_server \<Rightarrow> bool" where
  "server_inv s \<longleftrightarrow> dom (extents s) = dom (extent_attrs s)"

definition xinv :: "xworld \<Rightarrow> bool" where
  "xinv w \<longleftrightarrow> cache_inv (xclient w) \<and> server_inv (xserver w) \<and> idle w"

text \<open>The content of an extent as the client sees it.\<close>

definition content :: "xworld \<Rightarrow> extentid_t \<rightharpoonup> string" where
  "content w = extents (xserver w) ++ extents (cache (xclient w))"

lemma cache_inv_add:
  assumes "cache_inv c"
  shows "cache_inv (add_extent_to_modified_queues eid (c\<lparr>cache := snd (es_put eid b a (cache c))\<rparr>))"
  using assms
  by (auto simp: cache_inv_def add_extent_to_modified_queues_def es_put_def set_remove1_eq)

lemma add_extent_simps [simp]:
  "cache (add_extent_to_modified_queues eid c) = cache c"
  "ec_waiting (add_extent_to_modified_queues eid c) = ec_waiting c"
  by (simp_all add: add_extent_to_modified_queues_def)

lemma xinv_simps: "xinv w \<Longrightarrow> cache_inv (xclient w)" "xinv w \<Longrightarrow> server_inv (xserver w)" "xinv w \<Longrightarrow> idle w"
  by (simp_all add: xinv_def)

lemma cache_inv_waiting [simp]: "cache_inv (c\<lparr>ec_waiting := q\<rparr>) = cache_inv c"
  by (simp add: cache_inv_def)

lemma cache_inv_dom:
  assumes "cache_inv c"
  shows "extents (cache c) eid = None \<longleftrightarrow> eid \<notin> set (modified_extents c)"
    and "extent_attrs (cache c) eid = None \<longleftrightarrow> eid \<notin> set (modified_extents c)"
  using assms unfolding cache_inv_def by (metis domIff)+

text \<open>Leaving the queue restores the state before entering it, up to what the body did.\<close>

lemma left:
  assumes "ec_waiting (xclient w) = (\<lambda>_. [])(eid := [xtid w])" and "cache_inv (xclient w)" and "server_inv (xserver w)"
  shows "xinv (unlock_mutex_and_deque_thread eid w)" and "content (unlock_mutex_and_deque_thread eid w) = content w"
    and "xup (unlock_mutex_and_deque_thread eid w) = xup w"
  using assms by (simp_all add: unlock_entered [OF assms(1)] xinv_def idle_def content_def)

lemma ec_put_spec:
  assumes "xinv w"
  shows "\<exists>w'. ec_put eid buf w = Some (ex_OK, w') \<and> xinv w' \<and> xup w' = xup w \<and>
           content w' = (content w)(eid \<mapsto> buf) \<and> extents (cache (xclient w')) eid = Some buf \<and>
           extent_attrs (cache (xclient w')) eid =
             Some \<lparr>atime = xnow w, mtime = xnow w, ctime = xnow w, asize = of_nat (length buf)\<rparr>"
proof -
  let ?a = "\<lparr>atime = xnow w, mtime = xnow w, ctime = xnow w, asize = of_nat (length buf)\<rparr>"
  let ?c = "(xclient (entered eid w))\<lparr>cache := snd (es_put eid buf ?a (cache (xclient w)))\<rparr>"
  let ?w = "set_xclient (add_extent_to_modified_queues eid ?c) (entered eid w)"
  have e: "ec_put eid buf w = Some (ex_OK, unlock_mutex_and_deque_thread eid ?w)"
    by (simp add: ec_put_def put_thread_idle xinv_simps [OF assms] es_put_def Let_def)
  have "cache_inv (xclient (entered eid w))"
    using xinv_simps(1) [OF assms] by (simp add: entered_def)
  then have "cache_inv (xclient ?w)"
    using cache_inv_add [of "xclient (entered eid w)" eid buf ?a] by simp
  then show ?thesis
    using left [of ?w eid] xinv_simps [OF assms]
    by (simp add: e content_def es_put_def) (simp add: unlock_mutex_and_deque_thread_def Let_def)
qed


lemma server_inv_get: "server_inv s \<Longrightarrow> server_inv (snd (es_get now eid s))"
  by (auto simp: server_inv_def es_get_def split: option.splits)

lemma server_inv_put: "server_inv s \<Longrightarrow> server_inv (snd (es_put eid b a s))"
  by (auto simp: server_inv_def es_put_def)

lemma server_inv_remove: "server_inv s \<Longrightarrow> server_inv (snd (es_remove eid s))"
  by (auto simp: server_inv_def es_remove_def)

lemma extents_es_get [simp]: "extents (snd (es_get now eid s)) = extents s"
  by (simp add: es_get_def split: option.splits)

lemma server_inv_both: "server_inv s \<Longrightarrow> extents s eid = Some b \<Longrightarrow> \<exists>a. extent_attrs s eid = Some a"
  by (auto simp: server_inv_def)

text \<open>A fetch from the server: nothing is found, or content and attributes enter the cache.\<close>

lemma fetch_cases:
  assumes "server_inv (xserver w)" and "cache_inv (xclient w)" and "extents (cache (xclient w)) eid = None" and "xup w"
  obtains (absent) "extents (xserver w) eid = None"
      "get_and_cache_extent_from_server eid w = ((ex_NOENT, None, None), w)"
  | (found) b a w' where "extents (xserver w) eid = Some b" "extent_attrs (xserver w) eid = Some a"
      "get_and_cache_extent_from_server eid w = ((ex_OK, Some b, Some (a\<lparr>atime := xnow w\<rparr>)), w')"
      "content w' = content w" "cache_inv (xclient w')" "server_inv (xserver w')" "xup w' = xup w" "xtid w' = xtid w"
      "ec_waiting (xclient w') = ec_waiting (xclient w)" "extents (cache (xclient w')) eid = Some b"
proof (cases "extents (xserver w) eid")
  case None
  then have "es_get (xnow w) eid (xserver w) = ((ex_NOENT, None), xserver w)"
    by (simp add: es_get_def)
  then show ?thesis using absent None assms(4) by (simp add: get_and_cache_extent_from_server_def)
next
  case (Some b)
  then obtain a where a: "extent_attrs (xserver w) eid = Some a" using server_inv_both assms(1) by blast
  let ?s = "(xserver w)\<lparr>extent_attrs := (extent_attrs (xserver w))(eid \<mapsto> a\<lparr>atime := xnow w\<rparr>)\<rparr>"
  let ?c = "add_extent_to_modified_queues eid
     ((xclient w)\<lparr>cache := snd (es_put eid b (a\<lparr>atime := xnow w\<rparr>) (cache (xclient w)))\<rparr>)"
  have g: "es_get (xnow w) eid (xserver w) = ((ex_OK, Some b), ?s)"
    using Some a by (simp add: es_get_def)
  have "get_and_cache_extent_from_server eid w =
      ((ex_OK, Some b, Some (a\<lparr>atime := xnow w\<rparr>)), set_xclient ?c (w\<lparr>xserver := ?s\<rparr>))"
    using assms(4) by (simp add: get_and_cache_extent_from_server_def g es_getattr_def Let_def)
  moreover have "content (set_xclient ?c (w\<lparr>xserver := ?s\<rparr>)) = content w"
    using Some assms(3) by (auto simp: content_def es_put_def map_add_def fun_eq_iff split: option.splits)
  moreover have "server_inv ?s" using server_inv_get [OF assms(1), of "xnow w" eid] g by simp
  ultimately show ?thesis
    using found [OF Some a] cache_inv_add [OF assms(2)] by (simp add: es_put_def)
qed

definition found :: "string option \<Rightarrow> int \<times> string option" where
  "found r = (case r of None \<Rightarrow> (ex_NOENT, None) | Some b \<Rightarrow> (ex_OK, Some b))"

lemma found_simps [simp]: "found None = (ex_NOENT, None)" "found (Some b) = (ex_OK, Some b)"
  by (simp_all add: found_def)

lemma ec_get_spec:
  assumes "xinv w" and "xup w"
  shows "\<exists>w'. ec_get eid w = Some (found (content w eid), w') \<and>
           xinv w' \<and> xup w' \<and> content w' = content w \<and> extents (cache (xclient w')) eid = content w eid"
proof -
  let ?w = "entered eid w"
  have inv: "server_inv (xserver ?w)" "cache_inv (xclient ?w)" "xup ?w"
    using xinv_simps [OF assms(1)] assms(2) by (simp_all add: entered_def)
  have cw: "content ?w = content w" by (simp add: content_def)
  have ul: "extents (cache (xclient (unlock_mutex_and_deque_thread eid w'))) = extents (cache (xclient w'))" for w'
    by (simp add: unlock_mutex_and_deque_thread_def Let_def)
  show ?thesis
  proof (cases "extents (cache (xclient w)) eid")
    case (Some b)
    obtain a where a: "extent_attrs (cache (xclient w)) eid = Some a"
      using Some cache_inv_dom [OF inv(2), of eid] by auto
    let ?c = "(xclient ?w)\<lparr>cache := (cache (xclient w))\<lparr>extent_attrs :=
       (extent_attrs (cache (xclient w)))(eid \<mapsto> a\<lparr>atime := xnow w\<rparr>)\<rparr>\<rparr>"
    have e: "ec_get eid w = Some ((ex_OK, Some b), unlock_mutex_and_deque_thread eid (set_xclient ?c ?w))"
      using Some a by (simp add: ec_get_def put_thread_idle xinv_simps [OF assms(1)] es_get_def)
    have "cache_inv ?c" using inv(2) Some by (auto simp: cache_inv_def)
    moreover have "content w eid = Some b" using Some by (simp add: content_def)
    moreover have "content (set_xclient ?c ?w) = content w" by (simp add: content_def)
    ultimately show ?thesis using left [of "set_xclient ?c ?w" eid] inv Some by (simp add: e ul)
  next
    case None
    have n: "extents (cache (xclient ?w)) eid = None" using None by simp
    from inv(1,2) n inv(3) show ?thesis
    proof (cases rule: fetch_cases)
      case absent
      have "content w eid = None" using absent(1) None by (simp add: content_def map_add_None)
      then show ?thesis
        using absent(2) None left [of ?w eid] inv cw
        by (simp add: ec_get_def put_thread_idle xinv_simps [OF assms(1)] ul)
    next
      case (found b a w')
      have "content w eid = Some b" using found(1) None by (simp add: content_def map_add_Some_iff)
      then show ?thesis
        using found left [of w' eid] inv cw None
        by (simp add: ec_get_def put_thread_idle xinv_simps [OF assms(1)] ul)
    qed
  qed
qed


section \<open>The interface of a store\<close>

text \<open>
  What the file system needs of the extent client: a content per extent, and that \<open>get\<close> and \<open>put\<close> work
  on it while the store is ready.
\<close>

locale extent_store =
  fixes cont :: "'w \<Rightarrow> extentid_t \<rightharpoonup> string"
    and ready :: "'w \<Rightarrow> bool"
    and get :: "extentid_t \<Rightarrow> 'w \<Rightarrow> ((int \<times> string option) \<times> 'w) option"
    and put :: "extentid_t \<Rightarrow> string \<Rightarrow> 'w \<Rightarrow> (int \<times> 'w) option"
  assumes get_spec: "ready w \<Longrightarrow> \<exists>w'. get eid w = Some (found (cont w eid), w') \<and> ready w' \<and> cont w' = cont w"
    and put_spec: "ready w \<Longrightarrow> \<exists>w'. put eid b w = Some (ex_OK, w') \<and> ready w' \<and> cont w' = (cont w)(eid \<mapsto> b)"
begin

lemma getE:
  assumes "ready w"
  obtains w' where "get eid w = Some (found (cont w eid), w')" and "ready w'" and "cont w' = cont w"
  using get_spec [OF assms, of eid] by blast

lemma putE:
  assumes "ready w"
  obtains w' where "put eid b w = Some (ex_OK, w')" and "ready w'" and "cont w' = (cont w)(eid \<mapsto> b)"
  using put_spec [OF assms, of eid b] by blast

lemma get_after_put:
  assumes "ready w"
  shows "\<exists>w1 w2. put eid b w = Some (ex_OK, w1) \<and> get eid w1 = Some ((ex_OK, Some b), w2)"
proof -
  obtain w1 where w1: "put eid b w = Some (ex_OK, w1)" "ready w1" "cont w1 = (cont w)(eid \<mapsto> b)"
    using assms by (rule putE)
  obtain w2 where "get eid w1 = Some (found (cont w1 eid), w2)" "ready w2" "cont w2 = cont w1"
    using w1(2) by (rule getE)
  then show ?thesis using w1 by auto
qed

text \<open>Read, change, write back.\<close>

lemma modify:
  assumes "ready w" and "cont w eid = Some b"
  shows "\<exists>w1 w2. get eid w = Some ((ex_OK, Some b), w1) \<and> put eid (f b) w1 = Some (ex_OK, w2) \<and>
           ready w2 \<and> cont w2 = (cont w)(eid \<mapsto> f b)"
proof -
  obtain w1 where w1: "get eid w = Some (found (cont w eid), w1)" "ready w1" "cont w1 = cont w"
    using assms(1) by (rule getE)
  obtain w2 where "put eid (f b) w1 = Some (ex_OK, w2)" "ready w2" "cont w2 = (cont w1)(eid \<mapsto> f b)"
    using w1(2) by (rule putE)
  then show ?thesis using w1 assms(2) by auto
qed

end

interpretation ec: extent_store content "\<lambda>w. xinv w \<and> xup w" ec_get ec_put
proof
  show "\<exists>w'. ec_get eid w = Some (found (content w eid), w') \<and> (xinv w' \<and> xup w') \<and> content w' = content w"
    if "xinv w \<and> xup w" for w eid
    using ec_get_spec [of w eid] that by auto
  show "\<exists>w'. ec_put eid b w = Some (ex_OK, w') \<and> (xinv w' \<and> xup w') \<and> content w' = (content w)(eid \<mapsto> b)"
    if "xinv w \<and> xup w" for w eid b
    using ec_put_spec [of w eid b] that by auto
qed

section \<open>Attributes, removal and flush\<close>

definition attr_view :: "xworld \<Rightarrow> extentid_t \<rightharpoonup> attr" where
  "attr_view w = extent_attrs (xserver w) ++ extent_attrs (cache (xclient w))"

lemma ec_getattr_spec:
  assumes "xinv w" and "xup w"
  shows "\<exists>w'. ec_getattr eid w =
             Some ((case attr_view w eid of None \<Rightarrow> (ex_NOENT, None)
                    | Some a \<Rightarrow> (ex_OK, Some (if content w eid = extents (cache (xclient w)) eid then a
                                             else a\<lparr>atime := xnow w\<rparr>))), w') \<and>
           xinv w' \<and> xup w' \<and> content w' = content w"
proof -
  let ?w = "entered eid w"
  have inv: "server_inv (xserver ?w)" "cache_inv (xclient ?w)" "xup ?w"
    using xinv_simps [OF assms(1)] assms(2) by (simp_all add: entered_def)
  have cw: "content ?w = content w" by (simp add: content_def)
  show ?thesis
  proof (cases "extents (cache (xclient w)) eid")
    case (Some b)
    obtain a where a: "extent_attrs (cache (xclient w)) eid = Some a"
      using Some cache_inv_dom [OF inv(2), of eid] by auto
    have "ec_getattr eid w = Some ((ex_OK, Some a), unlock_mutex_and_deque_thread eid ?w)"
      using a by (simp add: ec_getattr_def put_thread_idle xinv_simps [OF assms(1)] es_getattr_def)
    moreover have "attr_view w eid = Some a" "content w eid = Some b"
      using a Some by (simp_all add: attr_view_def content_def)
    ultimately show ?thesis using left [of ?w eid] inv cw Some by simp
  next
    case None
    have n: "extents (cache (xclient ?w)) eid = None" and n': "extent_attrs (cache (xclient w)) eid = None"
      using None cache_inv_dom [OF inv(2), of eid] by simp_all
    from inv(1,2) n inv(3) show ?thesis
    proof (cases rule: fetch_cases)
      case absent
      have "extent_attrs (xserver w) eid = None" using absent(1) inv(1) unfolding server_inv_def by (metis domIff entered_simps(6))
      then have "attr_view w eid = None" using n' by (simp add: attr_view_def map_add_None)
      then show ?thesis
        using absent(2) n' left [of ?w eid] inv cw
        by (simp add: ec_getattr_def put_thread_idle xinv_simps [OF assms(1)])
    next
      case (found b a w')
      have "content w eid = Some b" "attr_view w eid = Some a"
        using found(1,2) None n' by (simp_all add: content_def attr_view_def map_add_Some_iff)
      then show ?thesis
        using found left [of w' eid] inv cw None n'
        by (simp add: ec_getattr_def put_thread_idle xinv_simps [OF assms(1)])
    qed
  qed
qed

lemma ec_remove_spec:
  assumes "xinv w"
  shows "\<exists>w'. ec_remove eid w = Some (if extents (cache (xclient w)) eid = None then ex_NOENT else ex_OK, w') \<and>
           xinv w' \<and> xup w' = xup w \<and> xserver w' = xserver w \<and> extents (cache (xclient w')) eid = None \<and>
           content w' = (if extents (cache (xclient w)) eid = None then content w
                         else (content w)(eid := extents (xserver w) eid)) \<and>
           (extents (cache (xclient w)) eid \<noteq> None \<longrightarrow> eid \<in> set (removed_extents (xclient w')))"
proof (cases "extents (cache (xclient w)) eid")
  case None
  have e: "ec_remove eid w = Some (ex_NOENT, unlock_mutex_and_deque_thread eid
      (set_xclient ((xclient (entered eid w))\<lparr>cache := cache (xclient w)\<rparr>) (entered eid w)))" (is "_ = Some (_, unlock_mutex_and_deque_thread eid ?w)")
    using None by (simp add: ec_remove_def put_thread_idle xinv_simps [OF assms] es_remove_def)
  have "cache_inv (xclient ?w)" "server_inv (xserver ?w)"
    using xinv_simps [OF assms] by (simp_all add: entered_def)
  moreover have "content ?w = content w" by (simp add: content_def)
  ultimately show ?thesis using left [of ?w eid] None
    by (simp add: e) (simp add: unlock_mutex_and_deque_thread_def Let_def)
next
  case (Some b)
  let ?s = "(cache (xclient w))\<lparr>extents := (extents (cache (xclient w)))(eid := None),
     extent_attrs := (extent_attrs (cache (xclient w)))(eid := None)\<rparr>"
  let ?c = "(xclient (entered eid w))\<lparr>cache := ?s, removed_extents := removed_extents (xclient w) @ [eid],
     modified_extents := remove1 eid (modified_extents (xclient w)),
     modified_extent_attributes := remove1 eid (modified_extent_attributes (xclient w))\<rparr>"
  let ?w = "set_xclient ?c (entered eid w)"
  have e: "ec_remove eid w = Some (ex_OK, unlock_mutex_and_deque_thread eid ?w)"
    using Some by (simp add: ec_remove_def put_thread_idle xinv_simps [OF assms] es_remove_def)
  have "eid \<in> set (modified_extents (xclient w))"
    using cache_inv_dom(1) [OF xinv_simps(1) [OF assms], of eid] Some by simp
  then have "cache_inv ?c" using xinv_simps(1) [OF assms] by (auto simp: cache_inv_def)
  moreover have "content ?w = (content w)(eid := extents (xserver w) eid)"
    by (auto simp: content_def map_add_def fun_eq_iff split: option.splits)
  ultimately show ?thesis using left [of ?w eid] Some xinv_simps(2) [OF assms]
    by (simp add: e) (simp add: unlock_mutex_and_deque_thread_def Let_def)
qed

lemma ec_flush_spec:
  assumes "xinv w" and "xup w"
  shows "\<exists>w'. ec_flush eid w = Some w' \<and> xinv w' \<and> xup w' \<and> extents (cache (xclient w')) eid = None \<and>
           content w' = (if eid \<in> set (removed_extents (xclient w)) then (content w)(eid := None) else content w) \<and>
           extents (xserver w') eid = content w' eid"
proof -
  let ?w = "entered eid w" and ?c = "xclient w"
  have ci: "cache_inv (xclient ?w)" and si: "server_inv (xserver w)"
    using xinv_simps [OF assms(1)] by (simp_all add: entered_def)
  have e: "ec_flush eid w = Some (unlock_mutex_and_deque_thread eid (flush_removed eid (flush_modified eid ?w)))"
    by (simp add: ec_flush_def put_thread_idle xinv_simps [OF assms(1)])
  have mem: "extents (cache ?c) eid = None \<longleftrightarrow> eid \<notin> set (modified_extents ?c)"
    using cache_inv_dom(1) [OF ci, of eid] by simp
  show ?thesis
  proof (cases "extents (cache ?c) eid")
    case (Some b)
    obtain a where a: "extent_attrs (cache ?c) eid = Some a"
      using Some cache_inv_dom [OF ci, of eid] by auto
    have nr: "eid \<notin> set (removed_extents ?c)" using Some mem ci by (auto simp: cache_inv_def)
    let ?s = "\<lparr>extents = (extents (cache ?c))(eid := None), extent_attrs = (extent_attrs (cache ?c))(eid := None)\<rparr>"
    let ?d = "(xclient ?w)\<lparr>modified_extents := removeAll eid (modified_extents ?c),
       modified_extent_attributes := removeAll eid (modified_extent_attributes ?c), cache := ?s\<rparr>"
    let ?w1 = "set_xclient ?d (?w\<lparr>xserver := snd (es_put eid b a (xserver w))\<rparr>)"
    have f: "flush_removed eid (flush_modified eid ?w) = ?w1"
      using Some a mem assms(2) nr by (simp add: flush_modified_def flush_removed_def Let_def)
    have "cache_inv ?d" using ci by (auto simp: cache_inv_def distinct_removeAll)
    moreover have "content ?w1 = content w"
      using Some by (auto simp: content_def es_put_def map_add_def fun_eq_iff split: option.splits)
    moreover have "content w eid = Some b" using Some by (simp add: content_def)
    ultimately show ?thesis
      using left [of ?w1 eid] server_inv_put [OF si] assms(2) nr
      by (simp add: e f) (simp add: unlock_mutex_and_deque_thread_def Let_def es_put_def)
  next
    case None
    then have m: "flush_modified eid ?w = ?w" using mem by (simp add: flush_modified_def Let_def)
    let ?s = "snd (es_remove eid (xserver w))"
    let ?r = "eid \<in> set (removed_extents ?c)"
    let ?d = "(xclient ?w)\<lparr>removed_extents := removeAll eid (removed_extents ?c)\<rparr>"
    define w1 where "w1 = (if ?r then if extents (xserver w) eid \<noteq> None then set_xclient ?d (?w\<lparr>xserver := ?s\<rparr>)
        else ?w\<lparr>xserver := ?s\<rparr> else ?w)"
    have f: "flush_removed eid ?w = w1"
      using assms(2) by (auto simp: flush_removed_def Let_def es_remove_def w1_def)
    have "cache_inv (xclient w1)" "server_inv (xserver w1)"
      using ci si server_inv_remove [OF si] by (auto simp: cache_inv_def distinct_removeAll w1_def)
    moreover have c: "cache (xclient w1) = cache ?c" "xup w1 = xup w"
      and "ec_waiting (xclient w1) = (\<lambda>_. [])(eid := [xtid w1])"
      by (simp_all add: w1_def)
    moreover have "content w1 = (if ?r then (content w)(eid := None) else content w)"
      using None by (auto simp: content_def es_remove_def map_add_def fun_eq_iff w1_def split: option.splits)
    moreover have "extents (xserver w1) eid = content w1 eid"
      using None c by (simp add: content_def map_add_def)
    moreover have "extents (cache (xclient (unlock_mutex_and_deque_thread eid w1))) = extents (cache ?c)"
      "xserver (unlock_mutex_and_deque_thread eid w1) = xserver w1"
      using c by (simp_all add: unlock_mutex_and_deque_thread_def Let_def)
    ultimately show ?thesis
      using left [of w1 eid] assms(2) None by (simp add: e m f)
  qed
qed

section \<open>Properties of the extent client\<close>

text \<open>
  C5. The extent client is transparent: while the server answers and no other thread queues, \<^verbatim>\<open>get\<close> returns
  what the store holds and changes nothing, \<^verbatim>\<open>put\<close> changes exactly one extent, and \<^verbatim>\<open>flush\<close> moves the
  cached extent to the server without changing what the client sees, except that a pending
  removal takes effect; each of them keeps the cache invariant.
\<close>

theorem extent_client_refines:
  assumes "xinv w" and "xup w"
  shows "(\<exists>w'. ec_get eid w = Some (found (content w eid), w') \<and> xinv w' \<and> content w' = content w) \<and>
         (\<exists>w'. ec_put eid buf w = Some (ex_OK, w') \<and> xinv w' \<and> content w' = (content w)(eid \<mapsto> buf)) \<and>
         (\<exists>w'. ec_flush eid w = Some w' \<and> xinv w' \<and> extents (cache (xclient w')) eid = None \<and>
            extents (xserver w') eid = content w' eid \<and>
            content w' = (if eid \<in> set (removed_extents (xclient w)) then (content w)(eid := None) else content w))"
  using ec_get_spec [OF assms, of eid] ec_put_spec [OF assms(1), of eid buf] ec_flush_spec [OF assms, of eid] by blast

definition demo_world :: xworld where
  "demo_world = \<lparr>xclient = extent_client_new,
     xserver = \<lparr>extents = [1 \<mapsto> ''old''], extent_attrs = [1 \<mapsto> \<lparr>atime = 5, mtime = 5, ctime = 5, asize = 3\<rparr>]\<rparr>,
     xup = True, xnow = 9, xtid = 0\<rparr>"

lemma demo_world_inv: "xinv demo_world" "xup demo_world" "content demo_world = [1 \<mapsto> ''old'']"
  by (simp_all add: xinv_def cache_inv_def server_inv_def idle_def demo_world_def extent_client_new_def
      extent_server_new_def content_def)

theorem extent_client_refines_witness:
  "(\<exists>w'. ec_get 1 demo_world = Some ((ex_OK, Some ''old''), w') \<and> content w' = [1 \<mapsto> ''old'']) \<and>
   (\<exists>w'. ec_put 1 ''new'' demo_world = Some (ex_OK, w') \<and> content w' = [1 \<mapsto> ''new''])"
  using extent_client_refines [OF demo_world_inv(1,2), of 1 "''new''"] demo_world_inv(3) by auto

text \<open>
  C17. Write-back is visible: after one client has put an extent and flushed it, every client that reaches
  the same server and has no copy of its own gets exactly that content.
\<close>

theorem flushed_visible:
  assumes "xinv w" and "xup w" and "ec_put eid buf w = Some (r, w1)" and "ec_flush eid w1 = Some w2"
    and "xinv w'" and "xup w'" and "xserver w' = xserver w2" and "extents (cache (xclient w')) eid = None"
  shows "\<exists>w''. ec_get eid w' = Some ((ex_OK, Some buf), w'')"
proof -
  have 1: "xinv w1" "xup w1" "content w1 eid = Some buf" "extents (cache (xclient w1)) eid = Some buf"
    using ec_put_spec [OF assms(1), of eid buf] assms(2,3) by auto
  have "eid \<notin> set (removed_extents (xclient w1))"
    using 1(1) cache_inv_dom(1) [OF xinv_simps(1) [OF 1(1)], of eid] 1(4) by (auto simp: xinv_def cache_inv_def)
  then have "extents (xserver w2) eid = Some buf"
    using ec_flush_spec [OF 1(1,2), of eid] assms(4) 1(3) by auto
  then have "content w' eid = Some buf"
    using assms(7,8) by (simp add: content_def map_add_Some_iff)
  then show ?thesis using ec_get_spec [OF assms(5,6), of eid] by auto
qed


theorem flushed_visible_witness:
  "\<exists>w1 w2. ec_put 1 ''new'' demo_world = Some (ex_OK, w1) \<and> ec_flush 1 w1 = Some w2 \<and>
     (\<exists>w''. ec_get 1 (demo_world\<lparr>xserver := xserver w2\<rparr>) = Some ((ex_OK, Some ''new''), w''))"
proof -
  obtain w1 where w1: "ec_put 1 ''new'' demo_world = Some (ex_OK, w1)" "xinv w1" "xup w1"
    using ec_put_spec [OF demo_world_inv(1), of 1 "''new''"] demo_world_inv(2) by auto
  obtain w2 where w2: "ec_flush 1 w1 = Some w2" "xinv w2" using ec_flush_spec [OF w1(2,3), of 1] by auto
  have "xinv (demo_world\<lparr>xserver := xserver w2\<rparr>)"
    using w2(2) demo_world_inv(1) by (simp add: xinv_def idle_def)
  then show ?thesis
    using w1(1) w2(1) flushed_visible [OF demo_world_inv(1,2) w1(1) w2(1)]
    by (auto simp: demo_world_def extent_client_new_def extent_server_new_def)
qed

text \<open>
  C28. The size a client reports for an extent it has put is the length of the content, modulo \<open>2 ^ 32\<close>,
  and its three times are the time of the put.
\<close>

theorem put_then_getattr:
  assumes "xinv w" and "xup w" and "ec_put eid buf w = Some (r, w1)"
  shows "\<exists>w2. ec_getattr eid w1 =
    Some ((ex_OK, Some \<lparr>atime = xnow w, mtime = xnow w, ctime = xnow w, asize = of_nat (length buf)\<rparr>), w2)"
proof -
  have 1: "xinv w1" "xup w1" "content w1 eid = Some buf" "extents (cache (xclient w1)) eid = Some buf"
    "attr_view w1 eid = Some \<lparr>atime = xnow w, mtime = xnow w, ctime = xnow w, asize = of_nat (length buf)\<rparr>"
    using ec_put_spec [OF assms(1), of eid buf] assms(2,3) by (auto simp: attr_view_def)
  show ?thesis using ec_getattr_spec [OF 1(1,2), of eid] 1(3-5) by auto
qed

theorem put_then_getattr_witness:
  "\<exists>w1 w2. ec_put 1 ''abcd'' demo_world = Some (ex_OK, w1) \<and>
     ec_getattr 1 w1 = Some ((ex_OK, Some \<lparr>atime = 9, mtime = 9, ctime = 9, asize = 4\<rparr>), w2)"
proof -
  obtain w1 where w1: "ec_put 1 ''abcd'' demo_world = Some (ex_OK, w1)"
    using ec_put_spec [OF demo_world_inv(1), of 1 "''abcd''"] by auto
  show ?thesis using w1 put_then_getattr [OF demo_world_inv(1,2) w1] by (auto simp: demo_world_def)
qed

text \<open>
  C29. A removed extent comes back: \<^verbatim>\<open>remove\<close> only drops the cached copy and notes the removal, so a
  \<^verbatim>\<open>get\<close> before the next flush fetches the old content from the server, cancels the removal and
  caches the extent as modified; the flush then writes the removed extent back.
\<close>

theorem removed_extent_reappears:
  assumes "xinv w" and "xup w" and "extents (cache (xclient w)) eid \<noteq> None" and "extents (xserver w) eid = Some old"
  shows "\<exists>w1 w2 w3. ec_remove eid w = Some (ex_OK, w1) \<and> ec_get eid w1 = Some ((ex_OK, Some old), w2) \<and>
           ec_flush eid w2 = Some w3 \<and> extents (xserver w3) eid = Some old"
proof -
  obtain w1 where w1: "ec_remove eid w = Some (ex_OK, w1)" "xinv w1" "xup w1" "content w1 eid = Some old"
    "extents (cache (xclient w1)) eid = None"
    using ec_remove_spec [OF assms(1), of eid] assms(2-4) by auto
  obtain w2 where w2: "ec_get eid w1 = Some ((ex_OK, Some old), w2)" "xinv w2" "xup w2" "content w2 eid = Some old"
    "extents (cache (xclient w2)) eid = Some old"
    using ec_get_spec [OF w1(2,3), of eid] w1(4) by auto
  then have "eid \<notin> set (removed_extents (xclient w2))"
    using cache_inv_dom(1) [OF xinv_simps(1) [OF w2(2)], of eid] w2(2) by (auto simp: xinv_def cache_inv_def)
  then show ?thesis using w1(1) w2 ec_flush_spec [OF w2(2,3), of eid] by auto
qed


theorem removed_extent_reappears_witness:
  "\<exists>w w1 w2 w3. ec_put 1 ''new'' demo_world = Some (ex_OK, w) \<and> ec_remove 1 w = Some (ex_OK, w1) \<and>
     ec_get 1 w1 = Some ((ex_OK, Some ''old''), w2) \<and> ec_flush 1 w2 = Some w3 \<and> extents (xserver w3) 1 = Some ''old''"
proof -
  obtain w where w: "ec_put 1 ''new'' demo_world = Some (ex_OK, w)" "xinv w" "xup w" "extents (cache (xclient w)) 1 \<noteq> None"
    using ec_put_spec [OF demo_world_inv(1), of 1 "''new''"] demo_world_inv(2) by auto
  have "xserver w = xserver demo_world"
    using w(1) by (simp add: ec_put_def put_thread_idle [OF xinv_simps(3) [OF demo_world_inv(1)]] es_put_def Let_def
        unlock_mutex_and_deque_thread_def) auto
  then have "extents (xserver w) 1 = Some ''old''" by (simp add: demo_world_def)
  from removed_extent_reappears [OF w(2-4) this] w(1) show ?thesis by blast
qed

end
