(* ===== verification/Yfs_Client.thy ===== *)
theory Yfs_Client
  imports Extent Stdcxx
begin

text \<open>
  The file system of \<^verbatim>\<open>yfs_client.h\<close> and \<^verbatim>\<open>yfs_client.cc\<close>: files and directories are extents, a
  directory's extent is the text of its entries, one line \<^verbatim>\<open>inum name\<close> per entry. Each operation takes
  the locks of the extents it works on and goes through the extent client.

  The world adds to the extent client's the locks the calling thread holds and, for the lock
  discipline, the extents it touched without holding their lock. A thread that acquires a lock it holds
  sleeps for ever; that, a wait in the extent client, a thrown exception and undefined behaviour
  are \<^const>\<open>None\<close>. Values the program never initialises are parameters named \<open>junk\<close>.
\<close>

section \<open>World\<close>

type_synonym inum = u64

record yworld =
  yx :: xworld
  held :: "inum list"
  unlocked :: "inum list"

definition lc_acquire :: "inum \<Rightarrow> yworld \<Rightarrow> yworld option" where
  "lc_acquire l y = (if l \<in> set (held y) then None else Some (y\<lparr>held := l # held y\<rparr>))"

definition lc_release :: "inum \<Rightarrow> yworld \<Rightarrow> yworld" where
  "lc_release l y = y\<lparr>held := remove1 l (held y)\<rparr>"

definition touch :: "inum \<Rightarrow> yworld \<Rightarrow> yworld" where
  "touch eid y = (if eid \<in> set (held y) then y else y\<lparr>unlocked := unlocked y @ [eid]\<rparr>)"

definition y_get :: "inum \<Rightarrow> yworld \<Rightarrow> ((int \<times> string option) \<times> yworld) option" where
  "y_get eid y = do { (r, x) \<leftarrow> ec_get eid (yx y); Some (r, (touch eid y)\<lparr>yx := x\<rparr>) }"

definition y_getattr :: "inum \<Rightarrow> yworld \<Rightarrow> ((int \<times> attr option) \<times> yworld) option" where
  "y_getattr eid y = do { (r, x) \<leftarrow> ec_getattr eid (yx y); Some (r, (touch eid y)\<lparr>yx := x\<rparr>) }"

definition y_put :: "inum \<Rightarrow> string \<Rightarrow> yworld \<Rightarrow> (int \<times> yworld) option" where
  "y_put eid b y = do { (r, x) \<leftarrow> ec_put eid b (yx y); Some (r, (touch eid y)\<lparr>yx := x\<rparr>) }"

definition y_remove :: "inum \<Rightarrow> yworld \<Rightarrow> (int \<times> yworld) option" where
  "y_remove eid y = do { (r, x) \<leftarrow> ec_remove eid (yx y); Some (r, (touch eid y)\<lparr>yx := x\<rparr>) }"

section \<open>Inode numbers\<close>

definition isfile :: "inum \<Rightarrow> bool" where
  "isfile i \<longleftrightarrow> i AND 0x80000000 \<noteq> 0"

definition isdir :: "inum \<Rightarrow> bool" where
  "isdir i \<longleftrightarrow> \<not> isfile i"

definition n2i :: "inum \<Rightarrow> string \<Rightarrow> inum" where
  "n2i junk n = snd (get_unsigned (istringstream n) junk)"

definition filename :: "inum \<Rightarrow> string" where
  "filename i = show_word i"

text \<open>
  The successive values of \<^verbatim>\<open>dis(gen)\<close> are an argument; \<^const>\<open>None\<close> on the empty list means that the
  function draws again and again.
\<close>

fun generate_unique_inum :: "bool \<Rightarrow> u32 list \<Rightarrow> yworld \<Rightarrow> (inum \<times> yworld) option" where
  "generate_unique_inum is_file [] y = None"
| "generate_unique_inum is_file (r # rs) y =
     (let rand_id = ucast (if is_file then 0x80000000 OR r else r) in
      do { ((ret, buf), y1) \<leftarrow> y_get rand_id y;
           if ret = ex_OK then generate_unique_inum is_file rs y1 else Some (rand_id, y1) })"

section \<open>Attributes\<close>

record fileinfo =
  fi_size :: u64
  fi_atime :: u64
  fi_mtime :: u64
  fi_ctime :: u64

record dirinfo =
  di_atime :: u64
  di_mtime :: u64
  di_ctime :: u64

definition getfile :: "inum \<Rightarrow> yworld \<Rightarrow> ((int \<times> fileinfo option) \<times> yworld) option" where
  "getfile i y =
     do { y1 \<leftarrow> lc_acquire i y;
          ((ret, a), y2) \<leftarrow> y_getattr i y1;
          if ret \<noteq> ex_OK then Some ((ex_IOERR, None), lc_release i y2)
          else do { a \<leftarrow> a;
                    Some ((ex_OK, Some \<lparr>fi_size = ucast (asize a), fi_atime = ucast (atime a),
                                         fi_mtime = ucast (mtime a), fi_ctime = ucast (ctime a)\<rparr>), lc_release i y2) } }"

definition getdir :: "inum \<Rightarrow> yworld \<Rightarrow> ((int \<times> dirinfo option) \<times> yworld) option" where
  "getdir i y =
     do { y1 \<leftarrow> lc_acquire i y;
          ((ret, a), y2) \<leftarrow> y_getattr i y1;
          if ret \<noteq> ex_OK then Some ((ex_IOERR, None), lc_release i y2)
          else do { a \<leftarrow> a;
                    Some ((ex_OK, Some \<lparr>di_atime = ucast (atime a), di_mtime = ucast (mtime a),
                                         di_ctime = ucast (ctime a)\<rparr>), lc_release i y2) } }"

section \<open>Directories\<close>

text \<open>The loops over the text of a directory; every round consumes a part of the stream.\<close>

function lookup_loop :: "string \<Rightarrow> inum \<Rightarrow> istream \<Rightarrow> inum" where
  "lookup_loop name file_inum ist =
     (let (ist1, file_inum1) = get_unsigned ist file_inum; (ist2, file_name) = get_token ist1 '''' in
      if is_fail ist2 then 0
      else if file_name = name then file_inum1
      else lookup_loop name file_inum1 ist2)"
  by pat_completeness auto

function read_entries :: "istream \<Rightarrow> (string \<times> string) list" where
  "read_entries ist =
     (let (ist1, file_inum) = get_token ist ''''; (ist2, file_name) = get_token ist1 '''' in
      if is_fail ist2 then [] else (file_inum, file_name) # read_entries ist2)"
  by pat_completeness auto

termination lookup_loop
proof (relation "measure (\<lambda>(name, i, ist). length (is_buf ist))")
  fix name :: string and i :: inum and ist x ist1 i1 xa ist2 fn
  assume "x = get_unsigned ist i" "(ist1, i1) = x" "xa = get_token ist1 ''''" "(ist2, fn) = xa" "\<not> is_fail ist2"
  then show "((name, i1, ist2), name, i, ist) \<in> measure (\<lambda>(name, i, ist). length (is_buf ist))"
    using get_token_consumes [of ist1 "''''" ist2 fn] get_unsigned_le [of ist i]
    by (metis (no_types, lifting) case_prod_conv fst_conv in_measure order_less_le_trans)
qed simp

termination read_entries
proof (relation "measure (\<lambda>ist. length (is_buf ist))")
  fix ist x ist1 fi xa ist2 fn
  assume "x = get_token ist ''''" "(ist1, fi) = x" "xa = get_token ist1 ''''" "(ist2, fn) = xa" "\<not> is_fail ist2"
  then show "(ist2, ist) \<in> measure (\<lambda>ist. length (is_buf ist))"
    using get_token_consumes [of ist1 "''''" ist2 fn] get_token_le [of ist "''''"]
    by (metis fst_conv in_measure order_less_le_trans)
qed simp

declare lookup_loop.simps [simp del] read_entries.simps [simp del]


definition ilookup :: "inum \<Rightarrow> inum \<Rightarrow> string \<Rightarrow> yworld \<Rightarrow> (inum \<times> yworld) option" where
  "ilookup junk di name y =
     do { y1 \<leftarrow> lc_acquire di y;
          if \<not> isdir di then Some (0, lc_release di y1)
          else do { ((ret, buf), y2) \<leftarrow> y_get di y1;
                    if ret \<noteq> ex_OK then Some (0, lc_release di y2)
                    else do { b \<leftarrow> buf; Some (lookup_loop name junk (istringstream b), lc_release di y2) } } }"

definition dir_line :: "inum \<Rightarrow> string \<Rightarrow> string" where
  "dir_line i name = show_word i @ '' '' @ name @ [newline]"

text \<open>
  \<^verbatim>\<open>add_entry_to_filesystem\<close>; the result carries the status and, where the code sets it, the new inode.
\<close>

definition add_entry_to_filesystem ::
  "u32 list \<Rightarrow> inum \<Rightarrow> string \<Rightarrow> bool \<Rightarrow> yworld \<Rightarrow> ((int \<times> inum option) \<times> yworld) option" where
  "add_entry_to_filesystem rs parent name is_file y =
     do { y1 \<leftarrow> lc_acquire parent y;
          ((ret, buf), y2) \<leftarrow> y_get parent y1;
          if ret \<noteq> ex_OK then Some ((ret, None), lc_release parent y2)
          else do { b \<leftarrow> buf;
                   (entry_inum, y3) \<leftarrow> generate_unique_inum is_file rs y2;
                   y4 \<leftarrow> lc_acquire entry_inum y3;
                   (ret1, y5) \<leftarrow> y_put parent (b @ dir_line entry_inum name) y4;
                   (ret2, y6) \<leftarrow> (if ret1 \<noteq> ex_OK then Some (ret1, y5) else y_put entry_inum '''' y5);
                   Some ((ret2, Some entry_inum), lc_release parent (lc_release entry_inum y6)) } }"

definition createfile :: "u32 list \<Rightarrow> inum \<Rightarrow> string \<Rightarrow> yworld \<Rightarrow> ((int \<times> inum option) \<times> yworld) option" where
  "createfile rs parent name y = add_entry_to_filesystem rs parent name True y"

definition makedir :: "u32 list \<Rightarrow> inum \<Rightarrow> string \<Rightarrow> yworld \<Rightarrow> ((int \<times> inum option) \<times> yworld) option" where
  "makedir rs parent name y = add_entry_to_filesystem rs parent name False y"

record dirent =
  de_name :: string
  de_inum :: inum

definition readdir :: "inum \<Rightarrow> inum \<Rightarrow> yworld \<Rightarrow> ((int \<times> dirent list) \<times> yworld) option" where
  "readdir junk dir y =
     do { y1 \<leftarrow> lc_acquire dir y;
          ((ret, buf), y2) \<leftarrow> y_get dir y1;
          if ret \<noteq> ex_OK then Some ((ret, []), lc_release dir y2)
          else do { b \<leftarrow> buf;
                    Some ((ret, map (\<lambda>(i, n). \<lparr>de_name = n, de_inum = n2i junk i\<rparr>) (read_entries (istringstream b))),
                          lc_release dir y2) } }"

text \<open>
  \<^verbatim>\<open>unlink\<close>: \<open>junk\<close> is what the uninitialised \<^verbatim>\<open>finum\<close> of \<^verbatim>\<open>n2i\<close> holds. When the parent cannot be read,
  the code releases the lock of an uninitialised inode number.
\<close>

definition unlink :: "inum \<Rightarrow> inum \<Rightarrow> string \<Rightarrow> yworld \<Rightarrow> (int \<times> yworld) option" where
  "unlink junk parent name y =
     do { y1 \<leftarrow> lc_acquire parent y;
          ((ret, buf), y2) \<leftarrow> y_get parent y1;
          if ret \<noteq> ex_OK then None
          else do { b \<leftarrow> buf;
                   let es = read_entries (istringstream b);
                   let out = concat (map (\<lambda>(i, n). i @ '' '' @ n @ [newline]) (filter (\<lambda>e. snd e \<noteq> name) es));
                   let hits = map fst (filter (\<lambda>e. snd e = name) es);
                   let inum_to_remove = n2i junk (if hits = [] then '''' else last hits);
                   y3 \<leftarrow> lc_acquire inum_to_remove y2;
                   (ret1, y4) \<leftarrow> y_put parent out y3;
                   (ret2, y5) \<leftarrow> (if ret1 \<noteq> ex_OK then Some (ret1, y4) else y_remove inum_to_remove y4);
                   Some (ret2, lc_release parent (lc_release inum_to_remove y5)) } }"

section \<open>Files\<close>

text \<open>\<^verbatim>\<open>std::string::resize\<close>; a size beyond \<^verbatim>\<open>max_size()\<close> throws.\<close>

definition resize :: "u64 \<Rightarrow> string \<Rightarrow> string option" where
  "resize n s =
     (if unat n > 2 ^ 63 - 1 then None
      else Some (take (unat n) s @ replicate (unat n - length s) (char_of (0::nat))))"

definition setsize :: "inum \<Rightarrow> u64 \<Rightarrow> yworld \<Rightarrow> (int \<times> yworld) option" where
  "setsize i sz y =
     do { y1 \<leftarrow> lc_acquire i y;
          ((ret, buf), y2) \<leftarrow> y_get i y1;
          if ret \<noteq> ex_OK then Some (ret, lc_release i y2)
          else do { b \<leftarrow> buf;
                    b' \<leftarrow> resize sz b;
                    (ret1, y3) \<leftarrow> y_put i b' y2;
                    Some (ret1, lc_release i y3) } }"

text \<open>
  \<^verbatim>\<open>write\<close>: \<open>data\<close> is the memory \<^verbatim>\<open>buf\<close> points to. The offset is compared and added as an unsigned 64-bit
  number, so the sum may wrap; the copy is undefined when it leaves the file's buffer.
\<close>

definition overwrite :: "string \<Rightarrow> nat \<Rightarrow> string \<Rightarrow> string" where
  "overwrite b off data = take off b @ data @ drop (off + length data) b"

definition write_file ::
  "inum \<Rightarrow> string \<Rightarrow> u64 \<Rightarrow> u64 \<Rightarrow> yworld \<Rightarrow> ((int \<times> u64 option) \<times> yworld) option" where
  "write_file i data sz off y =
     do { y1 \<leftarrow> lc_acquire i y;
          ((ret, buf), y2) \<leftarrow> y_get i y1;
          if ret \<noteq> ex_OK then Some ((ret, None), lc_release i y2)
          else do { b \<leftarrow> buf;
                   b1 \<leftarrow> (if unat (off + sz) > length b then resize (off + sz) b else Some b);
                   b2 \<leftarrow> (if unat off + unat sz \<le> length b1 \<and> unat sz \<le> length data
                          then Some (overwrite b1 (unat off) (take (unat sz) data)) else None);
                   (ret1, y3) \<leftarrow> y_put i b2 y2;
                   Some ((ret1, if ret1 \<noteq> ex_OK then None else Some sz), lc_release i y3) } }"

definition read_file :: "inum \<Rightarrow> u64 \<Rightarrow> u64 \<Rightarrow> yworld \<Rightarrow> ((int \<times> string option) \<times> yworld) option" where
  "read_file i sz off y =
     do { y1 \<leftarrow> lc_acquire i y;
          ((ret, buf), y2) \<leftarrow> y_get i y1;
          if ret \<noteq> ex_OK then Some ((ret, None), lc_release i y2)
          else do { b \<leftarrow> buf;
                    Some (if unat off \<ge> length b then ((ex_OK, Some ''''), lc_release i y2)
                          else let n = (if unat (off + sz) > length b then length b - unat off else unat sz)
                               in ((ret, Some (take n (drop (unat off) b))), lc_release i y2)) } }"

text \<open>The constructor creates the root directory when it is missing.\<close>

definition yfs_client_new :: "yworld \<Rightarrow> yworld option" where
  "yfs_client_new y =
     do { y1 \<leftarrow> lc_acquire 1 y;
          ((ret, buf), y2) \<leftarrow> y_get 1 y1;
          y3 \<leftarrow> (if ret = ex_NOENT then map_option snd (y_put 1 '''' y2) else Some y2);
          Some (lc_release 1 y3) }"

section \<open>The store seen through the locks\<close>

definition ycontent :: "yworld \<Rightarrow> inum \<rightharpoonup> string" where
  "ycontent y = content (yx y)"

definition ready :: "yworld \<Rightarrow> bool" where
  "ready y \<longleftrightarrow> xinv (yx y) \<and> xup (yx y)"

lemma touch_simps [simp]: "yx (touch eid y) = yx y" "held (touch eid y) = held y"
  by (simp_all add: touch_def)

lemma touch_held: "eid \<in> set (held y) \<Longrightarrow> touch eid y = y"
  by (simp add: touch_def)

interpretation yst: extent_store ycontent ready y_get y_put
proof
  show "\<exists>y'. y_get eid y = Some (found (ycontent y eid), y') \<and> ready y' \<and> ycontent y' = ycontent y"
    if "ready y" for y eid
    using ec.get_spec [of "yx y" eid] that by (auto simp: y_get_def ready_def ycontent_def)
  show "\<exists>y'. y_put eid b y = Some (ex_OK, y') \<and> ready y' \<and> ycontent y' = (ycontent y)(eid \<mapsto> b)"
    if "ready y" for y eid b
    using ec.put_spec [of "yx y" eid b] that by (auto simp: y_put_def ready_def ycontent_def)
qed


section \<open>Directory text\<close>

definition render :: "(inum \<times> string) list \<Rightarrow> string" where
  "render es = concat (map (\<lambda>(i, n). dir_line i n) es)"

definition names_ok :: "(inum \<times> string) list \<Rightarrow> bool" where
  "names_ok es \<longleftrightarrow> (\<forall>e\<in>set es. token (snd e))"

lemma render_simps [simp]:
  "render [] = []" "render ((i, n) # es) = show_word i @ CHR '' '' # n @ newline # render es"
  "render (es @ fs) = render es @ render fs"
  by (simp_all add: render_def dir_line_def)

lemma names_ok_simps [simp]:
  "names_ok []" "names_ok (e # es) \<longleftrightarrow> token (snd e) \<and> names_ok es" "names_ok (es @ fs) \<longleftrightarrow> names_ok es \<and> names_ok fs"
  by (auto simp: names_ok_def)

text \<open>White space in front of the text, such as the end of the line before, is skipped.\<close>

lemma read_entries_skip:
  "isspace c \<Longrightarrow> read_entries \<lparr>is_buf = c # s, is_fail = False\<rparr> = read_entries \<lparr>is_buf = s, is_fail = False\<rparr>"
  by (subst (1 2) read_entries.simps) (simp add: get_token_skip)

lemma lookup_loop_skip:
  "isspace c \<Longrightarrow> lookup_loop n i \<lparr>is_buf = c # s, is_fail = False\<rparr> = lookup_loop n i \<lparr>is_buf = s, is_fail = False\<rparr>"
  by (subst (1 2) lookup_loop.simps) (simp add: get_unsigned_skip)

lemma read_entries_render:
  "names_ok es \<Longrightarrow> read_entries \<lparr>is_buf = render es, is_fail = False\<rparr> = map (\<lambda>(i, n). (show_word i, n)) es"
proof (induction es)
  case Nil
  show ?case by (subst read_entries.simps) (simp add: get_token_blank get_token_def)
next
  case (Cons e es)
  obtain i n where e: "e = (i, n)" by fastforce
  have n: "token n" using Cons.prems e by simp
  have "get_token \<lparr>is_buf = show_word i @ CHR '' '' # n @ newline # render es, is_fail = False\<rparr> '''' =
      (\<lparr>is_buf = CHR '' '' # n @ newline # render es, is_fail = False\<rparr>, show_word i)"
    by (simp add: get_token_token)
  moreover have "get_token \<lparr>is_buf = CHR '' '' # n @ newline # render es, is_fail = False\<rparr> '''' =
      (\<lparr>is_buf = newline # render es, is_fail = False\<rparr>, n)"
    using n by (simp add: get_token_skip get_token_token)
  ultimately show ?case
    using Cons by (subst read_entries.simps) (simp add: e read_entries_skip)
qed

lemma lookup_loop_render:
  "names_ok es \<Longrightarrow> lookup_loop name junk \<lparr>is_buf = render es, is_fail = False\<rparr> =
     (case find (\<lambda>e. snd e = name) es of None \<Rightarrow> 0 | Some e \<Rightarrow> fst e)"
proof (induction es arbitrary: junk)
  case Nil
  show ?case by (subst lookup_loop.simps) (simp add: get_token_def get_unsigned_def)
next
  case (Cons e es)
  obtain i n where e: "e = (i, n)" by fastforce
  have n: "token n" using Cons.prems e by simp
  have sp: "\<not> isdigit (CHR '' '')" by (simp add: isdigit_def)
  have "get_unsigned \<lparr>is_buf = show_word i @ CHR '' '' # n @ newline # render es, is_fail = False\<rparr> junk =
      (\<lparr>is_buf = CHR '' '' # n @ newline # render es, is_fail = False\<rparr>, i)"
    using get_unsigned_show_word [OF sp] by blast
  moreover have "get_token \<lparr>is_buf = CHR '' '' # n @ newline # render es, is_fail = False\<rparr> '''' =
      (\<lparr>is_buf = newline # render es, is_fail = False\<rparr>, n)"
    using n by (simp add: get_token_skip get_token_token)
  ultimately show ?case
    using Cons by (subst lookup_loop.simps) (simp add: e lookup_loop_skip)
qed

lemma n2i_show_word [simp]: "n2i junk (show_word i) = i"
  by (simp add: n2i_def istringstream_def get_unsigned_show_word_end)


section \<open>Operations on a ready world\<close>

lemma held_upd [simp]:
  "ready (y\<lparr>held := h\<rparr>) = ready y" "ycontent (y\<lparr>held := h\<rparr>) = ycontent y"
  "ready (lc_release l y) = ready y" "ycontent (lc_release l y) = ycontent y"
  "held (lc_release l y) = remove1 l (held y)" "unlocked (lc_release l y) = unlocked y"
  by (simp_all add: ready_def ycontent_def lc_release_def)

lemma lc_acquire_fresh: "l \<notin> set (held y) \<Longrightarrow> lc_acquire l y = Some (y\<lparr>held := l # held y\<rparr>)"
  by (simp add: lc_acquire_def)

lemma store_frames:
  "y_get eid y = Some (r, y') \<Longrightarrow> held y' = held y \<and> unlocked y' = unlocked (touch eid y)"
  "y_getattr eid y = Some (ra, y') \<Longrightarrow> held y' = held y \<and> unlocked y' = unlocked (touch eid y)"
  "y_put eid b y = Some (rp, y') \<Longrightarrow> held y' = held y \<and> unlocked y' = unlocked (touch eid y)"
  "y_remove eid y = Some (rp, y') \<Longrightarrow> held y' = held y \<and> unlocked y' = unlocked (touch eid y)"
  by (auto simp: y_get_def y_getattr_def y_put_def y_remove_def bind_eq_Some_conv)

text \<open>A get under a lock just taken.\<close>

lemma locked_getE:
  assumes "ready y" and "i \<notin> set (held y)"
  obtains y2 where "y_get i (y\<lparr>held := i # held y\<rparr>) = Some (found (ycontent y i), y2)" and "ready y2"
    and "ycontent y2 = ycontent y" and "held y2 = i # held y" and "unlocked y2 = unlocked y"
proof -
  have "ready (y\<lparr>held := i # held y\<rparr>)" using assms(1) by simp
  then obtain y2 where g: "y_get i (y\<lparr>held := i # held y\<rparr>) = Some (found (ycontent (y\<lparr>held := i # held y\<rparr>) i), y2)"
    "ready y2" "ycontent y2 = ycontent (y\<lparr>held := i # held y\<rparr>)"
    by (rule yst.getE)
  moreover have "held y2 = i # held y \<and> unlocked y2 = unlocked y"
    using store_frames(1) [OF g(1)] by (simp add: touch_held)
  ultimately show ?thesis using that by simp
qed

lemma locked_putE:
  assumes "ready y" and "i \<in> set (held y)"
  obtains y2 where "y_put i b y = Some (ex_OK, y2)" and "ready y2" and "ycontent y2 = (ycontent y)(i \<mapsto> b)"
    and "held y2 = held y" and "unlocked y2 = unlocked y"
proof -
  from assms(1) obtain y2 where g: "y_put i b y = Some (ex_OK, y2)" "ready y2" "ycontent y2 = (ycontent y)(i \<mapsto> b)"
    by (rule yst.putE)
  then show ?thesis using that store_frames(3) [OF g(1)] assms(2) by (simp add: touch_held)
qed

lemma read_file_spec:
  assumes "ready y" and "i \<notin> set (held y)" and "ycontent y i = Some b"
  shows "\<exists>y'. read_file i sz off y =
           Some ((ex_OK, Some (if unat off \<ge> length b then ''''
              else take (if unat (off + sz) > length b then length b - unat off else unat sz) (drop (unat off) b))), y') \<and>
         ready y' \<and> ycontent y' = ycontent y \<and> held y' = held y \<and> unlocked y' = unlocked y"
proof -
  from assms(1,2) obtain y2 where "y_get i (y\<lparr>held := i # held y\<rparr>) = Some (found (ycontent y i), y2)" "ready y2"
    "ycontent y2 = ycontent y" "held y2 = i # held y" "unlocked y2 = unlocked y"
    by (rule locked_getE)
  then show ?thesis using assms by (simp add: read_file_def lc_acquire_fresh Let_def)
qed

lemma resize_Some:
  "unat n < 2 ^ 63 \<Longrightarrow> resize n s = Some (take (unat n) s @ replicate (unat n - length s) (char_of (0::nat)))"
  by (simp add: resize_def)

lemma setsize_spec:
  assumes "ready y" and "i \<notin> set (held y)" and "ycontent y i = Some b" and "unat sz < 2 ^ 63"
  shows "\<exists>y'. setsize i sz y = Some (ex_OK, y') \<and> ready y' \<and> held y' = held y \<and> unlocked y' = unlocked y \<and>
           ycontent y' = (ycontent y)(i \<mapsto> take (unat sz) b @ replicate (unat sz - length b) (char_of (0::nat)))"
proof -
  from assms(1,2) obtain y2 where g: "y_get i (y\<lparr>held := i # held y\<rparr>) = Some (found (ycontent y i), y2)" "ready y2"
    "ycontent y2 = ycontent y" "held y2 = i # held y" "unlocked y2 = unlocked y"
    by (rule locked_getE)
  let ?b = "take (unat sz) b @ replicate (unat sz - length b) (char_of (0::nat))"
  have "i \<in> set (held y2)" using g(4) by simp
  with g(2) obtain y3 where "y_put i ?b y2 = Some (ex_OK, y3)" "ready y3" "ycontent y3 = (ycontent y2)(i \<mapsto> ?b)"
    "held y3 = held y2" "unlocked y3 = unlocked y2"
    by (rule locked_putE)
  then show ?thesis using g assms by (simp add: setsize_def lc_acquire_fresh resize_Some)
qed

lemma unat_add_small: "unat (a :: u64) + unat b < 2 ^ 63 \<Longrightarrow> unat (a + b) = unat a + unat b"
  by (simp add: unat_word_ariths)

lemma length_overwrite: "off + length d \<le> length b \<Longrightarrow> length (overwrite b off d) = length b"
  by (simp add: overwrite_def)

lemma nth_overwrite:
  "off + length d \<le> length b \<Longrightarrow> k < length b \<Longrightarrow>
     overwrite b off d ! k = (if off \<le> k \<and> k < off + length d then d ! (k - off) else b ! k)"
  by (auto simp: overwrite_def nth_append min_absorb2)

lemma write_file_spec:
  assumes "ready y" and "i \<notin> set (held y)" and "ycontent y i = Some b" and "unat off + unat sz < 2 ^ 63"
    and "length data = unat sz"
  shows "\<exists>y'. write_file i data sz off y = Some ((ex_OK, Some sz), y') \<and> ready y' \<and> held y' = held y \<and>
           unlocked y' = unlocked y \<and>
           ycontent y' = (ycontent y)(i \<mapsto>
             overwrite (b @ replicate (unat off + unat sz - length b) (char_of (0::nat))) (unat off) data)"
proof -
  from assms(1,2) obtain y2 where g: "y_get i (y\<lparr>held := i # held y\<rparr>) = Some (found (ycontent y i), y2)" "ready y2"
    "ycontent y2 = ycontent y" "held y2 = i # held y" "unlocked y2 = unlocked y"
    by (rule locked_getE)
  note sum = unat_add_small [OF assms(4)]
  let ?b1 = "b @ replicate (unat off + unat sz - length b) (char_of (0::nat))"
  have r: "(if unat (off + sz) > length b then resize (off + sz) b else Some b) = Some ?b1"
    using assms(4) by (simp add: sum resize_Some)
  let ?b2 = "overwrite ?b1 (unat off) data"
  have "i \<in> set (held y2)" using g(4) by simp
  with g(2) obtain y3 where "y_put i ?b2 y2 = Some (ex_OK, y3)" "ready y3" "ycontent y3 = (ycontent y2)(i \<mapsto> ?b2)"
    "held y3 = held y2" "unlocked y3 = unlocked y2"
    by (rule locked_putE)
  then show ?thesis using g r assms by (simp add: write_file_def lc_acquire_fresh)
qed

section \<open>Properties of files\<close>

text \<open>
  C6. Reading back what was written: after a write inside the address range the file holds the data at
  its offset, the bytes before and after it are unchanged, a gap is filled with zero bytes, and a
  read of the same range returns the data; no lock stays behind.
\<close>

theorem write_then_read:
  assumes "ready y" and "i \<notin> set (held y)" and "ycontent y i = Some b" and "unat off + unat sz < 2 ^ 63"
    and "length data = unat sz" and "0 < sz"
  shows "\<exists>y1 y2 b'. write_file i data sz off y = Some ((ex_OK, Some sz), y1) \<and>
           ycontent y1 = (ycontent y)(i \<mapsto> b') \<and> length b' = max (length b) (unat off + unat sz) \<and>
           (\<forall>k < length b'. b' ! k = (if unat off \<le> k \<and> k < unat off + unat sz then data ! (k - unat off)
                                      else if k < length b then b ! k else char_of (0::nat))) \<and>
           read_file i sz off y1 = Some ((ex_OK, Some data), y2) \<and> held y2 = held y"
proof -
  let ?b1 = "b @ replicate (unat off + unat sz - length b) (char_of (0::nat))"
  let ?b' = "overwrite ?b1 (unat off) data"
  from write_file_spec [OF assms(1-5)] obtain y1 where w: "write_file i data sz off y = Some ((ex_OK, Some sz), y1)"
    "ready y1" "held y1 = held y" "ycontent y1 = (ycontent y)(i \<mapsto> ?b')" by blast
  have len: "length ?b' = max (length b) (unat off + unat sz)"
    using assms(5) by (simp add: overwrite_def)
  have pos: "0 < unat sz" using assms(6) by (simp add: word_less_nat_alt)
  have nth: "\<forall>k < length ?b'. ?b' ! k = (if unat off \<le> k \<and> k < unat off + unat sz then data ! (k - unat off)
                                      else if k < length b then b ! k else char_of (0::nat))"
    using assms(5) len by (auto simp: nth_overwrite nth_append)
  have tk: "take (unat sz) (drop (unat off) ?b') = data"
    using assms(5) by (simp add: overwrite_def)
  have "unat (off + sz) \<le> length ?b'" "unat off < length ?b'"
    using len unat_add_small [OF assms(4)] pos by linarith+
  moreover have "i \<notin> set (held y1)" "ycontent y1 i = Some ?b'" using w assms(2) by simp_all
  ultimately obtain y2 where "read_file i sz off y1 = Some ((ex_OK, Some data), y2)" "held y2 = held y"
    using read_file_spec [OF w(2), of i ?b' sz off] tk w(3) by auto
  then show ?thesis using w(1,4) len nth by blast
qed

definition demo_fs :: yworld where
  "demo_fs = \<lparr>yx = demo_world\<lparr>xserver := \<lparr>extents = [1 \<mapsto> '''', 0x80000005 \<mapsto> ''hello''],
       extent_attrs = [1 \<mapsto> \<lparr>atime = 5, mtime = 5, ctime = 5, asize = 0\<rparr>,
                       0x80000005 \<mapsto> \<lparr>atime = 5, mtime = 5, ctime = 5, asize = 5\<rparr>]\<rparr>\<rparr>,
     held = [], unlocked = []\<rparr>"

lemma demo_fs_ready: "ready demo_fs" "held demo_fs = []" "unlocked demo_fs = []"
  "ycontent demo_fs = [1 \<mapsto> '''', 0x80000005 \<mapsto> ''hello'']"
  by (simp_all add: ready_def demo_fs_def demo_world_def ycontent_def content_def xinv_def cache_inv_def server_inv_def
      idle_def extent_client_new_def extent_server_new_def)

theorem write_then_read_witness:
  "\<exists>y1 y2 b'. write_file 0x80000005 ''XY'' 2 7 demo_fs = Some ((ex_OK, Some 2), y1) \<and>
     ycontent y1 0x80000005 = Some b' \<and> length b' = 9 \<and> b' ! 8 = CHR ''Y'' \<and> b' ! 6 = char_of (0::nat) \<and>
     read_file 0x80000005 2 7 y1 = Some ((ex_OK, Some ''XY''), y2)"
proof -
  have "0x80000005 \<notin> set (held demo_fs)" "ycontent demo_fs 0x80000005 = Some ''hello''"
    by (simp_all add: demo_fs_ready)
  from write_then_read [OF demo_fs_ready(1) this, of 7 2 "''XY''"] show ?thesis
    by (fastforce simp: nth_Cons')
qed

text \<open>
  C30. \<^verbatim>\<open>setsize\<close> gives the file the requested length, keeps its first bytes and fills up with zero bytes.
\<close>

theorem setsize_truncates_or_extends:
  assumes "ready y" and "i \<notin> set (held y)" and "ycontent y i = Some b" and "unat sz < 2 ^ 63"
  shows "\<exists>y' b'. setsize i sz y = Some (ex_OK, y') \<and> ycontent y' = (ycontent y)(i \<mapsto> b') \<and> length b' = unat sz \<and>
           (\<forall>k < unat sz. b' ! k = (if k < length b then b ! k else char_of (0::nat))) \<and> held y' = held y"
  using setsize_spec [OF assms] by (fastforce simp: nth_append)

theorem setsize_truncates_or_extends_witness:
  "\<exists>y' b'. setsize 0x80000005 2 demo_fs = Some (ex_OK, y') \<and> ycontent y' 0x80000005 = Some b' \<and> length b' = 2 \<and>
     b' ! 1 = CHR ''e''"
proof -
  have "0x80000005 \<notin> set (held demo_fs)" "ycontent demo_fs 0x80000005 = Some ''hello''"
    by (simp_all add: demo_fs_ready)
  from setsize_truncates_or_extends [OF demo_fs_ready(1) this, of 2] show ?thesis by fastforce
qed

section \<open>Properties of directories\<close>

lemma ilookup_spec:
  assumes "ready y" and "di \<notin> set (held y)" and "isdir di" and "ycontent y di = Some (render es)" and "names_ok es"
  shows "\<exists>y'. ilookup junk di name y = Some (case find (\<lambda>e. snd e = name) es of None \<Rightarrow> 0 | Some e \<Rightarrow> fst e, y') \<and>
           ready y' \<and> ycontent y' = ycontent y \<and> held y' = held y \<and> unlocked y' = unlocked y"
proof -
  from assms(1,2) obtain y2 where "y_get di (y\<lparr>held := di # held y\<rparr>) = Some (found (ycontent y di), y2)" "ready y2"
    "ycontent y2 = ycontent y" "held y2 = di # held y" "unlocked y2 = unlocked y"
    by (rule locked_getE)
  then show ?thesis using assms lookup_loop_render [OF assms(5), of name junk]
    by (simp add: ilookup_def lc_acquire_fresh istringstream_def)
qed

lemma readdir_spec:
  assumes "ready y" and "di \<notin> set (held y)" and "ycontent y di = Some (render es)" and "names_ok es"
  shows "\<exists>y'. readdir junk di y = Some ((ex_OK, map (\<lambda>(i, n). \<lparr>de_name = n, de_inum = i\<rparr>) es), y') \<and>
           ready y' \<and> ycontent y' = ycontent y \<and> held y' = held y \<and> unlocked y' = unlocked y"
proof -
  from assms(1,2) obtain y2 where "y_get di (y\<lparr>held := di # held y\<rparr>) = Some (found (ycontent y di), y2)" "ready y2"
    "ycontent y2 = ycontent y" "held y2 = di # held y" "unlocked y2 = unlocked y"
    by (rule locked_getE)
  moreover have "map (\<lambda>(i, n). \<lparr>de_name = n, de_inum = n2i junk i\<rparr>) (map (\<lambda>(i, n). (show_word i, n)) es) =
      map (\<lambda>(i, n). \<lparr>de_name = n, de_inum = i\<rparr>) es"
    by auto
  ultimately show ?thesis using assms read_entries_render [OF assms(4)]
    by (simp add: readdir_def lc_acquire_fresh istringstream_def del: map_map)
qed

definition drawn :: "bool \<Rightarrow> u32 \<Rightarrow> inum" where
  "drawn is_file r = ucast (if is_file then 0x80000000 OR r else r)"

text \<open>The random number without its top bit decides the kind of the inode.\<close>

lemma isfile_bit: "isfile i \<longleftrightarrow> bit i 31"
  using and_exp_eq_0_iff_not_bit [of i 31] by (simp add: isfile_def)

lemma not_bit_31: "r \<le> 0x7FFFFFFF \<Longrightarrow> \<not> bit (r :: u32) 31"
proof -
  assume "r \<le> 0x7FFFFFFF"
  then have "unat r < 2 ^ 31" by (simp add: word_le_nat_alt)
  then have "\<not> bit (unat r) 31" by (simp add: bit_iff_odd)
  then show ?thesis by (simp add: bit_unsigned_iff)
qed

lemma isfile_drawn: "r \<le> 0x7FFFFFFF \<Longrightarrow> isfile (drawn is_file r) = is_file"
proof -
  assume r: "r \<le> 0x7FFFFFFF"
  have "bit (0x80000000 :: u32) 31" by (simp add: bit_numeral_word_iff bit_numeral_rec)
  then show ?thesis using not_bit_31 [OF r] by (simp add: isfile_bit drawn_def bit_simps)
qed

lemma generate_spec:
  assumes "ready y" and "generate_unique_inum is_file rs y = Some (eid, y')"
  shows "ready y' \<and> ycontent y' = ycontent y \<and> held y' = held y \<and> ycontent y eid = None \<and>
         eid \<in> drawn is_file ` set rs"
  using assms
proof (induction rs arbitrary: y)
  case (Cons r rs)
  let ?id = "drawn is_file r"
  from Cons.prems(1) obtain y1 where g: "y_get ?id y = Some (found (ycontent y ?id), y1)" "ready y1" "ycontent y1 = ycontent y"
    by (rule yst.getE)
  have h: "held y1 = held y" using store_frames(1) [OF g(1)] by simp
  show ?case
  proof (cases "ycontent y ?id")
    case None
    then show ?thesis using Cons.prems(2) g h by (simp add: drawn_def)
  next
    case (Some b)
    then have "generate_unique_inum is_file rs y1 = Some (eid, y')"
      using Cons.prems(2) g by (simp add: drawn_def)
    then show ?thesis using Cons.IH [OF g(2)] g(3) h by simp
  qed
qed simp

lemma generate_total:
  assumes "ready y" and "\<exists>r\<in>set rs. ycontent y (drawn is_file r) = None"
  shows "\<exists>eid y'. generate_unique_inum is_file rs y = Some (eid, y')"
  using assms
proof (induction rs arbitrary: y)
  case (Cons r rs)
  let ?id = "drawn is_file r"
  from Cons.prems(1) obtain y1 where g: "y_get ?id y = Some (found (ycontent y ?id), y1)" "ready y1" "ycontent y1 = ycontent y"
    by (rule yst.getE)
  show ?case
  proof (cases "ycontent y ?id")
    case None
    then show ?thesis using g by (simp add: drawn_def)
  next
    case (Some b)
    then have "\<exists>eid y'. generate_unique_inum is_file rs y1 = Some (eid, y')"
      using Cons g by auto
    then show ?thesis using Some g by (simp add: drawn_def)
  qed
qed simp


lemma add_entry_spec:
  assumes "ready y" and "held y = []" and "ycontent y parent = Some b"
    and "\<exists>r\<in>set rs. ycontent y (drawn is_file r) = None"
  shows "\<exists>eid y'. add_entry_to_filesystem rs parent name is_file y = Some ((ex_OK, Some eid), y') \<and>
           eid \<in> drawn is_file ` set rs \<and> ycontent y eid = None \<and> ready y' \<and> held y' = [] \<and>
           ycontent y' = (ycontent y)(parent \<mapsto> b @ dir_line eid name, eid \<mapsto> '''')"
proof -
  have "parent \<notin> set (held y)" using assms(2) by simp
  with assms(1) obtain y2 where g: "y_get parent (y\<lparr>held := parent # held y\<rparr>) = Some (found (ycontent y parent), y2)"
    "ready y2" "ycontent y2 = ycontent y" "held y2 = parent # held y" "unlocked y2 = unlocked y"
    by (rule locked_getE)
  obtain eid y3 where gen: "generate_unique_inum is_file rs y2 = Some (eid, y3)"
    using generate_total [OF g(2), of rs is_file] assms(4) g(3) by auto
  note gs = generate_spec [OF g(2) gen]
  have ne: "eid \<noteq> parent" using gs assms(3) g(3) by auto
  let ?y4 = "y3\<lparr>held := eid # held y3\<rparr>"
  have a: "lc_acquire eid y3 = Some ?y4" using gs g(4) assms(2) ne by (simp add: lc_acquire_fresh)
  have "ready ?y4" "parent \<in> set (held ?y4)" using gs g(4) by simp_all
  then obtain y5 where p5: "y_put parent (b @ dir_line eid name) ?y4 = Some (ex_OK, y5)" "ready y5"
    "ycontent y5 = (ycontent ?y4)(parent \<mapsto> b @ dir_line eid name)" "held y5 = held ?y4" "unlocked y5 = unlocked ?y4"
    by (rule locked_putE)
  have "eid \<in> set (held y5)" using p5(4) by simp
  with p5(2) obtain y6 where p6: "y_put eid '''' y5 = Some (ex_OK, y6)" "ready y6"
    "ycontent y6 = (ycontent y5)(eid \<mapsto> '''')" "held y6 = held y5" "unlocked y6 = unlocked y5"
    by (rule locked_putE)
  have "lc_acquire parent y = Some (y\<lparr>held := parent # held y\<rparr>)" using assms(2) by (simp add: lc_acquire_fresh)
  then have "add_entry_to_filesystem rs parent name is_file y = Some ((ex_OK, Some eid), lc_release parent (lc_release eid y6))"
    using g(1) gen a p5(1) p6(1) assms(3) by (simp add: add_entry_to_filesystem_def)
  moreover have "ycontent y6 = (ycontent y)(parent \<mapsto> b @ dir_line eid name, eid \<mapsto> '''')"
    using p5(3) p6(3) gs g(3) by simp
  ultimately show ?thesis using gs g(3,4) p5(4) p6(2,4) ne assms(2) by auto
qed

text \<open>
  C8. Creating a file or directory with a new name: it gets an unused inode number of its kind and an
  empty extent, looking up the name finds that inode, every other name is found as before, and
  \<^verbatim>\<open>readdir\<close> lists the old entries followed by the new one.
\<close>

theorem create_then_lookup:
  assumes "ready y" and "held y = []" and "isdir parent" and "ycontent y parent = Some (render es)" and "names_ok es"
    and "token name" and "name \<notin> snd ` set es"
    and "\<exists>r\<in>set rs. ycontent y (drawn is_file r) = None" and "\<forall>r\<in>set rs. r \<le> 0x7FFFFFFF"
  shows "\<exists>eid y1. add_entry_to_filesystem rs parent name is_file y = Some ((ex_OK, Some eid), y1) \<and>
           isfile eid = is_file \<and> ycontent y eid = None \<and> ycontent y1 eid = Some '''' \<and> held y1 = [] \<and>
           (\<exists>y2. ilookup junk parent name y1 = Some (eid, y2)) \<and>
           (\<forall>n. n \<noteq> name \<longrightarrow> map_option fst (ilookup junk parent n y1) = map_option fst (ilookup junk parent n y)) \<and>
           (\<exists>y2. readdir junk parent y1 =
              Some ((ex_OK, map (\<lambda>(i, n). \<lparr>de_name = n, de_inum = i\<rparr>) (es @ [(eid, name)])), y2))"
proof -
  from add_entry_spec [OF assms(1,2,4,8)] obtain eid y1 where
    e: "add_entry_to_filesystem rs parent name is_file y = Some ((ex_OK, Some eid), y1)" "eid \<in> drawn is_file ` set rs"
      "ycontent y eid = None" "ready y1" "held y1 = []"
      "ycontent y1 = (ycontent y)(parent \<mapsto> render es @ dir_line eid name, eid \<mapsto> '''')"
    by blast
  let ?es = "es @ [(eid, name)]"
  have ne: "eid \<noteq> parent" using e(3) assms(4) by auto
  have c: "ycontent y1 parent = Some (render ?es)" "names_ok ?es" "parent \<notin> set (held y1)" "parent \<notin> set (held y)"
    using e(5,6) ne assms(2,5,6) by (simp_all add: dir_line_def)
  have new: "find (\<lambda>e. snd e = n) ?es = (case find (\<lambda>e. snd e = n) es of Some e \<Rightarrow> Some e
      | None \<Rightarrow> if name = n then Some (eid, name) else None)" for n
    by (induction es) auto
  have absent: "find (\<lambda>e. snd e = name) es = None" using assms(7) by (force simp: find_None_iff)
  have "\<exists>y2. ilookup junk parent name y1 = Some (eid, y2)"
    using ilookup_spec [OF e(4) c(3) assms(3) c(1,2), of junk name] new [of name] absent by auto
  moreover have "map_option fst (ilookup junk parent n y1) = map_option fst (ilookup junk parent n y)" if "n \<noteq> name" for n
    using ilookup_spec [OF e(4) c(3) assms(3) c(1,2), of junk n] ilookup_spec [OF assms(1) c(4) assms(3-5), of junk n]
      new [of n] that by (auto split: option.splits)
  moreover have "\<exists>y2. readdir junk parent y1 = Some ((ex_OK, map (\<lambda>(i, n). \<lparr>de_name = n, de_inum = i\<rparr>) ?es), y2)"
    using readdir_spec [OF e(4) c(3,1,2), of junk] by blast
  moreover have "isfile eid = is_file" using e(2) assms(9) isfile_drawn by auto
  ultimately show ?thesis using e(1,3,5,6) by auto
qed

theorem create_then_lookup_witness:
  "\<exists>eid y1 y2. createfile [5, 6] 1 ''f'' demo_fs = Some ((ex_OK, Some eid), y1) \<and> isfile eid \<and>
     ilookup 0 1 ''f'' y1 = Some (eid, y2)"
proof -
  have "isdir 1" by (simp add: isdir_def isfile_def)
  moreover have "ycontent demo_fs 1 = Some (render [])" by (simp add: demo_fs_ready)
  moreover have "token ''f''" by (simp add: token_def isspace_def)
  moreover have "\<exists>r\<in>set [5, 6 :: u32]. ycontent demo_fs (drawn True r) = None"
    by (simp add: demo_fs_ready drawn_def)
  ultimately show ?thesis
    using create_then_lookup [OF demo_fs_ready(1,2), of 1 "[]" "''f''" "[5, 6]" True 0]
    by (auto simp: createfile_def)
qed


text \<open>\<^verbatim>\<open>unlink\<close> rewrites the directory without the name and drops the cached extent of the last entry with it.\<close>

abbreviation cached :: "yworld \<Rightarrow> inum \<rightharpoonup> string" where
  "cached y \<equiv> extents (cache (xclient (yx y)))"

lemma cached_get: "y_get eid y = Some (r, y') \<Longrightarrow> j \<noteq> eid \<Longrightarrow> cached y' j = cached y j"
  by (auto simp: y_get_def ec_get_def bind_eq_Some_conv put_thread_to_wait_if_needed_def unlock_mutex_and_deque_thread_def
      get_and_cache_extent_from_server_def es_get_def es_getattr_def es_put_def add_extent_to_modified_queues_def set_xclient_def
      Let_def split: if_splits option.splits prod.splits)

lemma cached_put: "y_put eid b y = Some (r, y') \<Longrightarrow> j \<noteq> eid \<Longrightarrow> cached y' j = cached y j"
  by (auto simp: y_put_def ec_put_def bind_eq_Some_conv put_thread_to_wait_if_needed_def unlock_mutex_and_deque_thread_def
      es_put_def add_extent_to_modified_queues_def set_xclient_def Let_def split: if_splits)

definition unlink_target :: "inum \<Rightarrow> (inum \<times> string) list \<Rightarrow> string \<Rightarrow> inum" where
  "unlink_target junk es name =
     (let hits = filter (\<lambda>e. snd e = name) es in if hits = [] then junk else fst (last hits))"

lemma n2i_Nil [simp]: "n2i junk '''' = junk"
  by (simp add: n2i_def istringstream_def get_unsigned_def)

lemma removeE:
  assumes "ready y" and "eid \<in> set (held y)"
  obtains y2 where "y_remove eid y = Some (if cached y eid = None then ex_NOENT else ex_OK, y2)"
    and "ready y2" and "cached y2 eid = None" and "held y2 = held y" and "\<forall>j. j \<noteq> eid \<longrightarrow> ycontent y2 j = ycontent y j"
    and "cached y eid \<noteq> None \<longrightarrow> eid \<in> set (removed_extents (xclient (yx y2)))"
proof -
  have i: "xinv (yx y)" "xup (yx y)" using assms(1) by (simp_all add: ready_def)
  from ec_remove_spec [OF i(1), of eid] obtain x where
    x: "ec_remove eid (yx y) = Some (if cached y eid = None then ex_NOENT else ex_OK, x)" "xinv x" "xup x = xup (yx y)"
      "extents (cache (xclient x)) eid = None"
      "content x = (if cached y eid = None then content (yx y) else (content (yx y))(eid := extents (xserver (yx y)) eid))"
      "cached y eid \<noteq> None \<longrightarrow> eid \<in> set (removed_extents (xclient x))"
    by blast
  show ?thesis
  proof (rule that [of "(touch eid y)\<lparr>yx := x\<rparr>"])
    show "y_remove eid y = Some (if cached y eid = None then ex_NOENT else ex_OK, (touch eid y)\<lparr>yx := x\<rparr>)"
      using x(1) by (simp add: y_remove_def)
  qed (use x i in \<open>simp_all add: ready_def ycontent_def\<close>)
qed

lemma unlink_text:
  assumes "names_ok es"
  shows "concat (map (\<lambda>(i, n). i @ '' '' @ n @ [newline])
           (filter (\<lambda>e. snd e \<noteq> name) (read_entries (istringstream (render es))))) = render (filter (\<lambda>e. snd e \<noteq> name) es)"
    and "n2i junk (if map fst (filter (\<lambda>e. snd e = name) (read_entries (istringstream (render es)))) = [] then ''''
           else last (map fst (filter (\<lambda>e. snd e = name) (read_entries (istringstream (render es)))))) =
         unlink_target junk es name"
proof -
  have r: "read_entries (istringstream (render es)) = map (\<lambda>e. (show_word (fst e), snd e)) es"
    using read_entries_render [OF assms] by (simp add: istringstream_def case_prod_beta')
  show "concat (map (\<lambda>(i, n). i @ '' '' @ n @ [newline])
      (filter (\<lambda>e. snd e \<noteq> name) (read_entries (istringstream (render es))))) = render (filter (\<lambda>e. snd e \<noteq> name) es)"
    unfolding r by (simp add: filter_map render_def dir_line_def comp_def case_prod_beta')
  show "n2i junk (if map fst (filter (\<lambda>e. snd e = name) (read_entries (istringstream (render es)))) = [] then ''''
      else last (map fst (filter (\<lambda>e. snd e = name) (read_entries (istringstream (render es)))))) =
      unlink_target junk es name"
    unfolding r by (simp add: filter_map comp_def unlink_target_def last_map)
qed

lemma unlink_spec:
  fixes es name
  defines "rest \<equiv> filter (\<lambda>e. snd e \<noteq> name) es"
  assumes "ready y" and "held y = []" and "ycontent y parent = Some (render es)" and "names_ok es"
    and "unlink_target junk es name = t" and "t \<noteq> parent"
  shows "\<exists>y'. unlink junk parent name y = Some (if cached y t = None then ex_NOENT else ex_OK, y') \<and>
           ready y' \<and> held y' = [] \<and> cached y' t = None \<and>
           (\<forall>j. j \<noteq> t \<longrightarrow> ycontent y' j = ((ycontent y)(parent \<mapsto> render rest)) j) \<and>
           (cached y t \<noteq> None \<longrightarrow> t \<in> set (removed_extents (xclient (yx y'))))"
proof -
  have "parent \<notin> set (held y)" using assms(3) by simp
  with assms(2) obtain y2 where g: "y_get parent (y\<lparr>held := parent # held y\<rparr>) = Some (found (ycontent y parent), y2)"
    "ready y2" "ycontent y2 = ycontent y" "held y2 = parent # held y" "unlocked y2 = unlocked y"
    by (rule locked_getE)
  let ?y3 = "y2\<lparr>held := t # held y2\<rparr>"
  have "ready ?y3" "parent \<in> set (held ?y3)" using g by simp_all
  then obtain y4 where p: "y_put parent (render rest) ?y3 = Some (ex_OK, y4)" "ready y4"
    "ycontent y4 = (ycontent ?y3)(parent \<mapsto> render rest)" "held y4 = held ?y3" "unlocked y4 = unlocked ?y3"
    by (rule locked_putE)
  have c: "cached y4 t = cached y t"
    using cached_get [OF g(1) assms(7)] cached_put [OF p(1) assms(7)] by simp
  have "t \<in> set (held y4)" using p(4) by simp
  with p(2) obtain y5 where r: "y_remove t y4 = Some (if cached y4 t = None then ex_NOENT else ex_OK, y5)" "ready y5"
    "cached y5 t = None" "held y5 = held y4" "\<forall>j. j \<noteq> t \<longrightarrow> ycontent y5 j = ycontent y4 j"
    "cached y4 t \<noteq> None \<longrightarrow> t \<in> set (removed_extents (xclient (yx y5)))"
    by (rule removeE)
  have "lc_acquire parent y = Some (y\<lparr>held := parent # held y\<rparr>)" "lc_acquire t y2 = Some ?y3"
    using assms(3,7) g(4) by (simp_all add: lc_acquire_fresh)
  then have "unlink junk parent name y = Some (if cached y t = None then ex_NOENT else ex_OK, lc_release parent (lc_release t y5))"
    using g(1) p(1) r(1) assms(4) unlink_text(1) [OF assms(5), of name, folded rest_def]
      unlink_text(2) [OF assms(5), of junk name, unfolded assms(6)]
    by (simp add: unlink_def Let_def c)
  then show ?thesis using r p g c assms(3) by (auto simp: lc_release_def)
qed


lemma unlink_target_unique:
  "(i, name) \<in> set es \<Longrightarrow> distinct (map snd es) \<Longrightarrow> unlink_target junk es name = i"
proof -
  assume h: "(i, name) \<in> set es" "distinct (map snd es)"
  have "filter (\<lambda>e. snd e = name) es \<noteq> []" using h(1) by (force simp: filter_empty_conv)
  then have "last (filter (\<lambda>e. snd e = name) es) \<in> set (filter (\<lambda>e. snd e = name) es)" by (rule last_in_set)
  then have "last (filter (\<lambda>e. snd e = name) es) = (i, name)"
    using h inj_onD [of snd "set es" _ "(i, name)"] by (simp add: distinct_map)
  then show ?thesis using \<open>filter _ es \<noteq> []\<close> by (simp add: unlink_target_def)
qed

lemma find_filtered: "n \<noteq> name \<Longrightarrow> find (\<lambda>e. snd e = n) (filter (\<lambda>e. snd e \<noteq> name) es) = find (\<lambda>e. snd e = n) es"
  by (induction es) auto

text \<open>
  C13. After unlinking a name of a directory whose names are distinct, the name is not found any more,
  every other name is found as before, the extents other than the directory's and the unlinked
  inode's are unchanged, and all locks are released.
\<close>

theorem unlink_removes_name:
  assumes "ready y" and "held y = []" and "isdir parent" and "ycontent y parent = Some (render es)" and "names_ok es"
    and "distinct (map snd es)" and "(i, name) \<in> set es" and "i \<noteq> parent"
  shows "\<exists>ret y1. unlink junk parent name y = Some (ret, y1) \<and> held y1 = [] \<and>
           map_option fst (ilookup junk parent name y1) = Some 0 \<and>
           (\<forall>n. n \<noteq> name \<longrightarrow> map_option fst (ilookup junk parent n y1) = map_option fst (ilookup junk parent n y)) \<and>
           (\<forall>j. j \<noteq> parent \<and> j \<noteq> i \<longrightarrow> ycontent y1 j = ycontent y j)"
proof -
  let ?es = "filter (\<lambda>e. snd e \<noteq> name) es"
  have t: "unlink_target junk es name = i" by (rule unlink_target_unique [OF assms(7,6)])
  from unlink_spec [OF assms(1,2,4,5) t assms(8)] obtain ret y1 where
    u: "unlink junk parent name y = Some (ret, y1)" "ready y1" "held y1 = []"
      "\<forall>j. j \<noteq> i \<longrightarrow> ycontent y1 j = ((ycontent y)(parent \<mapsto> render ?es)) j"
    by blast
  have c: "ycontent y1 parent = Some (render ?es)" "names_ok ?es" "parent \<notin> set (held y1)" "parent \<notin> set (held y)"
    using u(3,4) assms(2,5,8) by (auto simp: names_ok_def)
  have gone: "find (\<lambda>e. snd e = name) ?es = None" by (auto simp: find_None_iff)
  have "map_option fst (ilookup junk parent name y1) = Some 0"
    using ilookup_spec [OF u(2) c(3) assms(3) c(1,2), of junk name] by (auto simp: gone)
  moreover have "map_option fst (ilookup junk parent n y1) = map_option fst (ilookup junk parent n y)" if "n \<noteq> name" for n
    using ilookup_spec [OF u(2) c(3) assms(3) c(1,2), of junk n] ilookup_spec [OF assms(1) c(4) assms(3-5), of junk n]
      find_filtered [OF that, of es] by auto
  ultimately show ?thesis using u(1,3,4) by auto
qed

definition demo_dir :: yworld where
  "demo_dir = demo_fs\<lparr>yx := (yx demo_fs)\<lparr>xserver := \<lparr>extents = [1 \<mapsto> ''7 a'' @ [newline], 7 \<mapsto> ''x''],
      extent_attrs = [1 \<mapsto> \<lparr>atime = 0, mtime = 0, ctime = 0, asize = 0\<rparr>, 7 \<mapsto> \<lparr>atime = 0, mtime = 0, ctime = 0, asize = 0\<rparr>]\<rparr>\<rparr>\<rparr>"

lemma demo_dir_ready: "ready demo_dir" "held demo_dir = []" "ycontent demo_dir = [1 \<mapsto> ''7 a'' @ [newline], 7 \<mapsto> ''x'']"
  by (simp_all add: demo_dir_def ready_def demo_fs_def demo_world_def ycontent_def content_def xinv_def cache_inv_def server_inv_def
      idle_def extent_client_new_def extent_server_new_def)

lemma show_word_7: "show_word (7 :: inum) = ''7''"
  by code_simp

lemma demo_dir_text: "ycontent demo_dir 1 = Some (render [(7, ''a'')])" "names_ok [(7, ''a'')]"
  by (simp_all add: demo_dir_ready show_word_7 token_def isspace_def)

theorem unlink_removes_name_witness:
  "\<exists>ret y1. unlink 0 1 ''a'' demo_dir = Some (ret, y1) \<and> held y1 = [] \<and> map_option fst (ilookup 0 1 ''a'' y1) = Some 0"
proof -
  have "isdir 1" by (simp add: isdir_def isfile_def)
  from unlink_removes_name [OF demo_dir_ready(1,2) this demo_dir_text, of 7 "''a''" 0] show ?thesis by auto
qed

text \<open>
  C31. Unlinking a name the directory does not contain still removes an extent: the one named by the
  uninitialised inode number of \<^verbatim>\<open>n2i\<close>. When that number is any cached extent, the call reports
  success and queues the extent for removal at the server.
\<close>

theorem unlink_missing_removes_other:
  assumes "ready y" and "held y = []" and "ycontent y parent = Some (render es)" and "names_ok es"
    and "name \<notin> snd ` set es" and "junk \<noteq> parent" and "cached y junk \<noteq> None"
  shows "\<exists>y1. unlink junk parent name y = Some (ex_OK, y1) \<and> cached y1 junk = None \<and>
           junk \<in> set (removed_extents (xclient (yx y1)))"
proof -
  have "unlink_target junk es name = junk" using assms(5) by (force simp: unlink_target_def filter_empty_conv)
  from unlink_spec [OF assms(1-4) this assms(6)] assms(7) show ?thesis by auto
qed

theorem unlink_missing_removes_other_witness:
  "\<exists>y y1. y_get 7 demo_dir = Some ((ex_OK, Some ''x''), y) \<and> unlink 7 1 ''b'' y = Some (ex_OK, y1) \<and>
     7 \<in> set (removed_extents (xclient (yx y1)))"
proof -
  have "xinv (yx demo_dir)" "xup (yx demo_dir)" "content (yx demo_dir) 7 = Some ''x''"
    using demo_dir_ready(1,3) by (simp_all add: ready_def ycontent_def)
  with ec_get_spec [OF this(1,2), of 7] obtain x where
    x: "ec_get 7 (yx demo_dir) = Some ((ex_OK, Some ''x''), x)" "xinv x" "xup x" "content x = content (yx demo_dir)"
      "extents (cache (xclient x)) 7 = Some ''x''"
    by auto
  let ?y = "(touch 7 demo_dir)\<lparr>yx := x\<rparr>"
  have y: "y_get 7 demo_dir = Some ((ex_OK, Some ''x''), ?y)" using x(1) by (simp add: y_get_def)
  have r: "ready ?y" "held ?y = []" "ycontent ?y 1 = Some (render [(7, ''a'')])"
    using x demo_dir_text(1) demo_dir_ready(2) by (simp_all add: ready_def ycontent_def)
  from unlink_missing_removes_other [OF r demo_dir_text(2), of "''b''" 7] x(5) y show ?thesis by auto
qed

section \<open>Lock discipline\<close>

text \<open>The calls of the file system, with the random draws and uninitialised values they use.\<close>

datatype yfs_call =
    Getfile inum
  | Getdir inum
  | Lookup inum inum string
  | Create "u32 list" inum string bool
  | Readdir inum inum
  | Unlink inum inum string
  | Setsize inum u64
  | Write inum string u64 u64
  | Read inum u64 u64
  | Init

fun yfs_exec :: "yfs_call \<Rightarrow> yworld \<Rightarrow> yworld option" where
  "yfs_exec (Getfile i) y = map_option snd (getfile i y)"
| "yfs_exec (Getdir i) y = map_option snd (getdir i y)"
| "yfs_exec (Lookup junk di name) y = map_option snd (ilookup junk di name y)"
| "yfs_exec (Create rs di name is_file) y =
     map_option snd (if is_file then createfile rs di name y else makedir rs di name y)"
| "yfs_exec (Readdir junk di) y = map_option snd (readdir junk di y)"
| "yfs_exec (Unlink junk di name) y = map_option snd (unlink junk di name y)"
| "yfs_exec (Setsize i sz) y = map_option snd (setsize i sz y)"
| "yfs_exec (Write i data sz off) y = map_option snd (write_file i data sz off y)"
| "yfs_exec (Read i sz off) y = map_option snd (read_file i sz off y)"
| "yfs_exec Init y = yfs_client_new y"

fun probes :: "yfs_call \<Rightarrow> inum set" where
  "probes (Create rs di name is_file) = drawn is_file ` set rs"
| "probes _ = {}"

lemma lc_acquire_Some: "lc_acquire l y = Some y' \<longleftrightarrow> l \<notin> set (held y) \<and> y' = y\<lparr>held := l # held y\<rparr>"
  by (auto simp: lc_acquire_def)

lemma generate_Cons:
  "generate_unique_inum is_file (r # rs) y =
     do { ((ret, buf), y1) \<leftarrow> y_get (drawn is_file r) y;
          if ret = ex_OK then generate_unique_inum is_file rs y1 else Some (drawn is_file r, y1) }"
  by (simp only: drawn_def generate_unique_inum.simps Let_def)

lemma generate_frame:
  "generate_unique_inum is_file rs y = Some (eid, y') \<Longrightarrow>
     held y' = held y \<and> set (unlocked y') \<subseteq> set (unlocked y) \<union> drawn is_file ` set rs"
proof (induction rs arbitrary: y)
  case (Cons r rs)
  from Cons.prems obtain ret buf y1 where g: "y_get (drawn is_file r) y = Some ((ret, buf), y1)"
    "(if ret = ex_OK then generate_unique_inum is_file rs y1 else Some (drawn is_file r, y1)) = Some (eid, y')"
    unfolding generate_Cons by (auto simp: bind_eq_Some_conv)
  have f: "held y1 = held y" "set (unlocked y1) \<subseteq> set (unlocked y) \<union> {drawn is_file r}"
    using store_frames(1) [OF g(1)] by (auto simp: touch_def)
  show ?case using g(2) f Cons.IH [of y1] by (cases "ret = ex_OK") auto
qed simp

lemmas lock_frame_simps = bind_eq_Some_conv lc_acquire_Some lc_release_def touch_def

lemma bindE: "m \<bind> f = Some v \<Longrightarrow> (\<And>x. m = Some x \<Longrightarrow> f x = Some v \<Longrightarrow> P) \<Longrightarrow> P"
  by (cases m) auto

lemma getfile_frame: "getfile i y = Some (r, y') \<Longrightarrow> held y' = held y \<and> unlocked y' = unlocked y"
  by (auto simp: getfile_def lock_frame_simps Let_def dest!: store_frames split: option.splits if_splits)

lemma getdir_frame: "getdir i y = Some (r, y') \<Longrightarrow> held y' = held y \<and> unlocked y' = unlocked y"
  by (auto simp: getdir_def lock_frame_simps Let_def dest!: store_frames split: option.splits if_splits)

lemma ilookup_frame: "ilookup junk i name y = Some (r, y') \<Longrightarrow> held y' = held y \<and> unlocked y' = unlocked y"
  by (auto simp: ilookup_def lock_frame_simps Let_def dest!: store_frames split: option.splits if_splits)

lemma readdir_frame: "readdir junk i y = Some (r, y') \<Longrightarrow> held y' = held y \<and> unlocked y' = unlocked y"
  by (auto simp: readdir_def lock_frame_simps Let_def dest!: store_frames split: option.splits if_splits)

lemma setsize_frame: "setsize i sz y = Some (r, y') \<Longrightarrow> held y' = held y \<and> unlocked y' = unlocked y"
  by (auto simp: setsize_def lock_frame_simps Let_def dest!: store_frames split: option.splits if_splits)

lemma if_SomeE:
  "(if c then Some a else m) = Some v \<Longrightarrow> (a = v \<Longrightarrow> P) \<Longrightarrow> (m = Some v \<Longrightarrow> P) \<Longrightarrow> P"
  by (cases c) auto

lemma write_file_frame: "write_file i data sz off y = Some (r, y') \<Longrightarrow> held y' = held y \<and> unlocked y' = unlocked y"
  unfolding write_file_def
  by (elim bindE) (auto simp: lc_acquire_Some lc_release_def touch_def elim!: bindE if_SomeE dest!: store_frames
      split: prod.splits)

lemma read_file_frame: "read_file i sz off y = Some (r, y') \<Longrightarrow> held y' = held y \<and> unlocked y' = unlocked y"
  by (auto simp: read_file_def lock_frame_simps Let_def dest!: store_frames split: option.splits if_splits)

lemma yfs_client_new_frame: "yfs_client_new y = Some y' \<Longrightarrow> held y' = held y \<and> unlocked y' = unlocked y"
  by (auto simp: yfs_client_new_def lock_frame_simps Let_def dest!: store_frames split: option.splits if_splits)

lemmas single_lock_frames = getfile_frame getdir_frame ilookup_frame readdir_frame setsize_frame write_file_frame read_file_frame yfs_client_new_frame

lemma unlink_frame: "unlink junk parent name y = Some (r, y') \<Longrightarrow> held y' = held y \<and> unlocked y' = unlocked y"
  unfolding unlink_def Let_def
  by (elim bindE) (auto simp: lc_acquire_Some lc_release_def touch_def elim!: bindE dest!: store_frames
      split: option.splits prod.splits if_split_asm)

lemma add_entry_frame:
  "add_entry_to_filesystem rs parent name is_file y = Some (r, y') \<Longrightarrow>
     held y' = held y \<and> set (unlocked y') \<subseteq> set (unlocked y) \<union> drawn is_file ` set rs"
  by (auto simp: add_entry_to_filesystem_def lock_frame_simps dest!: store_frames generate_frame split: option.splits if_splits)



end
