(* ===== verification/Fuse.thy ===== *)
theory Fuse
  imports Yfs_Client
begin

text \<open>
  The FUSE front end of \<^verbatim>\<open>fuse.cc\<close>: one handler per request of the kernel, on top of the file system
  client. A handler returns the replies it sends through the FUSE library, in order, and the new
  world; reading or writing outside a buffer is \<^const>\<open>None\<close>, as is a wait in the layers below.

  The two functions of the FUSE library that compute something, \<^verbatim>\<open>fuse_dirent_size\<close> and
  \<^verbatim>\<open>fuse_add_dirent\<close>, are parameters. Uninitialised variables are parameters named \<open>junk\<close>.
\<close>

section \<open>Attributes\<close>

record fstat =
  st_ino :: u64
  st_mode :: u32
  st_nlink :: u64
  st_atime :: u64
  st_mtime :: u64
  st_ctime :: u64
  st_size :: u64

definition S_IFREG :: u32 where "S_IFREG = 0x8000"
definition S_IFDIR :: u32 where "S_IFDIR = 0x4000"

definition fgetattr :: "inum \<Rightarrow> yworld \<Rightarrow> ((int \<times> fstat) \<times> yworld) option" where
  "fgetattr i y =
     (let st = \<lparr>st_ino = i, st_mode = 0, st_nlink = 0, st_atime = 0, st_mtime = 0, st_ctime = 0, st_size = 0\<rparr> in
      if isfile i
      then do { ((ret, info), y1) \<leftarrow> getfile i y;
                if ret \<noteq> ex_OK then Some ((ret, st), y1)
                else do { info \<leftarrow> info;
                          Some ((ex_OK, st\<lparr>st_mode := S_IFREG OR 0x1B6, st_nlink := 1, st_atime := fi_atime info,
                                   st_mtime := fi_mtime info, st_ctime := fi_ctime info, st_size := fi_size info\<rparr>), y1) } }
      else do { ((ret, info), y1) \<leftarrow> getdir i y;
                if ret \<noteq> ex_OK then Some ((ret, st), y1)
                else do { info \<leftarrow> info;
                          Some ((ex_OK, st\<lparr>st_mode := S_IFDIR OR 0x1FF, st_nlink := 2, st_atime := di_atime info,
                                   st_mtime := di_mtime info, st_ctime := di_ctime info\<rparr>), y1) } })"

section \<open>Replies\<close>

text \<open>The timeouts of an entry, in seconds, are never anything but zero.\<close>

record fuse_entry_param =
  e_ino :: u64
  e_attr :: fstat
  attr_timeout :: int
  entry_timeout :: int

datatype reply =
    Reply_err int
  | Reply_attr fstat int
  | Reply_entry fuse_entry_param
  | Reply_create fuse_entry_param
  | Reply_open
  | Reply_write u64
  | Reply_buf string
  | Reply_statfs int int

definition ENOENT :: int where "ENOENT = 2"
definition ENOTDIR :: int where "ENOTDIR = 20"
definition ENOSYS :: int where "ENOSYS = 38"

text \<open>\<^verbatim>\<open>fuse_reply_buf(req, p, n)\<close> where \<open>mem\<close> is the memory at \<^verbatim>\<open>p\<close>.\<close>

definition fuse_reply_buf :: "string \<Rightarrow> nat \<Rightarrow> reply option" where
  "fuse_reply_buf mem n = (if n \<le> length mem then Some (Reply_buf (take n mem)) else None)"

type_synonym handler_result = "(reply list \<times> yworld) option"

section \<open>Handlers of files\<close>

definition fuseserver_getattr :: "inum \<Rightarrow> yworld \<Rightarrow> handler_result" where
  "fuseserver_getattr ino y =
     do { ((ret, st), y1) \<leftarrow> fgetattr ino y;
          Some (if ret \<noteq> ex_OK then [Reply_err ENOENT] else [Reply_attr st 0], y1) }"

text \<open>The bit \<^verbatim>\<open>FUSE_SET_ATTR_SIZE\<close> of the FUSE interface is bit 3.\<close>

definition fuseserver_setattr :: "inum \<Rightarrow> u64 \<Rightarrow> u32 \<Rightarrow> yworld \<Rightarrow> handler_result" where
  "fuseserver_setattr ino sz to_set y =
     (if bit to_set 3
      then do { (ret, y1) \<leftarrow> setsize ino sz y;
                if ret \<noteq> ex_OK then Some ([Reply_err ENOENT], y1)
                else do { ((ret2, st), y2) \<leftarrow> fgetattr ino y1;
                          Some (if ret2 \<noteq> ex_OK then [Reply_err ENOENT] else [Reply_attr st 0], y2) } }
      else Some ([Reply_err ENOSYS], y))"

text \<open>The reply is \<^verbatim>\<open>size\<close> bytes from \<^verbatim>\<open>buf.c_str()\<close>, which has the bytes read and a zero byte.\<close>

definition fuseserver_read :: "inum \<Rightarrow> u64 \<Rightarrow> u64 \<Rightarrow> yworld \<Rightarrow> handler_result" where
  "fuseserver_read ino sz off y =
     do { ((ret, buf), y1) \<leftarrow> read_file ino sz off y;
          if ret \<noteq> ex_OK then Some ([Reply_err ENOENT], y1)
          else do { b \<leftarrow> buf;
                    r \<leftarrow> fuse_reply_buf (b @ [char_of (0::nat)]) (unat sz);
                    Some ([r], y1) } }"

definition fuseserver_write :: "inum \<Rightarrow> string \<Rightarrow> u64 \<Rightarrow> u64 \<Rightarrow> yworld \<Rightarrow> handler_result" where
  "fuseserver_write ino buf sz off y =
     do { ((ret, written), y1) \<leftarrow> write_file ino buf sz off y;
          Some (if ret \<noteq> ex_OK then [Reply_err ENOENT]
                else [Reply_write (case written of None \<Rightarrow> 0 | Some n \<Rightarrow> n)], y1) }"

definition fuseserver_open :: "inum \<Rightarrow> yworld \<Rightarrow> handler_result" where
  "fuseserver_open ino y =
     do { ((ret, info), y1) \<leftarrow> getfile ino y;
          Some (if ret = ex_OK then [Reply_open] else [Reply_err ENOENT], y1) }"

section \<open>Handlers of names\<close>

text \<open>The helper fills in the entry; \<open>rs\<close> are the random draws.\<close>

definition fuseserver_createhelper ::
  "u32 list \<Rightarrow> inum \<Rightarrow> inum \<Rightarrow> string \<Rightarrow> yworld \<Rightarrow> ((int \<times> fuse_entry_param option) \<times> yworld) option" where
  "fuseserver_createhelper rs junk parent name y =
     (if \<not> isdir parent then Some ((ex_IOERR, None), y)
      else do {
        ((ret, din), y1) \<leftarrow> getdir parent y;
        if ret \<noteq> ex_OK then Some ((ex_NOENT, None), y1)
        else do {
          (i, y2) \<leftarrow> ilookup junk parent name y1;
          ((ret2, new_inum), y3) \<leftarrow> (if i = 0 then createfile rs parent name y2 else Some ((ex_OK, Some i), y2));
          if ret2 \<noteq> ex_OK then Some ((ret2, None), y3)
          else do {
            n \<leftarrow> new_inum;
            ((ret3, st), y4) \<leftarrow> fgetattr n y3;
            Some (if ret3 \<noteq> ex_OK then ((ret3, None), y4)
                  else ((ex_OK, Some \<lparr>e_ino = n, e_attr = st, attr_timeout = 0, entry_timeout = 0\<rparr>), y4)) } } })"

definition fuseserver_create :: "u32 list \<Rightarrow> inum \<Rightarrow> inum \<Rightarrow> string \<Rightarrow> yworld \<Rightarrow> handler_result" where
  "fuseserver_create rs junk parent name y =
     do { ((ret, e), y1) \<leftarrow> fuseserver_createhelper rs junk parent name y;
          if ret = ex_OK then do { e \<leftarrow> e; Some ([Reply_create e], y1) } else Some ([Reply_err ENOENT], y1) }"

definition fuseserver_mknod :: "u32 list \<Rightarrow> inum \<Rightarrow> inum \<Rightarrow> string \<Rightarrow> yworld \<Rightarrow> handler_result" where
  "fuseserver_mknod rs junk parent name y =
     do { ((ret, e), y1) \<leftarrow> fuseserver_createhelper rs junk parent name y;
          if ret = ex_OK then do { e \<leftarrow> e; Some ([Reply_entry e], y1) } else Some ([Reply_err ENOENT], y1) }"

definition fuseserver_lookup :: "inum \<Rightarrow> inum \<Rightarrow> string \<Rightarrow> yworld \<Rightarrow> handler_result" where
  "fuseserver_lookup junk parent name y =
     do { (i, y1) \<leftarrow> ilookup junk parent name y;
          if i \<noteq> 0
          then do { ((ret, st), y2) \<leftarrow> fgetattr i y1;
                    Some (if ret \<noteq> ex_OK then [Reply_err ENOENT]
                          else [Reply_entry \<lparr>e_ino = i, e_attr = st, attr_timeout = 0, entry_timeout = 0\<rparr>], y2) }
          else Some ([Reply_err ENOENT], y1) }"

text \<open>
  \<^verbatim>\<open>mkdir\<close> does not return after the reply to a failed \<^verbatim>\<open>makedir\<close>, and sends no reply when the name
  exists; \<open>junk2\<close> is the uninitialised \<^verbatim>\<open>new_inum\<close>.
\<close>

definition fuseserver_mkdir :: "u32 list \<Rightarrow> inum \<Rightarrow> inum \<Rightarrow> inum \<Rightarrow> string \<Rightarrow> yworld \<Rightarrow> handler_result" where
  "fuseserver_mkdir rs junk junk2 parent name y =
     (if \<not> isdir parent then Some ([Reply_err ENOENT], y)
      else do {
        ((ret, din), y1) \<leftarrow> getdir parent y;
        if ret \<noteq> ex_OK then Some ([Reply_err ENOENT], y1)
        else do {
          (i, y2) \<leftarrow> ilookup junk parent name y1;
          if i = 0
          then do {
            ((ret2, new_inum), y3) \<leftarrow> makedir rs parent name y2;
            let sent = (if ret2 \<noteq> ex_OK then [Reply_err ENOENT] else []);
            let n = (case new_inum of None \<Rightarrow> junk2 | Some n \<Rightarrow> n);
            ((ret3, st), y4) \<leftarrow> fgetattr n y3;
            Some (sent @ (if ret3 \<noteq> ex_OK then [Reply_err ENOENT]
                          else [Reply_entry \<lparr>e_ino = n, e_attr = st, attr_timeout = 0, entry_timeout = 0\<rparr>]), y4) }
          else Some ([], y2) } })"

definition fuseserver_unlink :: "inum \<Rightarrow> inum \<Rightarrow> string \<Rightarrow> yworld \<Rightarrow> handler_result" where
  "fuseserver_unlink junk parent name y =
     do { (i, y1) \<leftarrow> ilookup junk parent name y;
          if i \<noteq> 0
          then do { (ret, y2) \<leftarrow> unlink junk parent name y1;
                    Some (if ret = ex_OK then [Reply_err 0] else [Reply_err ENOENT], y2) }
          else Some ([Reply_err ENOENT], y1) }"

definition fuseserver_statfs :: "yworld \<Rightarrow> handler_result" where
  "fuseserver_statfs y = Some ([Reply_statfs 255 512], y)"

section \<open>Listing a directory\<close>

record dirbuf =
  db_p :: string
  db_size :: nat

definition c_str :: "string \<Rightarrow> string" where
  "c_str s = takeWhile (\<lambda>c. c \<noteq> char_of (0::nat)) s"

text \<open>
  \<open>dsz\<close> is \<^verbatim>\<open>fuse_dirent_size\<close>; \<open>add name ino off\<close> are the bytes \<^verbatim>\<open>fuse_add_dirent\<close> writes for an entry
  whose successor is at offset \<open>off\<close>. An entry that does not fill its place exactly leaves it or leaves
  bytes of it undefined.
\<close>

definition dirbuf_add :: "(nat \<Rightarrow> nat) \<Rightarrow> (string \<Rightarrow> inum \<Rightarrow> nat \<Rightarrow> string) \<Rightarrow> string \<Rightarrow> inum \<Rightarrow> dirbuf \<Rightarrow> dirbuf option" where
  "dirbuf_add dsz add name ino b =
     (let oldsize = db_size b;
          sz = oldsize + dsz (length (c_str name));
          d = add (c_str name) ino sz
      in if oldsize + length d = sz then Some \<lparr>db_p = take oldsize (db_p b) @ d, db_size = sz\<rparr> else None)"

fun dirbuf_fill :: "(nat \<Rightarrow> nat) \<Rightarrow> (string \<Rightarrow> inum \<Rightarrow> nat \<Rightarrow> string) \<Rightarrow> dirent list \<Rightarrow> dirbuf \<Rightarrow> dirbuf option" where
  "dirbuf_fill dsz add [] b = Some b"
| "dirbuf_fill dsz add (e # es) b = do { b1 \<leftarrow> dirbuf_add dsz add (de_name e) (de_inum e) b; dirbuf_fill dsz add es b1 }"

definition reply_buf_limited :: "string \<Rightarrow> nat \<Rightarrow> u64 \<Rightarrow> u64 \<Rightarrow> reply option" where
  "reply_buf_limited buf bufsize off maxsize =
     (if unat off < bufsize then fuse_reply_buf (drop (unat off) buf) (min (bufsize - unat off) (unat maxsize))
      else fuse_reply_buf [] 0)"

definition fuseserver_readdir ::
  "(nat \<Rightarrow> nat) \<Rightarrow> (string \<Rightarrow> inum \<Rightarrow> nat \<Rightarrow> string) \<Rightarrow> inum \<Rightarrow> inum \<Rightarrow> u64 \<Rightarrow> u64 \<Rightarrow> yworld \<Rightarrow> handler_result" where
  "fuseserver_readdir dsz add junk ino sz off y =
     (if \<not> isdir ino then Some ([Reply_err ENOTDIR], y)
      else do { ((ret, dir_files), y1) \<leftarrow> readdir junk ino y;
                b \<leftarrow> dirbuf_fill dsz add dir_files \<lparr>db_p = [], db_size = 0\<rparr>;
                r \<leftarrow> reply_buf_limited (db_p b) (db_size b) off sz;
                Some ([r], y1) })"


section \<open>Specifications\<close>

lemma attrs_known:
  assumes "xinv w" and "content w eid = Some b"
  shows "\<exists>a. attr_view w eid = Some a"
proof (cases "extents (cache (xclient w)) eid")
  case None
  then have "extents (xserver w) eid = Some b" using assms(2) by (simp add: content_def map_add_def)
  then obtain a where "extent_attrs (xserver w) eid = Some a"
    using server_inv_both [OF xinv_simps(2) [OF assms(1)]] by blast
  then show ?thesis by (cases "extent_attrs (cache (xclient w)) eid") (simp_all add: attr_view_def map_add_def)
next
  case (Some c)
  then have "extent_attrs (cache (xclient w)) eid \<noteq> None"
    using cache_inv_dom [OF xinv_simps(1) [OF assms(1)], of eid] by simp
  then show ?thesis by (auto simp: attr_view_def)
qed

lemma getattrE:
  assumes "ready y" and "i \<in> set (held y)" and "ycontent y i = Some b"
  obtains a y2 where "y_getattr i y = Some ((ex_OK, Some a), y2)" and "ready y2" and "ycontent y2 = ycontent y"
    and "held y2 = held y"
proof -
  have i: "xinv (yx y)" "xup (yx y)" "content (yx y) i = Some b" using assms by (simp_all add: ready_def ycontent_def)
  obtain a where a: "attr_view (yx y) i = Some a" using attrs_known [OF i(1,3)] by blast
  obtain a' x where x: "ec_getattr i (yx y) = Some ((ex_OK, Some a'), x)" "xinv x" "xup x" "content x = content (yx y)"
    using ec_getattr_spec [OF i(1,2), of i] by (auto simp: a)
  show ?thesis
  proof (rule that [of a' "(touch i y)\<lparr>yx := x\<rparr>"])
    show "y_getattr i y = Some ((ex_OK, Some a'), (touch i y)\<lparr>yx := x\<rparr>)" using x(1) by (simp add: y_getattr_def)
  qed (use x in \<open>simp_all add: ready_def ycontent_def\<close>)
qed

lemma getdir_spec:
  assumes "ready y" and "held y = []" and "ycontent y i = Some b"
  shows "\<exists>info y'. getdir i y = Some ((ex_OK, Some info), y') \<and> ready y' \<and> held y' = [] \<and> ycontent y' = ycontent y"
proof -
  let ?y = "y\<lparr>held := i # held y\<rparr>"
  have "ready ?y" "i \<in> set (held ?y)" "ycontent ?y i = Some b" using assms by simp_all
  then obtain a y2 where "y_getattr i ?y = Some ((ex_OK, Some a), y2)" "ready y2" "ycontent y2 = ycontent ?y" "held y2 = held ?y"
    by (rule getattrE)
  then show ?thesis using assms(2) by (simp add: getdir_def lc_acquire_def)
qed

lemma getfile_spec:
  assumes "ready y" and "held y = []" and "ycontent y i = Some b"
  shows "\<exists>info y'. getfile i y = Some ((ex_OK, Some info), y') \<and> ready y' \<and> held y' = [] \<and> ycontent y' = ycontent y"
proof -
  let ?y = "y\<lparr>held := i # held y\<rparr>"
  have "ready ?y" "i \<in> set (held ?y)" "ycontent ?y i = Some b" using assms by simp_all
  then obtain a y2 where "y_getattr i ?y = Some ((ex_OK, Some a), y2)" "ready y2" "ycontent y2 = ycontent ?y" "held y2 = held ?y"
    by (rule getattrE)
  then show ?thesis using assms(2) by (simp add: getfile_def lc_acquire_def)
qed

lemma fgetattr_spec:
  assumes "ready y" and "held y = []" and "ycontent y i = Some b"
  shows "\<exists>st y'. fgetattr i y = Some ((ex_OK, st), y') \<and> st_ino st = i \<and>
           st_mode st = (if isfile i then S_IFREG OR 0x1B6 else S_IFDIR OR 0x1FF) \<and>
           ready y' \<and> held y' = [] \<and> ycontent y' = ycontent y"
  using getfile_spec [OF assms] getdir_spec [OF assms] by (auto simp: fgetattr_def)




section \<open>Reading\<close>

text \<open>
  C32. Reading: inside the file the reply is the bytes asked for; a read that asks for more than one byte
  beyond the end of the file makes the handler send bytes from outside its buffer.
\<close>

theorem fuse_read_bounds:
  assumes "ready y" and "ino \<notin> set (held y)" and "ycontent y ino = Some b" and "unat off + unat sz < 2 ^ 64"
  shows "(unat off < length b \<and> unat off + unat sz \<le> length b \<longrightarrow>
            map_option fst (fuseserver_read ino sz off y) = Some [Reply_buf (take (unat sz) (drop (unat off) b))]) \<and>
         (unat sz > length b - unat off + 1 \<longrightarrow> fuseserver_read ino sz off y = None)"
proof -
  have "unat (off + sz) = unat off + unat sz" using assms(4) by (simp add: unat_plus_if_size word_size)
  then obtain y' where
    "read_file ino sz off y = Some ((ex_OK, Some (take (min (unat sz) (length b - unat off)) (drop (unat off) b))), y')"
    using read_file_spec [OF assms(1-3), of sz off] by (auto split: if_splits simp: min_def)
  then show ?thesis by (auto simp: fuseserver_read_def fuse_reply_buf_def min_def)
qed

theorem fuse_read_bounds_witness: "fuseserver_read 0x80000005 4096 0 demo_fs = None"
proof -
  have "0x80000005 \<notin> set (held demo_fs)" "ycontent demo_fs 0x80000005 = Some ''hello''"
    by (simp_all add: demo_fs_ready)
  from fuse_read_bounds [OF demo_fs_ready(1) this, of 0 4096] show ?thesis by simp
qed

section \<open>Listing\<close>

text \<open>The bytes of a listing that begins at offset \<open>at\<close>: every entry carries the offset of its successor.\<close>

fun listing :: "(nat \<Rightarrow> nat) \<Rightarrow> (string \<Rightarrow> inum \<Rightarrow> nat \<Rightarrow> string) \<Rightarrow> nat \<Rightarrow> dirent list \<Rightarrow> string" where
  "listing dsz add at [] = []"
| "listing dsz add at (e # es) =
     (let next = at + dsz (length (c_str (de_name e)))
      in add (c_str (de_name e)) (de_inum e) next @ listing dsz add next es)"

definition list_size :: "(nat \<Rightarrow> nat) \<Rightarrow> dirent list \<Rightarrow> nat" where
  "list_size dsz es = sum_list (map (\<lambda>e. dsz (length (c_str (de_name e)))) es)"

lemma list_size_simps [simp]:
  "list_size dsz [] = 0" "list_size dsz (e # es) = dsz (length (c_str (de_name e))) + list_size dsz es"
  by (simp_all add: list_size_def)

lemma length_listing:
  "\<forall>n i off. length (add n i off) = dsz (length n) \<Longrightarrow> length (listing dsz add at es) = list_size dsz es"
  by (induction es arbitrary: at) (simp_all add: Let_def)

lemma dirbuf_fill_listing:
  assumes "\<forall>n i off. length (add n i off) = dsz (length n)" and "length (db_p b) = db_size b"
  shows "dirbuf_fill dsz add es b =
           Some \<lparr>db_p = db_p b @ listing dsz add (db_size b) es, db_size = db_size b + list_size dsz es\<rparr>"
  using assms(2) by (induction es arbitrary: b) (simp_all add: dirbuf_add_def Let_def assms(1))

lemma listing_drop:
  assumes "\<forall>n i off. length (add n i off) = dsz (length n)"
  shows "drop (list_size dsz (take k es)) (listing dsz add at es) =
           listing dsz add (at + list_size dsz (take k es)) (drop k es)"
proof (induction es arbitrary: k at)
  case (Cons e es)
  show ?case using Cons.IH assms by (cases k) (simp_all add: Let_def add.assoc)
qed simp

lemma list_size_take: "list_size dsz (take k es) \<le> list_size dsz es"
  by (induction es arbitrary: k) (auto simp: take_Cons split: nat.splits)

text \<open>
  C18. Listing a directory page by page: the reply to a request at the offset of the \<open>k\<close>-th entry is the
  requested number of bytes of the listing of the entries from the \<open>k\<close>-th on, in which each entry
  carries the offset at which the next page may begin. \<open>add\<close> and \<open>dsz\<close> are the FUSE functions that
  write an entry and give its size.
\<close>

theorem fuse_readdir_pages:
  assumes "\<forall>n i off. length (add n i off) = dsz (length n)"
    and "ready y" and "ino \<notin> set (held y)" and "isdir ino" and "ycontent y ino = Some (render es)" and "names_ok es"
    and "unat off = list_size dsz (take k (map (\<lambda>(i, n). \<lparr>de_name = n, de_inum = i\<rparr>) es))"
  shows "\<exists>y'. fuseserver_readdir dsz add junk ino sz off y =
           Some ([Reply_buf (take (unat sz)
              (listing dsz add (unat off) (drop k (map (\<lambda>(i, n). \<lparr>de_name = n, de_inum = i\<rparr>) es))))], y') \<and>
           ycontent y' = ycontent y \<and> held y' = held y"
proof -
  let ?ds = "map (\<lambda>(i, n). \<lparr>de_name = n, de_inum = i\<rparr>) es"
  let ?text = "listing dsz add 0 ?ds"
  obtain y' where r: "readdir junk ino y = Some ((ex_OK, ?ds), y')" "ycontent y' = ycontent y" "held y' = held y"
    using readdir_spec [OF assms(2,3,5,6)] by blast
  have f: "dirbuf_fill dsz add ?ds \<lparr>db_p = [], db_size = 0\<rparr> = Some \<lparr>db_p = ?text, db_size = list_size dsz ?ds\<rparr>"
    using dirbuf_fill_listing [OF assms(1), of "\<lparr>db_p = [], db_size = 0\<rparr>"] by simp
  have rest: "drop (unat off) ?text = listing dsz add (unat off) (drop k ?ds)"
    using listing_drop [OF assms(1), of k ?ds 0] by (simp add: assms(7))
  note len = length_listing [OF assms(1), of 0 ?ds]
  have "reply_buf_limited ?text (list_size dsz ?ds) off sz = Some (Reply_buf (take (unat sz) (drop (unat off) ?text)))"
    by (auto simp: reply_buf_limited_def fuse_reply_buf_def len min_def)
  then show ?thesis using r f assms(4) by (simp add: fuseserver_readdir_def rest)
qed

theorem fuse_readdir_pages_witness:
  "\<exists>y'. fuseserver_readdir (\<lambda>n. n + 8) (\<lambda>n i off. be64 i @ n) 0 1 4096 0 demo_dir =
     Some ([Reply_buf (be64 7 @ ''a'')], y')"
proof -
  have "isdir 1" by (simp add: isdir_def isfile_def)
  moreover have "1 \<notin> set (held demo_dir)" by (simp add: demo_dir_ready)
  moreover have "\<forall>n i (off::nat). length (be64 i @ n) = length n + 8" by simp
  moreover have c: "c_str ''a'' = ''a''" by code_simp
  ultimately show ?thesis
    using fuse_readdir_pages [of "\<lambda>n i off. be64 i @ n" "\<lambda>n. n + 8" demo_dir 1 "[(7, ''a'')]" 0 0 0 4096]
      demo_dir_ready(1) demo_dir_text c by (auto simp: Let_def)
qed


section \<open>Replies and locks\<close>

datatype fuse_call =
    F_getattr inum
  | F_setattr inum u64 u32
  | F_read inum u64 u64
  | F_write inum string u64 u64
  | F_create "u32 list" inum inum string
  | F_mknod "u32 list" inum inum string
  | F_lookup inum inum string
  | F_readdir "nat \<Rightarrow> nat" "string \<Rightarrow> inum \<Rightarrow> nat \<Rightarrow> string" inum inum u64 u64
  | F_open inum
  | F_mkdir "u32 list" inum inum inum string
  | F_unlink inum inum string
  | F_statfs

text \<open>The table of handlers \<^verbatim>\<open>fuseserver_oper\<close>.\<close>

fun fuseserver_oper :: "fuse_call \<Rightarrow> yworld \<Rightarrow> handler_result" where
  "fuseserver_oper (F_getattr ino) = fuseserver_getattr ino"
| "fuseserver_oper (F_statfs) = fuseserver_statfs"
| "fuseserver_oper (F_readdir dsz add junk ino sz off) = fuseserver_readdir dsz add junk ino sz off"
| "fuseserver_oper (F_lookup junk parent name) = fuseserver_lookup junk parent name"
| "fuseserver_oper (F_create rs junk parent name) = fuseserver_create rs junk parent name"
| "fuseserver_oper (F_mknod rs junk parent name) = fuseserver_mknod rs junk parent name"
| "fuseserver_oper (F_open ino) = fuseserver_open ino"
| "fuseserver_oper (F_read ino sz off) = fuseserver_read ino sz off"
| "fuseserver_oper (F_write ino buf sz off) = fuseserver_write ino buf sz off"
| "fuseserver_oper (F_setattr ino sz to_set) = fuseserver_setattr ino sz to_set"
| "fuseserver_oper (F_unlink junk parent name) = fuseserver_unlink junk parent name"
| "fuseserver_oper (F_mkdir rs junk junk2 parent name) = fuseserver_mkdir rs junk junk2 parent name"

fun is_mkdir :: "fuse_call \<Rightarrow> bool" where
  "is_mkdir (F_mkdir _ _ _ _ _) = True"
| "is_mkdir _ = False"

lemma fgetattr_frame: "fgetattr i y = Some (r, y') \<Longrightarrow> held y' = held y"
  by (auto simp: fgetattr_def Let_def split: if_split_asm elim!: bindE dest!: single_lock_frames)

lemma createfile_held: "createfile rs parent name y = Some (r, y') \<Longrightarrow> held y' = held y"
  by (auto simp: createfile_def dest!: add_entry_frame)

lemma makedir_held: "makedir rs parent name y = Some (r, y') \<Longrightarrow> held y' = held y"
  by (auto simp: makedir_def dest!: add_entry_frame)

lemma createhelper_frame: "fuseserver_createhelper rs junk parent name y = Some (r, y') \<Longrightarrow> held y' = held y"
  by (auto simp: fuseserver_createhelper_def Let_def split: if_split_asm elim!: bindE
      dest!: single_lock_frames fgetattr_frame createfile_held)

lemmas call_frames = single_lock_frames unlink_frame fgetattr_frame createhelper_frame makedir_held

lemma mkdir_frame: "fuseserver_mkdir rs junk junk2 parent name y = Some (r, y') \<Longrightarrow> held y' = held y"
  by (auto simp: fuseserver_mkdir_def Let_def split: if_split_asm elim!: bindE dest!: call_frames)

lemma handlers_reply_once:
  "fuseserver_getattr ino y = Some (r, y') \<Longrightarrow> length r = 1 \<and> held y' = held y"
  "fuseserver_setattr ino sz to_set y = Some (r, y') \<Longrightarrow> length r = 1 \<and> held y' = held y"
  "fuseserver_read ino sz off y = Some (r, y') \<Longrightarrow> length r = 1 \<and> held y' = held y"
  "fuseserver_write ino buf sz off y = Some (r, y') \<Longrightarrow> length r = 1 \<and> held y' = held y"
  "fuseserver_open ino y = Some (r, y') \<Longrightarrow> length r = 1 \<and> held y' = held y"
  "fuseserver_create rs junk parent name y = Some (r, y') \<Longrightarrow> length r = 1 \<and> held y' = held y"
  "fuseserver_mknod rs junk parent name y = Some (r, y') \<Longrightarrow> length r = 1 \<and> held y' = held y"
  "fuseserver_lookup junk parent name y = Some (r, y') \<Longrightarrow> length r = 1 \<and> held y' = held y"
  "fuseserver_unlink junk parent name y = Some (r, y') \<Longrightarrow> length r = 1 \<and> held y' = held y"
  "fuseserver_readdir dsz add junk ino sz off y = Some (r, y') \<Longrightarrow> length r = 1 \<and> held y' = held y"
  "fuseserver_statfs y = Some (r, y') \<Longrightarrow> length r = 1 \<and> held y' = held y"
  unfolding fuseserver_getattr_def fuseserver_setattr_def fuseserver_read_def fuseserver_write_def fuseserver_open_def
    fuseserver_create_def fuseserver_mknod_def fuseserver_lookup_def fuseserver_unlink_def fuseserver_readdir_def
    fuseserver_statfs_def
  by (auto split: if_split_asm elim!: bindE dest!: call_frames)



text \<open>
  C33. \<^verbatim>\<open>mkdir\<close> of a name that exists sends no reply at all, so that the caller waits for ever.
\<close>

theorem mkdir_existing_unanswered:
  assumes "ready y" and "held y = []" and "isdir parent" and "ycontent y parent = Some (render es)" and "names_ok es"
    and "\<forall>e\<in>set es. fst e \<noteq> 0" and "name \<in> snd ` set es"
  shows "\<exists>y'. fuseserver_mkdir rs junk junk2 parent name y = Some ([], y')"
proof -
  obtain info y1 where y1: "getdir parent y = Some ((ex_OK, Some info), y1)" "ready y1" "held y1 = []" "ycontent y1 = ycontent y"
    using getdir_spec [OF assms(1,2,4)] by blast
  have p: "parent \<notin> set (held y1)" "ycontent y1 parent = Some (render es)" using y1 assms(4) by simp_all
  obtain en where en: "find (\<lambda>e. snd e = name) es = Some en"
    using assms(7) by (cases "find (\<lambda>e. snd e = name) es") (auto simp: find_None_iff)
  then have "fst en \<noteq> 0" using assms(6) by (auto simp: find_Some_iff)
  then show ?thesis
    using ilookup_spec [OF y1(2) p(1) assms(3) p(2) assms(5), of junk name] y1(1) assms(3) en
    by (auto simp: fuseserver_mkdir_def)
qed

theorem mkdir_existing_unanswered_witness: "\<exists>y'. fuseserver_mkdir [5] 0 0 1 ''a'' demo_dir = Some ([], y')"
proof -
  have "isdir 1" by (simp add: isdir_def isfile_def)
  from mkdir_existing_unanswered [OF demo_dir_ready(1,2) this demo_dir_text, of "''a''"] show ?thesis by simp
qed

end
