(* ===== verification/Protocols.thy ===== *)
theory Protocols
  imports Marshall
begin

text \<open>
  The message structs of \<^verbatim>\<open>paxos_protocol.h\<close> and \<^verbatim>\<open>rsm_protocol.h\<close> with their insertion and extraction
  operators. Each is an interpretation of the codec contract of \<^verbatim>\<open>Marshall\<close>, so that what one node
  inserts is what another extracts.
\<close>

section \<open>Paxos messages\<close>

record prop_t =
  pn :: u32
  pm :: string

record preparearg =
  pa_instance :: u32
  pa_n :: prop_t
  pa_v :: string

record prepareres =
  pr_oldinstance :: u32
  pr_accept :: u32
  pr_n_a :: prop_t
  pr_v_a :: string

record acceptarg =
  aa_instance :: u32
  aa_n :: prop_t
  aa_v :: string

record decidearg =
  da_instance :: u32
  da_v :: string

definition get_prop_t :: "prop_t getter" where
  "get_prop_t a u =
     do { (x1, u1) \<leftarrow> get_uint (pn a) u;
          (x2, u2) \<leftarrow> get_string (pm a) u1;
          Some (\<lparr>pn = x1, pm = x2\<rparr>, u2) }"

definition put_prop_t :: "prop_t \<Rightarrow> marshall \<Rightarrow> marshall" where
  "put_prop_t a m = put_string (pm a) (put_uint (pn a) m)"

definition get_preparearg :: "preparearg getter" where
  "get_preparearg a u =
     do { (x1, u1) \<leftarrow> get_uint (pa_instance a) u;
          (x2, u2) \<leftarrow> get_prop_t (pa_n a) u1;
          (x3, u3) \<leftarrow> get_string (pa_v a) u2;
          Some (\<lparr>pa_instance = x1, pa_n = x2, pa_v = x3\<rparr>, u3) }"

definition put_preparearg :: "preparearg \<Rightarrow> marshall \<Rightarrow> marshall" where
  "put_preparearg a m = put_string (pa_v a) (put_prop_t (pa_n a) (put_uint (pa_instance a) m))"

definition get_prepareres :: "prepareres getter" where
  "get_prepareres r u =
     do { (x1, u1) \<leftarrow> get_int (pr_oldinstance r) u;
          (x2, u2) \<leftarrow> get_int (pr_accept r) u1;
          (x3, u3) \<leftarrow> get_prop_t (pr_n_a r) u2;
          (x4, u4) \<leftarrow> get_string (pr_v_a r) u3;
          Some (\<lparr>pr_oldinstance = x1, pr_accept = x2, pr_n_a = x3, pr_v_a = x4\<rparr>, u4) }"

definition put_prepareres :: "prepareres \<Rightarrow> marshall \<Rightarrow> marshall" where
  "put_prepareres r m =
     put_string (pr_v_a r) (put_prop_t (pr_n_a r) (put_int (pr_accept r) (put_int (pr_oldinstance r) m)))"

definition get_acceptarg :: "acceptarg getter" where
  "get_acceptarg a u =
     do { (x1, u1) \<leftarrow> get_uint (aa_instance a) u;
          (x2, u2) \<leftarrow> get_prop_t (aa_n a) u1;
          (x3, u3) \<leftarrow> get_string (aa_v a) u2;
          Some (\<lparr>aa_instance = x1, aa_n = x2, aa_v = x3\<rparr>, u3) }"

definition put_acceptarg :: "acceptarg \<Rightarrow> marshall \<Rightarrow> marshall" where
  "put_acceptarg a m = put_string (aa_v a) (put_prop_t (aa_n a) (put_uint (aa_instance a) m))"

definition get_decidearg :: "decidearg getter" where
  "get_decidearg a u =
     do { (x1, u1) \<leftarrow> get_uint (da_instance a) u;
          (x2, u2) \<leftarrow> get_string (da_v a) u1;
          Some (\<lparr>da_instance = x1, da_v = x2\<rparr>, u2) }"

definition put_decidearg :: "decidearg \<Rightarrow> marshall \<Rightarrow> marshall" where
  "put_decidearg a m = put_string (da_v a) (put_uint (da_instance a) m)"

section \<open>Messages of the replicated state machine\<close>

record viewstamp =
  vid :: u32
  seqno :: u32

record transferres =
  tr_state :: string
  tr_last :: viewstamp

record joinres =
  jr_log :: string

definition viewstamp_eq :: "viewstamp \<Rightarrow> viewstamp \<Rightarrow> bool" where
  "viewstamp_eq a b \<longleftrightarrow> vid a = vid b \<and> seqno a = seqno b"

definition viewstamp_gt :: "viewstamp \<Rightarrow> viewstamp \<Rightarrow> bool" where
  "viewstamp_gt a b \<longleftrightarrow> vid a > vid b \<or> vid a = vid b \<and> seqno a > seqno b"

definition viewstamp_ne :: "viewstamp \<Rightarrow> viewstamp \<Rightarrow> bool" where
  "viewstamp_ne a b \<longleftrightarrow> vid a \<noteq> vid b \<or> seqno a \<noteq> seqno b"

definition put_viewstamp :: "viewstamp \<Rightarrow> marshall \<Rightarrow> marshall" where
  "put_viewstamp v m = put_uint (seqno v) (put_uint (vid v) m)"

definition get_viewstamp :: "viewstamp getter" where
  "get_viewstamp v u =
     do { (x1, u1) \<leftarrow> get_uint (vid v) u;
          (x2, u2) \<leftarrow> get_uint (seqno v) u1;
          Some (\<lparr>vid = x1, seqno = x2\<rparr>, u2) }"

definition put_transferres :: "transferres \<Rightarrow> marshall \<Rightarrow> marshall" where
  "put_transferres r m = put_viewstamp (tr_last r) (put_string (tr_state r) m)"

definition get_transferres :: "transferres getter" where
  "get_transferres r u =
     do { (x1, u1) \<leftarrow> get_string (tr_state r) u;
          (x2, u2) \<leftarrow> get_viewstamp (tr_last r) u1;
          Some (\<lparr>tr_state = x1, tr_last = x2\<rparr>, u2) }"

definition put_joinres :: "joinres \<Rightarrow> marshall \<Rightarrow> marshall" where
  "put_joinres r m = put_string (jr_log r) m"

definition get_joinres :: "joinres getter" where
  "get_joinres r u = do { (x1, u1) \<leftarrow> get_string (jr_log r) u; Some (\<lparr>jr_log = x1\<rparr>, u1) }"

section \<open>The codecs\<close>

context codec
begin

lemma get_next:
  assumes "u_at u (enc x @ r)" and "encodable x"
  shows "get old u = Some (x, u_adv (length (enc x)) u)" and "u_at (u_adv (length (enc x)) u) r"
  using get_enc [OF assms] u_at_adv [OF assms(1)] by simp_all

end

definition enc_prop_t :: "prop_t \<Rightarrow> string" where
  "enc_prop_t a = be32 (pn a) @ enc_string (pm a)"

definition prop_ok :: "prop_t \<Rightarrow> bool" where
  "prop_ok a \<longleftrightarrow> string_ok (pm a)"

lemma get_prop_t_at:
  assumes "u_at u (enc_prop_t a @ r)" and "prop_ok a"
  shows "get_prop_t old u = Some (a, u_adv (length (enc_prop_t a)) u)"
proof -
  have at: "u_at u (be32 (pn a) @ enc_string (pm a) @ r)" using assms(1) by (simp add: enc_prop_t_def)
  note at1 = uint.get_next(2) [OF at TrueI]
  show ?thesis using assms(2) uint.get_next(1) [OF at TrueI] str.get_next(1) [OF at1]
    by (simp add: get_prop_t_def enc_prop_t_def prop_ok_def)
qed

interpretation propt: codec enc_prop_t put_prop_t get_prop_t prop_ok
proof
qed (simp_all add: put_prop_t_def enc_prop_t_def prop_ok_def uint.put_wf uint.put_written uint.put_ind uint.put_undef
  str.put_wf str.put_written str.put_ind str.put_undef get_prop_t_at [unfolded enc_prop_t_def prop_ok_def])

lemmas codec_puts = uint.put_wf uint.put_written uint.put_ind uint.put_undef
  sint.put_wf sint.put_written sint.put_ind sint.put_undef str.put_wf str.put_written str.put_ind str.put_undef
  propt.put_wf propt.put_written propt.put_ind propt.put_undef

definition enc_preparearg :: "preparearg \<Rightarrow> string" where
  "enc_preparearg a = be32 (pa_instance a) @ enc_prop_t (pa_n a) @ enc_string (pa_v a)"

definition preparearg_ok :: "preparearg \<Rightarrow> bool" where
  "preparearg_ok a \<longleftrightarrow> prop_ok (pa_n a) \<and> string_ok (pa_v a)"

interpretation preparearg: codec enc_preparearg put_preparearg get_preparearg preparearg_ok
proof
  fix u a r old
  assume h: "u_at u (enc_preparearg a @ r)" "preparearg_ok a"
  then have at: "u_at u (be32 (pa_instance a) @ enc_prop_t (pa_n a) @ enc_string (pa_v a) @ r)"
    and ok: "prop_ok (pa_n a)" "string_ok (pa_v a)"
    by (simp_all add: enc_preparearg_def preparearg_ok_def)
  note at1 = uint.get_next(2) [OF at TrueI] and g1 = uint.get_next(1) [OF at TrueI]
  note at2 = propt.get_next(2) [OF at1 ok(1)] and g2 = propt.get_next(1) [OF at1 ok(1)]
  note g3 = str.get_next(1) [OF at2 ok(2)]
  show "get_preparearg old u = Some (a, u_adv (length (enc_preparearg a)) u)"
    using g1 g2 g3 by (simp add: get_preparearg_def enc_preparearg_def add.assoc)
qed (simp_all add: put_preparearg_def enc_preparearg_def preparearg_ok_def codec_puts)

definition enc_prepareres :: "prepareres \<Rightarrow> string" where
  "enc_prepareres r = be32 (pr_oldinstance r) @ be32 (pr_accept r) @ enc_prop_t (pr_n_a r) @ enc_string (pr_v_a r)"

definition prepareres_ok :: "prepareres \<Rightarrow> bool" where
  "prepareres_ok r \<longleftrightarrow> prop_ok (pr_n_a r) \<and> string_ok (pr_v_a r)"

interpretation prepareres: codec enc_prepareres put_prepareres get_prepareres prepareres_ok
proof
  fix u a r old
  assume h: "u_at u (enc_prepareres a @ r)" "prepareres_ok a"
  then have at: "u_at u (be32 (pr_oldinstance a) @ be32 (pr_accept a) @ enc_prop_t (pr_n_a a) @ enc_string (pr_v_a a) @ r)"
    and ok: "prop_ok (pr_n_a a)" "string_ok (pr_v_a a)"
    by (simp_all add: enc_prepareres_def prepareres_ok_def)
  note at1 = sint.get_next(2) [OF at TrueI] and g1 = sint.get_next(1) [OF at TrueI]
  note at2 = sint.get_next(2) [OF at1 TrueI] and g2 = sint.get_next(1) [OF at1 TrueI]
  note at3 = propt.get_next(2) [OF at2 ok(1)] and g3 = propt.get_next(1) [OF at2 ok(1)]
  note g4 = str.get_next(1) [OF at3 ok(2)]
  show "get_prepareres old u = Some (a, u_adv (length (enc_prepareres a)) u)"
    using g1 g2 g3 g4 by (simp add: get_prepareres_def enc_prepareres_def add.assoc)
qed (simp_all add: put_prepareres_def enc_prepareres_def prepareres_ok_def codec_puts)

definition enc_acceptarg :: "acceptarg \<Rightarrow> string" where
  "enc_acceptarg a = be32 (aa_instance a) @ enc_prop_t (aa_n a) @ enc_string (aa_v a)"

definition acceptarg_ok :: "acceptarg \<Rightarrow> bool" where
  "acceptarg_ok a \<longleftrightarrow> prop_ok (aa_n a) \<and> string_ok (aa_v a)"

interpretation acceptarg: codec enc_acceptarg put_acceptarg get_acceptarg acceptarg_ok
proof
  fix u a r old
  assume h: "u_at u (enc_acceptarg a @ r)" "acceptarg_ok a"
  then have at: "u_at u (be32 (aa_instance a) @ enc_prop_t (aa_n a) @ enc_string (aa_v a) @ r)"
    and ok: "prop_ok (aa_n a)" "string_ok (aa_v a)"
    by (simp_all add: enc_acceptarg_def acceptarg_ok_def)
  note at1 = uint.get_next(2) [OF at TrueI] and g1 = uint.get_next(1) [OF at TrueI]
  note at2 = propt.get_next(2) [OF at1 ok(1)] and g2 = propt.get_next(1) [OF at1 ok(1)]
  note g3 = str.get_next(1) [OF at2 ok(2)]
  show "get_acceptarg old u = Some (a, u_adv (length (enc_acceptarg a)) u)"
    using g1 g2 g3 by (simp add: get_acceptarg_def enc_acceptarg_def add.assoc)
qed (simp_all add: put_acceptarg_def enc_acceptarg_def acceptarg_ok_def codec_puts)

definition enc_decidearg :: "decidearg \<Rightarrow> string" where
  "enc_decidearg a = be32 (da_instance a) @ enc_string (da_v a)"

interpretation decidearg: codec enc_decidearg put_decidearg get_decidearg "\<lambda>a. string_ok (da_v a)"
proof
  fix u r old and a :: decidearg
  assume h: "u_at u (enc_decidearg a @ r)" "string_ok (da_v a)"
  then have at: "u_at u (be32 (da_instance a) @ enc_string (da_v a) @ r)" by (simp add: enc_decidearg_def)
  note at1 = uint.get_next(2) [OF at TrueI] and g1 = uint.get_next(1) [OF at TrueI]
  note g2 = str.get_next(1) [OF at1 h(2)]
  show "get_decidearg old u = Some (a, u_adv (length (enc_decidearg a)) u)"
    using g1 g2 by (simp add: get_decidearg_def enc_decidearg_def)
qed (simp_all add: put_decidearg_def enc_decidearg_def codec_puts)

definition enc_viewstamp :: "viewstamp \<Rightarrow> string" where
  "enc_viewstamp v = be32 (vid v) @ be32 (seqno v)"

interpretation viewst: codec enc_viewstamp put_viewstamp get_viewstamp "\<lambda>_. True"
proof
  fix u v r old
  assume "u_at u (enc_viewstamp v @ r)"
  then have at: "u_at u (be32 (vid v) @ be32 (seqno v) @ r)" by (simp add: enc_viewstamp_def)
  note at1 = uint.get_next(2) [OF at TrueI] and g1 = uint.get_next(1) [OF at TrueI]
  show "get_viewstamp old u = Some (v, u_adv (length (enc_viewstamp v)) u)"
    using g1 uint.get_next(1) [OF at1 TrueI] by (simp add: get_viewstamp_def enc_viewstamp_def)
qed (simp_all add: put_viewstamp_def enc_viewstamp_def codec_puts)

definition enc_transferres :: "transferres \<Rightarrow> string" where
  "enc_transferres r = enc_string (tr_state r) @ enc_viewstamp (tr_last r)"

interpretation transferres: codec enc_transferres put_transferres get_transferres "\<lambda>r. string_ok (tr_state r)"
proof
  fix u r old and a :: transferres
  assume h: "u_at u (enc_transferres a @ r)" "string_ok (tr_state a)"
  then have at: "u_at u (enc_string (tr_state a) @ enc_viewstamp (tr_last a) @ r)" by (simp add: enc_transferres_def)
  note at1 = str.get_next(2) [OF at h(2)] and g1 = str.get_next(1) [OF at h(2)]
  show "get_transferres old u = Some (a, u_adv (length (enc_transferres a)) u)"
    using g1 viewst.get_next(1) [OF at1 TrueI] by (simp add: get_transferres_def enc_transferres_def)
qed (simp_all add: put_transferres_def enc_transferres_def codec_puts viewst.put_wf viewst.put_written viewst.put_ind viewst.put_undef)

interpretation joinres: codec "\<lambda>r. enc_string (jr_log r)" put_joinres get_joinres "\<lambda>r. string_ok (jr_log r)"
  by unfold_locales (simp_all add: put_joinres_def get_joinres_def codec_puts str.get_enc)

text \<open>
  C34. The Paxos messages survive the wire: a reply to a prepare request written into a fresh buffer is,
  byte for byte, its encoding, and the receiver reads the same reply back from it with nothing left
  over, whatever its variable held before. Up to a gigabyte no \<^verbatim>\<open>int\<close> of the buffer overflows on the way.
\<close>

theorem prepareres_roundtrip:
  assumes "string_ok (pm (pr_n_a r))" and "string_ok (pr_v_a r)" and "length junk = 24"
    and "length (pm (pr_n_a r)) + length (pr_v_a r) < 2 ^ 31 - 64"
  shows "m_get_content (put_prepareres r marshall_new) = map Some (enc_prepareres r) \<and>
         (\<exists>u. get_prepareres old (take_content junk (enc_prepareres r)) = Some (r, u) \<and> okdone u) \<and>
         (length (pm (pr_n_a r)) + length (pr_v_a r) \<le> 2 ^ 30 - 64 \<longrightarrow> \<not> m_undef (put_prepareres r marshall_new))"
proof -
  have ok: "prepareres_ok r" using assms(1,2) by (simp add: prepareres_ok_def prop_ok_def)
  have len: "length (enc_prepareres r) = 20 + length (pm (pr_n_a r)) + length (pr_v_a r)"
    by (simp add: enc_prepareres_def enc_prop_t_def enc_string_def)
  have "length (enc_prepareres r) < 2 ^ 31 - 24" using assms(4) len by simp
  note rt = prepareres.roundtrip [OF ok assms(3) this]
  have "\<not> m_undef (put_prepareres r marshall_new)" if "length (pm (pr_n_a r)) + length (pr_v_a r) \<le> 2 ^ 30 - 64"
    using rt(3) that len by simp
  then show ?thesis using rt(1,2) by blast
qed

theorem prepareres_roundtrip_witness:
  "\<exists>u. get_prepareres \<lparr>pr_oldinstance = 0, pr_accept = 0, pr_n_a = \<lparr>pn = 0, pm = []\<rparr>, pr_v_a = []\<rparr>
     (take_content (replicate 24 (CHR ''x''))
       (enc_prepareres \<lparr>pr_oldinstance = 0, pr_accept = 1, pr_n_a = \<lparr>pn = 3, pm = ''n1''\<rparr>, pr_v_a = ''v''\<rparr>)) =
     Some (\<lparr>pr_oldinstance = 0, pr_accept = 1, pr_n_a = \<lparr>pn = 3, pm = ''n1''\<rparr>, pr_v_a = ''v''\<rparr>, u)"
  using prepareres_roundtrip [of "\<lparr>pr_oldinstance = 0, pr_accept = 1, pr_n_a = \<lparr>pn = 3, pm = ''n1''\<rparr>, pr_v_a = ''v''\<rparr>"
      "replicate 24 (CHR ''x'')" "\<lparr>pr_oldinstance = 0, pr_accept = 0, pr_n_a = \<lparr>pn = 0, pm = []\<rparr>, pr_v_a = []\<rparr>"]
  by (auto simp: string_ok_def)

end
