(* ===== verification/Rpc_Stub.thy ===== *)
theory Rpc_Stub
  imports Rpc_Server Protocols
begin

text \<open>
  The templates of \<^verbatim>\<open>rpc.h\<close> that turn a remote call into bytes and back: the eight overloads of
  \<^verbatim>\<open>rpcc::call\<close> with \<^verbatim>\<open>rpcc::call_m\<close> on the client, and the seven overloads of \<^verbatim>\<open>rpcs::reg\<close> with the
  handler class each of them defines on the server. An argument or result type is its insertion and
  extraction operator; a C++ variable that is declared and not initialised holds an arbitrary value.

  The property of this theory composes both sides: over a transport that delivers the
  bytes, a remote call is the call of the method.
\<close>

section \<open>Client\<close>

abbreviation unmarshal_reply_failure :: u32 where "unmarshal_reply_failure \<equiv> -3"

text \<open>
  What a call uses besides its arguments: \<^verbatim>\<open>call1\<close>, which sends the request and returns the status and the
  reply, the extraction operator of the result and the value of the result variable before the call.
\<close>

type_synonym 'a putter = "'a \<Rightarrow> marshall \<Rightarrow> marshall"

record ('r, 'w) caller_env =
  env_call1 :: "u32 \<Rightarrow> marshall \<Rightarrow> 'w \<Rightarrow> ((u32 \<times> unmarshall) \<times> 'w) option"
  env_get :: "'r getter"
  env_old :: 'r

definition call_m :: "('r, 'w) caller_env \<Rightarrow> u32 \<Rightarrow> marshall \<Rightarrow> 'w \<Rightarrow> ((u32 \<times> 'r) \<times> 'w) option" where
  "call_m env proc req w =
     do { ((intret, u), w1) \<leftarrow> env_call1 env proc req w;
          if sint intret < 0 then Some ((intret, env_old env), w1)
          else do { (r, u1) \<leftarrow> env_get env (env_old env) u;
                    Some ((if \<not> okdone u1 then unmarshal_reply_failure else intret, r), w1) } }"

definition call0 :: "('r, 'w) caller_env \<Rightarrow> u32 \<Rightarrow> 'w \<Rightarrow> ((u32 \<times> 'r) \<times> 'w) option" where
  "call0 env proc w = call_m env proc marshall_new w"

definition call1 ::
  "('r, 'w) caller_env \<Rightarrow> 'a1 putter \<Rightarrow> u32 \<Rightarrow> 'a1 \<Rightarrow> 'w \<Rightarrow>
     ((u32 \<times> 'r) \<times> 'w) option" where
  "call1 env p1 proc a1 w = call_m env proc (p1 a1 marshall_new) w"

definition call2 ::
  "('r, 'w) caller_env \<Rightarrow> 'a1 putter \<Rightarrow> 'a2 putter \<Rightarrow> u32 \<Rightarrow> 'a1 \<Rightarrow>
     'a2 \<Rightarrow> 'w \<Rightarrow> ((u32 \<times> 'r) \<times> 'w) option" where
  "call2 env p1 p2 proc a1 a2 w = call_m env proc (p2 a2 (p1 a1 marshall_new)) w"

definition call3 ::
  "('r, 'w) caller_env \<Rightarrow> 'a1 putter \<Rightarrow> 'a2 putter \<Rightarrow> 'a3 putter \<Rightarrow>
     u32 \<Rightarrow> 'a1 \<Rightarrow> 'a2 \<Rightarrow> 'a3 \<Rightarrow> 'w \<Rightarrow>
     ((u32 \<times> 'r) \<times> 'w) option" where
  "call3 env p1 p2 p3 proc a1 a2 a3 w = call_m env proc (p3 a3 (p2 a2 (p1 a1 marshall_new))) w"

definition call4 ::
  "('r, 'w) caller_env \<Rightarrow> 'a1 putter \<Rightarrow> 'a2 putter \<Rightarrow> 'a3 putter \<Rightarrow>
     'a4 putter \<Rightarrow> u32 \<Rightarrow> 'a1 \<Rightarrow> 'a2 \<Rightarrow> 'a3 \<Rightarrow> 'a4 \<Rightarrow>
     'w \<Rightarrow> ((u32 \<times> 'r) \<times> 'w) option" where
  "call4 env p1 p2 p3 p4 proc a1 a2 a3 a4 w = call_m env proc (p4 a4 (p3 a3 (p2 a2 (p1 a1 marshall_new)))) w"

definition call5 ::
  "('r, 'w) caller_env \<Rightarrow> 'a1 putter \<Rightarrow> 'a2 putter \<Rightarrow> 'a3 putter \<Rightarrow>
     'a4 putter \<Rightarrow> 'a5 putter \<Rightarrow> u32 \<Rightarrow> 'a1 \<Rightarrow> 'a2 \<Rightarrow> 'a3 \<Rightarrow>
     'a4 \<Rightarrow> 'a5 \<Rightarrow> 'w \<Rightarrow> ((u32 \<times> 'r) \<times> 'w) option" where
  "call5 env p1 p2 p3 p4 p5 proc a1 a2 a3 a4 a5 w = call_m env proc (p5 a5 (p4 a4 (p3 a3 (p2 a2 (p1 a1 marshall_new))))) w"

definition call6 ::
  "('r, 'w) caller_env \<Rightarrow> 'a1 putter \<Rightarrow> 'a2 putter \<Rightarrow> 'a3 putter \<Rightarrow>
     'a4 putter \<Rightarrow> 'a5 putter \<Rightarrow> 'a6 putter \<Rightarrow> u32 \<Rightarrow> 'a1 \<Rightarrow>
     'a2 \<Rightarrow> 'a3 \<Rightarrow> 'a4 \<Rightarrow> 'a5 \<Rightarrow> 'a6 \<Rightarrow> 'w \<Rightarrow>
     ((u32 \<times> 'r) \<times> 'w) option" where
  "call6 env p1 p2 p3 p4 p5 p6 proc a1 a2 a3 a4 a5 a6 w = call_m env proc (p6 a6 (p5 a5 (p4 a4 (p3 a3 (p2 a2 (p1 a1 marshall_new)))))) w"

definition call7 ::
  "('r, 'w) caller_env \<Rightarrow> 'a1 putter \<Rightarrow> 'a2 putter \<Rightarrow> 'a3 putter \<Rightarrow>
     'a4 putter \<Rightarrow> 'a5 putter \<Rightarrow> 'a6 putter \<Rightarrow> 'a7 putter \<Rightarrow> u32 \<Rightarrow>
     'a1 \<Rightarrow> 'a2 \<Rightarrow> 'a3 \<Rightarrow> 'a4 \<Rightarrow> 'a5 \<Rightarrow> 'a6 \<Rightarrow>
     'a7 \<Rightarrow> 'w \<Rightarrow> ((u32 \<times> 'r) \<times> 'w) option" where
  "call7 env p1 p2 p3 p4 p5 p6 p7 proc a1 a2 a3 a4 a5 a6 a7 w = call_m env proc (p7 a7 (p6 a6 (p5 a5 (p4 a4 (p3 a3 (p2 a2 (p1 a1 marshall_new))))))) w"

section \<open>Server\<close>

text \<open>
  The common part of the handler classes: the extraction of an argument into a variable that holds
  anything, and what follows the last argument.
\<close>

type_synonym 'a arg = "'a getter \<times> 'a"

type_synonym ('r, 's) body = "'s \<Rightarrow> ((u32 \<times> 'r) \<times> 's) option"

definition get_arg :: "'a arg \<Rightarrow> unmarshall \<Rightarrow> ('a \<times> unmarshall) option" where
  "get_arg g u = fst g (snd g) u"

definition run_method :: "('r, 's) body \<Rightarrow> 'r putter \<Rightarrow> unmarshall \<Rightarrow> marshall \<Rightarrow> 's \<Rightarrow>
    ((u32 \<times> marshall) \<times> 's) option" where
  "run_method mth pr args m s =
     (if \<not> okdone args then Some ((unmarshal_args_failure, m), s)
      else do { ((b, r), s1) \<leftarrow> mth s; Some ((b, pr r m), s1) })"

definition fn1 ::
  "'a1 arg \<Rightarrow> 'r putter \<Rightarrow> ('a1 \<Rightarrow> ('r, 's) body) \<Rightarrow> 's handler" where
  "fn1 g1 pr mth u m s =
     do { (a1, u1) \<leftarrow> get_arg g1 u;
          run_method (mth a1) pr u1 m s }"

definition reg_1 ::
  "u32 \<Rightarrow> 'a1 arg \<Rightarrow> 'r putter \<Rightarrow> ('a1 \<Rightarrow> ('r, 's) body) \<Rightarrow>
     's rpcs \<Rightarrow> 's rpcs option" where
  "reg_1 proc g1 pr mth st = reg1 proc (fn1 g1 pr mth) st"

definition fn2 ::
  "'a1 arg \<Rightarrow> 'a2 arg \<Rightarrow> 'r putter \<Rightarrow> ('a1 \<Rightarrow> 'a2 \<Rightarrow>
     ('r, 's) body) \<Rightarrow> 's handler" where
  "fn2 g1 g2 pr mth u m s =
     do { (a1, u1) \<leftarrow> get_arg g1 u;
          (a2, u2) \<leftarrow> get_arg g2 u1;
          run_method (mth a1 a2) pr u2 m s }"

definition reg_2 ::
  "u32 \<Rightarrow> 'a1 arg \<Rightarrow> 'a2 arg \<Rightarrow> 'r putter \<Rightarrow> ('a1 \<Rightarrow> 'a2 \<Rightarrow>
     ('r, 's) body) \<Rightarrow> 's rpcs \<Rightarrow> 's rpcs option" where
  "reg_2 proc g1 g2 pr mth st = reg1 proc (fn2 g1 g2 pr mth) st"

definition fn3 ::
  "'a1 arg \<Rightarrow> 'a2 arg \<Rightarrow> 'a3 arg \<Rightarrow> 'r putter \<Rightarrow> ('a1 \<Rightarrow>
     'a2 \<Rightarrow> 'a3 \<Rightarrow> ('r, 's) body) \<Rightarrow> 's handler" where
  "fn3 g1 g2 g3 pr mth u m s =
     do { (a1, u1) \<leftarrow> get_arg g1 u;
          (a2, u2) \<leftarrow> get_arg g2 u1;
          (a3, u3) \<leftarrow> get_arg g3 u2;
          run_method (mth a1 a2 a3) pr u3 m s }"

definition reg_3 ::
  "u32 \<Rightarrow> 'a1 arg \<Rightarrow> 'a2 arg \<Rightarrow> 'a3 arg \<Rightarrow> 'r putter \<Rightarrow>
     ('a1 \<Rightarrow> 'a2 \<Rightarrow> 'a3 \<Rightarrow> ('r, 's) body) \<Rightarrow> 's rpcs \<Rightarrow>
     's rpcs option" where
  "reg_3 proc g1 g2 g3 pr mth st = reg1 proc (fn3 g1 g2 g3 pr mth) st"

definition fn4 ::
  "'a1 arg \<Rightarrow> 'a2 arg \<Rightarrow> 'a3 arg \<Rightarrow> 'a4 arg \<Rightarrow> 'r putter \<Rightarrow>
     ('a1 \<Rightarrow> 'a2 \<Rightarrow> 'a3 \<Rightarrow> 'a4 \<Rightarrow> ('r, 's) body) \<Rightarrow>
     's handler" where
  "fn4 g1 g2 g3 g4 pr mth u m s =
     do { (a1, u1) \<leftarrow> get_arg g1 u;
          (a2, u2) \<leftarrow> get_arg g2 u1;
          (a3, u3) \<leftarrow> get_arg g3 u2;
          (a4, u4) \<leftarrow> get_arg g4 u3;
          run_method (mth a1 a2 a3 a4) pr u4 m s }"

definition reg_4 ::
  "u32 \<Rightarrow> 'a1 arg \<Rightarrow> 'a2 arg \<Rightarrow> 'a3 arg \<Rightarrow> 'a4 arg \<Rightarrow>
     'r putter \<Rightarrow> ('a1 \<Rightarrow> 'a2 \<Rightarrow> 'a3 \<Rightarrow> 'a4 \<Rightarrow>
     ('r, 's) body) \<Rightarrow> 's rpcs \<Rightarrow> 's rpcs option" where
  "reg_4 proc g1 g2 g3 g4 pr mth st = reg1 proc (fn4 g1 g2 g3 g4 pr mth) st"

definition fn5 ::
  "'a1 arg \<Rightarrow> 'a2 arg \<Rightarrow> 'a3 arg \<Rightarrow> 'a4 arg \<Rightarrow> 'a5 arg \<Rightarrow>
     'r putter \<Rightarrow> ('a1 \<Rightarrow> 'a2 \<Rightarrow> 'a3 \<Rightarrow> 'a4 \<Rightarrow> 'a5 \<Rightarrow>
     ('r, 's) body) \<Rightarrow> 's handler" where
  "fn5 g1 g2 g3 g4 g5 pr mth u m s =
     do { (a1, u1) \<leftarrow> get_arg g1 u;
          (a2, u2) \<leftarrow> get_arg g2 u1;
          (a3, u3) \<leftarrow> get_arg g3 u2;
          (a4, u4) \<leftarrow> get_arg g4 u3;
          (a5, u5) \<leftarrow> get_arg g5 u4;
          run_method (mth a1 a2 a3 a4 a5) pr u5 m s }"

definition reg_5 ::
  "u32 \<Rightarrow> 'a1 arg \<Rightarrow> 'a2 arg \<Rightarrow> 'a3 arg \<Rightarrow> 'a4 arg \<Rightarrow>
     'a5 arg \<Rightarrow> 'r putter \<Rightarrow> ('a1 \<Rightarrow> 'a2 \<Rightarrow> 'a3 \<Rightarrow> 'a4 \<Rightarrow>
     'a5 \<Rightarrow> ('r, 's) body) \<Rightarrow> 's rpcs \<Rightarrow> 's rpcs option" where
  "reg_5 proc g1 g2 g3 g4 g5 pr mth st = reg1 proc (fn5 g1 g2 g3 g4 g5 pr mth) st"

definition fn6 ::
  "'a1 arg \<Rightarrow> 'a2 arg \<Rightarrow> 'a3 arg \<Rightarrow> 'a4 arg \<Rightarrow> 'a5 arg \<Rightarrow>
     'a6 arg \<Rightarrow> 'r putter \<Rightarrow> ('a1 \<Rightarrow> 'a2 \<Rightarrow> 'a3 \<Rightarrow> 'a4 \<Rightarrow>
     'a5 \<Rightarrow> 'a6 \<Rightarrow> ('r, 's) body) \<Rightarrow> 's handler" where
  "fn6 g1 g2 g3 g4 g5 g6 pr mth u m s =
     do { (a1, u1) \<leftarrow> get_arg g1 u;
          (a2, u2) \<leftarrow> get_arg g2 u1;
          (a3, u3) \<leftarrow> get_arg g3 u2;
          (a4, u4) \<leftarrow> get_arg g4 u3;
          (a5, u5) \<leftarrow> get_arg g5 u4;
          (a6, u6) \<leftarrow> get_arg g6 u5;
          run_method (mth a1 a2 a3 a4 a5 a6) pr u6 m s }"

definition reg_6 ::
  "u32 \<Rightarrow> 'a1 arg \<Rightarrow> 'a2 arg \<Rightarrow> 'a3 arg \<Rightarrow> 'a4 arg \<Rightarrow>
     'a5 arg \<Rightarrow> 'a6 arg \<Rightarrow> 'r putter \<Rightarrow> ('a1 \<Rightarrow> 'a2 \<Rightarrow>
     'a3 \<Rightarrow> 'a4 \<Rightarrow> 'a5 \<Rightarrow> 'a6 \<Rightarrow> ('r, 's) body) \<Rightarrow>
     's rpcs \<Rightarrow> 's rpcs option" where
  "reg_6 proc g1 g2 g3 g4 g5 g6 pr mth st = reg1 proc (fn6 g1 g2 g3 g4 g5 g6 pr mth) st"

definition fn7 ::
  "'a1 arg \<Rightarrow> 'a2 arg \<Rightarrow> 'a3 arg \<Rightarrow> 'a4 arg \<Rightarrow> 'a5 arg \<Rightarrow>
     'a6 arg \<Rightarrow> 'a7 arg \<Rightarrow> 'r putter \<Rightarrow> ('a1 \<Rightarrow> 'a2 \<Rightarrow>
     'a3 \<Rightarrow> 'a4 \<Rightarrow> 'a5 \<Rightarrow> 'a6 \<Rightarrow> 'a7 \<Rightarrow> ('r, 's) body) \<Rightarrow>
     's handler" where
  "fn7 g1 g2 g3 g4 g5 g6 g7 pr mth u m s =
     do { (a1, u1) \<leftarrow> get_arg g1 u;
          (a2, u2) \<leftarrow> get_arg g2 u1;
          (a3, u3) \<leftarrow> get_arg g3 u2;
          (a4, u4) \<leftarrow> get_arg g4 u3;
          (a5, u5) \<leftarrow> get_arg g5 u4;
          (a6, u6) \<leftarrow> get_arg g6 u5;
          (a7, u7) \<leftarrow> get_arg g7 u6;
          run_method (mth a1 a2 a3 a4 a5 a6 a7) pr u7 m s }"

definition reg_7 ::
  "u32 \<Rightarrow> 'a1 arg \<Rightarrow> 'a2 arg \<Rightarrow> 'a3 arg \<Rightarrow> 'a4 arg \<Rightarrow>
     'a5 arg \<Rightarrow> 'a6 arg \<Rightarrow> 'a7 arg \<Rightarrow> 'r putter \<Rightarrow> ('a1 \<Rightarrow>
     'a2 \<Rightarrow> 'a3 \<Rightarrow> 'a4 \<Rightarrow> 'a5 \<Rightarrow> 'a6 \<Rightarrow> 'a7 \<Rightarrow>
     ('r, 's) body) \<Rightarrow> 's rpcs \<Rightarrow> 's rpcs option" where
  "reg_7 proc g1 g2 g3 g4 g5 g6 g7 pr mth st = reg1 proc (fn7 g1 g2 g3 g4 g5 g6 g7 pr mth) st"


section \<open>A remote call is a call\<close>

text \<open>The transport between \<^verbatim>\<open>call1\<close> and the handler: the content of the buffers is delivered, the header is anything.\<close>

definition transport :: "string \<Rightarrow> 's handler \<Rightarrow> u32 \<Rightarrow> marshall \<Rightarrow> 's \<Rightarrow> ((u32 \<times> unmarshall) \<times> 's) option" where
  "transport junk h proc req s =
     do { ((b, rep), s1) \<leftarrow> h (take_content junk (map the (m_get_content req))) marshall_new s;
          Some ((b, take_content junk (map the (m_get_content rep))), s1) }"

lemma take_content_at:
  assumes "length junk = 24" and "length t < 2 ^ 31 - 24"
  shows "u_at (take_content junk t) t"
  using assms by (simp add: u_at_def take_content_def)

lemma map_the_Some [simp]: "map the (map Some xs) = xs"
  by (induction xs) simp_all

context codec
begin

lemma put_new:
  assumes "encodable x" and "m_wf m" and "m_get_content m = map Some t"
  shows "m_wf (put x m)" and "m_get_content (put x m) = map Some (t @ enc x)"
  using put_wf [OF assms(2,1)] get_content_put [OF assms(2,1)] assms(3) by simp_all

lemma get_arg_at:
  assumes "u_at u (enc x @ r)" and "encodable x"
  shows "get_arg (get, z) u = Some (x, u_adv (length (enc x)) u)" and "u_at (u_adv (length (enc x)) u) r"
  using get_next [OF assms] by (simp_all add: get_arg_def)

end

lemma content_new: "m_get_content marshall_new = map Some []"
  by (simp add: m_get_content_def marshall_new_def)



section \<open>The plain lock client\<close>

text \<open>
  \<^verbatim>\<open>lock_client.cc\<close>: the stubs of the lock protocol. \<open>clt\<close> is the nonce of the RPC client.
\<close>

definition lock_client_acquire :: "(u32, 'w) caller_env \<Rightarrow> u32 \<Rightarrow> u64 \<Rightarrow> 'w \<Rightarrow> (u32 \<times> 'w) option" where
  "lock_client_acquire env clt lid w =
     do { ((ret, r), w1) \<leftarrow> call2 env put_uint put_ull 0x7001 clt lid w; Some (ret, w1) }"

definition lock_client_release :: "(u32, 'w) caller_env \<Rightarrow> u32 \<Rightarrow> u64 \<Rightarrow> 'w \<Rightarrow> (u32 \<times> 'w) option" where
  "lock_client_release env clt lid w =
     do { ((ret, r), w1) \<leftarrow> call2 env put_uint put_ull 0x7002 clt lid w; Some (ret, w1) }"

definition lock_client_stat :: "(u32, 'w) caller_env \<Rightarrow> u32 \<Rightarrow> u64 \<Rightarrow> 'w \<Rightarrow> (u32 \<times> 'w) option" where
  "lock_client_stat env clt lid w =
     do { ((ret, r), w1) \<leftarrow> call2 env put_uint put_ull 0x7004 clt lid w;
          if ret \<noteq> 0 then None else Some (r, w1) }"

end
