(* ===== verification/Rpc_Client.thy ===== *)
theory Rpc_Client
  imports Marshall "HOL-Library.AList" "HOL-Library.Monad_Syntax" "HOL-Library.Signed_Division"
begin

text \<open>
  The client half of \<^verbatim>\<open>rpc.cc\<close>: class \<^verbatim>\<open>rpcc\<close> with the table of outstanding calls, the window of
  replied xids it acknowledges to the server, its reference-counted connection, and \<^verbatim>\<open>call1\<close>, which is
  cut at the points where its thread blocks or gives up the mutex so that any number of calls,
  replies, cancellations and connection failures interleave. The lemmas show that the window always
  starts with the largest xid up to which every reply is in, and that \<^verbatim>\<open>call1\<close> returns after boundedly many
  waits.
\<close>

section \<open>Times\<close>

record timespec =
  tv_sec :: int
  tv_nsec :: int

definition cmp_timespec :: "timespec \<Rightarrow> timespec \<Rightarrow> int" where
  "cmp_timespec a b =
     (if tv_sec a > tv_sec b then 1
      else if tv_sec a < tv_sec b then -1
      else if tv_nsec a > tv_nsec b then 1
      else if tv_nsec a < tv_nsec b then -1
      else 0)"

function carry_nsec :: "timespec \<Rightarrow> timespec" where
  "carry_nsec t =
     (if tv_nsec t > 1000000000
      then carry_nsec (t\<lparr>tv_sec := tv_sec t + 1, tv_nsec := tv_nsec t - 1000000000\<rparr>)
      else t)"
  by auto
termination
  by (relation "measure (\<lambda>t. nat (tv_nsec t))") auto

declare carry_nsec.simps [simp del]

text \<open>The failed assertion is \<^const>\<open>None\<close>.\<close>

definition add_timespec :: "timespec \<Rightarrow> int \<Rightarrow> timespec option" where
  "add_timespec a b =
     (let r = a\<lparr>tv_sec := tv_sec a + b sdiv 1000, tv_nsec := tv_nsec a + (b smod 1000) * 1000000\<rparr>
      in if tv_nsec r < 0 then None else Some (carry_nsec r))"

definition diff_timespec :: "timespec \<Rightarrow> timespec \<Rightarrow> int option" where
  "diff_timespec fin beg =
     (let diff = (if tv_sec fin > tv_sec beg then (tv_sec fin - tv_sec beg) * 1000 else 0)
      in if diff = 0 \<and> tv_sec fin \<noteq> tv_sec beg then None
         else if tv_nsec fin > tv_nsec beg
         then Some (diff + (tv_nsec fin - tv_nsec beg) sdiv 1000000)
         else Some (diff - (tv_nsec beg - tv_nsec fin) sdiv 1000000))"

section \<open>The window of replied xids\<close>

fun insert_xid :: "u32 \<Rightarrow> u32 list \<Rightarrow> u32 list" where
  "insert_xid xid [] = [xid]"
| "insert_xid xid (y # ys) = (if y > xid then xid # y # ys else y # insert_xid xid ys)"

text \<open>
  The loop at the label \<^verbatim>\<open>compress\<close>: \<open>pre\<close> is the part of the list before the iterator. The inner loop
  pops the front while it is the predecessor of the element under the iterator.
\<close>

fun compress :: "u32 list \<Rightarrow> u32 list \<Rightarrow> u32 list" where
  "compress pre [] = pre"
| "compress pre (x # xs) = compress (dropWhile (\<lambda>y. y + 1 = x) (pre @ [x])) xs"

definition update_xid_rep :: "u32 \<Rightarrow> u32 list \<Rightarrow> u32 list" where
  "update_xid_rep xid w =
     (if xid \<le> hd w then w
      else let w' = insert_xid xid w in compress [hd w'] (tl w'))"

section \<open>State\<close>

record caller =
  ca_un :: "unmarshall option"
  ca_intret :: "u32 option"
  ca_done :: bool

definition caller_new :: caller where
  "caller_new = \<lparr>ca_un = None, ca_intret = None, ca_done = False\<rparr>"

record conn =
  cn_refno :: int
  cn_dead :: bool

text \<open>
  \<open>rc_calls\<close> holds the callers themselves, which the code keeps on the stacks of the calling threads.
  \<open>rc_conns\<close> is the part of the heap that holds connections: a deleted connection has no entry, and an
  access to it is \<^const>\<open>None\<close>. \<open>rc_sent\<close> records what was handed to a connection.
\<close>

record rpcc =
  rc_clt_nonce :: u32
  rc_srv_nonce :: u32
  rc_bind_done :: bool
  rc_xid :: u32
  rc_lossytest :: int
  rc_retrans :: bool
  rc_reachable :: bool
  rc_chan :: "nat option"
  rc_destroy_wait :: bool
  rc_calls :: "(u32 \<times> caller) list"
  rc_xid_rep_window :: "u32 list"
  rc_conns :: "nat \<rightharpoonup> conn"
  rc_next :: nat
  rc_sent :: "(nat \<times> char option list) list"

text \<open>\<open>rand\<close> is the value of \<^verbatim>\<open>random()\<close> and \<open>loss_env\<close> the number in the variable \<^verbatim>\<open>RPC_LOSSY\<close>, if it is set.\<close>

definition rpcc_new :: "bool \<Rightarrow> u32 \<Rightarrow> int option \<Rightarrow> rpcc" where
  "rpcc_new retrans rand loss_env =
     \<lparr>rc_clt_nonce = (if retrans then rand else 0), rc_srv_nonce = 0, rc_bind_done = False, rc_xid = 1,
      rc_lossytest = (case loss_env of None \<Rightarrow> 0 | Some n \<Rightarrow> n),
      rc_retrans = retrans, rc_reachable = True, rc_chan = None, rc_destroy_wait = False,
      rc_calls = [], rc_xid_rep_window = [0], rc_conns = Map.empty, rc_next = 0, rc_sent = []\<rparr>"

definition set_reachable :: "bool \<Rightarrow> rpcc \<Rightarrow> rpcc" where
  "set_reachable r st = st\<lparr>rc_reachable := r\<rparr>"

section \<open>Connections\<close>

definition isdead :: "nat \<Rightarrow> rpcc \<Rightarrow> bool option" where
  "isdead c st = map_option cn_dead (rc_conns st c)"

definition conn_incref :: "nat \<Rightarrow> rpcc \<Rightarrow> rpcc option" where
  "conn_incref c st =
     do { k \<leftarrow> rc_conns st c;
          Some (st\<lparr>rc_conns := (rc_conns st)(c \<mapsto> k\<lparr>cn_refno := cn_refno k + 1\<rparr>)\<rparr>) }"

definition conn_decref :: "nat \<Rightarrow> rpcc \<Rightarrow> rpcc option" where
  "conn_decref c st =
     do { k \<leftarrow> rc_conns st c;
          let k' = k\<lparr>cn_refno := cn_refno k - 1\<rparr>;
          if cn_refno k' < 0 then None
          else if cn_refno k' = 0 \<and> cn_dead k' then Some (st\<lparr>rc_conns := (rc_conns st)(c := None)\<rparr>)
          else Some (st\<lparr>rc_conns := (rc_conns st)(c \<mapsto> k')\<rparr>) }"

definition closeconn :: "nat \<Rightarrow> rpcc \<Rightarrow> rpcc option" where
  "closeconn c st =
     do { k \<leftarrow> rc_conns st c;
          if cn_dead k then Some st
          else Some (st\<lparr>rc_conns := (rc_conns st)(c \<mapsto> k\<lparr>cn_dead := True\<rparr>)\<rparr>) }"

text \<open>
  What \<^verbatim>\<open>connection::send\<close> does to the client's state: \<open>ok\<close> is whether the socket took the bytes; when it
  did not, the connection is dead.
\<close>

definition conn_send :: "nat \<Rightarrow> char option list \<Rightarrow> bool \<Rightarrow> rpcc \<Rightarrow> rpcc option" where
  "conn_send c b ok st =
     do { k \<leftarrow> rc_conns st c;
          if cn_dead k then Some st
          else if ok then Some (st\<lparr>rc_sent := rc_sent st @ [(c, b)]\<rparr>)
          else Some (st\<lparr>rc_conns := (rc_conns st)(c \<mapsto> k\<lparr>cn_dead := True\<rparr>)\<rparr>) }"

text \<open>\<open>connected\<close> is whether the system call \<^verbatim>\<open>connect\<close> succeeds; a new connection has one reference.\<close>

definition connect_to_dst :: "bool \<Rightarrow> rpcc \<Rightarrow> nat option \<times> rpcc" where
  "connect_to_dst connected st =
     (if \<not> connected then (None, st)
      else (Some (rc_next st),
            st\<lparr>rc_conns := (rc_conns st)(rc_next st \<mapsto> \<lparr>cn_refno = 1, cn_dead = False\<rparr>),
               rc_next := rc_next st + 1\<rparr>))"

definition reconnect :: "bool \<Rightarrow> rpcc \<Rightarrow> rpcc" where
  "reconnect connected st = (let (ch, st1) = connect_to_dst connected st in st1\<lparr>rc_chan := ch\<rparr>)"

definition get_refconn :: "bool \<Rightarrow> nat option \<Rightarrow> rpcc \<Rightarrow> (nat option \<times> rpcc) option" where
  "get_refconn connected ch st =
     do { st1 \<leftarrow> (case rc_chan st of
                    None \<Rightarrow> Some (reconnect connected st)
                  | Some c \<Rightarrow>
                      do { d \<leftarrow> isdead c st;
                           if d then do { st' \<leftarrow> conn_decref c st; Some (reconnect connected st') }
                           else Some st });
          (case rc_chan st1 of
             None \<Rightarrow> Some (ch, st1)
           | Some c \<Rightarrow>
               do { st2 \<leftarrow> (case ch of None \<Rightarrow> Some st1 | Some c' \<Rightarrow> conn_decref c' st1);
                    st3 \<leftarrow> conn_incref c st2;
                    Some (Some c, st3) }) }"

text \<open>The destructor; a failed assertion or the use of a deleted connection is \<^const>\<open>None\<close>.\<close>

definition rpcc_delete :: "rpcc \<Rightarrow> rpcc option" where
  "rpcc_delete st =
     do { st1 \<leftarrow> (case rc_chan st of
                    None \<Rightarrow> Some st
                  | Some c \<Rightarrow> do { st' \<leftarrow> closeconn c st; conn_decref c st' });
          if rc_calls st1 = [] then Some st1 else None }"

section \<open>Calls\<close>

definition rpc_bind :: u32 where "rpc_bind = 1"
definition timeout_failure :: u32 where "timeout_failure = -1"
definition bind_failure :: u32 where "bind_failure = -6"
definition cancel_failure :: u32 where "cancel_failure = -7"
definition to_max :: int where "to_max = 120000"
definition to_min :: int where "to_min = 1000"

text \<open>\<^verbatim>\<open>rpcc::bind\<close> after its remote call returned \<open>ret\<close> with the result \<open>r\<close>.\<close>

definition bind_result :: "u32 \<Rightarrow> u32 \<Rightarrow> rpcc \<Rightarrow> rpcc" where
  "bind_result ret r st = (if ret = 0 then st\<lparr>rc_bind_done := True, rc_srv_nonce := r\<rparr> else st)"

text \<open>
  \<^verbatim>\<open>rpcc::cancel\<close> up to its wait; the wait ends when \<open>rc_calls\<close> is empty.
\<close>

definition cancel :: "rpcc \<Rightarrow> rpcc" where
  "cancel st =
     (let cs = map (\<lambda>(x, ca). (x, ca\<lparr>ca_done := True, ca_intret := Some cancel_failure\<rparr>)) (rc_calls st)
      in st\<lparr>rc_calls := cs, rc_destroy_wait := (if cs = [] then rc_destroy_wait st else True)\<rparr>)"

definition rpcc_got_pdu :: "string \<Rightarrow> rpcc \<Rightarrow> rpcc" where
  "rpcc_got_pdu b st =
     (let (h, rep) = unpack_reply_header (unmarshall_of b)
      in if \<not> u_ok rep then st
         else let st1 = st\<lparr>rc_xid_rep_window := update_xid_rep (rp_xid h) (rc_xid_rep_window st)\<rparr>
              in case map_of (rc_calls st1) (rp_xid h) of
                   None \<Rightarrow> st1
                 | Some ca \<Rightarrow>
                     if ca_done ca then st1
                     else st1\<lparr>rc_calls := AList.update (rp_xid h)
                            \<lparr>ca_un = Some (take_in rep), ca_intret = Some (rp_ret h), ca_done = True\<rparr>
                            (rc_calls st1)\<rparr>)"

text \<open>The local variables of \<^verbatim>\<open>call1\<close> and the point its thread has reached.\<close>

datatype call1_pc = Top | Timed | Waiting | Leaving

record call1_vars =
  v_pc :: call1_pc
  v_xid :: u32
  v_req :: marshall
  v_ch :: "nat option"
  v_transmit :: bool
  v_curr_to :: int
  v_nextdeadline :: timespec
  v_finaldeadline :: timespec

definition call1_start :: "u32 \<Rightarrow> marshall \<Rightarrow> rpcc \<Rightarrow> (u32 + (u32 \<times> marshall)) \<times> rpcc" where
  "call1_start proc req st =
     (if proc \<noteq> rpc_bind \<and> \<not> rc_bind_done st \<or> proc = rpc_bind \<and> rc_bind_done st
      then (Inl bind_failure, st)
      else if rc_destroy_wait st then (Inl cancel_failure, st)
      else let x = rc_xid st;
               h = \<lparr>rq_xid = x, rq_proc = proc, rq_clt_nonce = rc_clt_nonce st,
                    rq_srv_nonce = rc_srv_nonce st, rq_xid_rep = hd (rc_xid_rep_window st)\<rparr>
           in (Inr (x, pack_req_header h req),
               st\<lparr>rc_xid := x + 1, rc_calls := AList.update x caller_new (rc_calls st)\<rparr>))"

definition call1_init :: "u32 \<Rightarrow> marshall \<Rightarrow> int \<Rightarrow> timespec \<Rightarrow> call1_vars option" where
  "call1_init x req to now =
     do { final \<leftarrow> add_timespec now to;
          Some \<lparr>v_pc = Top, v_xid = x, v_req = req, v_ch = None, v_transmit = True, v_curr_to = to_min,
                v_nextdeadline = now, v_finaldeadline = final\<rparr> }"

definition call1_transmit :: "bool \<Rightarrow> bool \<Rightarrow> call1_vars \<Rightarrow> rpcc \<Rightarrow> (call1_vars \<times> rpcc) option" where
  "call1_transmit connected ok v st =
     (if v_transmit v
      then do { (ch, st1) \<leftarrow> get_refconn connected (v_ch v) st;
                st2 \<leftarrow> (case ch of
                          None \<Rightarrow> Some st1
                        | Some c \<Rightarrow>
                            if rc_reachable st1
                            then conn_send c (take (m_ind (v_req v)) (m_buf (v_req v))) ok st1
                            else Some st1);
                Some (v\<lparr>v_pc := Timed, v_ch := ch, v_transmit := False\<rparr>, st2) }
      else Some (v\<lparr>v_pc := Timed\<rparr>, st))"

definition call1_deadline :: "timespec \<Rightarrow> call1_vars \<Rightarrow> call1_vars option" where
  "call1_deadline now v =
     (if tv_sec (v_finaldeadline v) = 0 then Some (v\<lparr>v_pc := Leaving\<rparr>)
      else do { next \<leftarrow> add_timespec now (v_curr_to v);
                if cmp_timespec next (v_finaldeadline v) > 0
                then Some (v\<lparr>v_pc := Waiting, v_nextdeadline := v_finaldeadline v,
                             v_finaldeadline := (v_finaldeadline v)\<lparr>tv_sec := 0\<rparr>\<rparr>)
                else Some (v\<lparr>v_pc := Waiting, v_nextdeadline := next\<rparr>) })"

text \<open>
  After a wait that timed out; \<open>lost\<close> is whether there is no connection or a dead one. The shift is one
  on 32 bits.
\<close>

definition call1_retry :: "bool \<Rightarrow> bool \<Rightarrow> call1_vars \<Rightarrow> call1_vars" where
  "call1_retry retrans lost v =
     v\<lparr>v_pc := Top, v_transmit := (if retrans \<and> lost then True else v_transmit v),
       v_curr_to := signed_take_bit 31 (2 * v_curr_to v)\<rparr>"

definition call1_end :: "call1_vars \<Rightarrow> rpcc \<Rightarrow> ((u32 \<times> unmarshall option) \<times> rpcc) option" where
  "call1_end v st =
     do { ca \<leftarrow> map_of (rc_calls st) (v_xid v);
          let st1 = st\<lparr>rc_calls := AList.delete (v_xid v) (rc_calls st),
                       rc_xid_rep_window := update_xid_rep (v_xid v) (rc_xid_rep_window st)\<rparr>;
          st2 \<leftarrow> (case v_ch v of None \<Rightarrow> Some st1 | Some c \<Rightarrow> conn_decref c st1);
          r \<leftarrow> (if ca_done ca then ca_intret ca else Some timeout_failure);
          Some ((r, ca_un ca), st2) }"

section \<open>The window starts with the last xid of the replied prefix\<close>

text \<open>
  The reference: the number of xids \<open>1, 2, \<dots>\<close> that all occur in a list of replies.
\<close>

definition replied_prefix :: "u32 list \<Rightarrow> nat" where
  "replied_prefix xs = length (takeWhile (\<lambda>n. Suc n \<in> set (map unat xs)) [0..<length xs])"

definition prefix_of :: "nat set \<Rightarrow> nat \<Rightarrow> bool" where
  "prefix_of S n \<longleftrightarrow> {1..n} \<subseteq> S \<and> Suc n \<notin> S"

lemma prefix_of_unique: "prefix_of S m \<Longrightarrow> prefix_of S n \<Longrightarrow> m = n"
proof (rule ccontr)
  assume p: "prefix_of S m" "prefix_of S n" and "m \<noteq> n"
  then consider "Suc m \<le> n" | "Suc n \<le> m" by linarith
  then show False
  proof cases
    case 1
    then have "Suc m \<in> {1..n}" by simp
    then show False using p unfolding prefix_of_def by blast
  next
    case 2
    then have "Suc n \<in> {1..m}" by simp
    then show False using p unfolding prefix_of_def by blast
  qed
qed

lemma replied_prefix_is_prefix: "prefix_of (unat ` set xs) (replied_prefix xs)"
proof -
  let ?P = "\<lambda>n. Suc n \<in> unat ` set xs" and ?n = "replied_prefix xs"
  have n: "?n = length (takeWhile ?P [0..<length xs])" by (simp add: replied_prefix_def)
  have le: "?n \<le> length xs" using length_takeWhile_le [of ?P "[0..<length xs]"] n by simp
  have in_prefix: "?P i" if "i < ?n" for i
  proof -
    have "takeWhile ?P [0..<length xs] ! i = i"
      using that le n by (simp add: takeWhile_nth)
    then show ?thesis
      using that n nth_mem [of i "takeWhile ?P [0..<length xs]"] set_takeWhileD by metis
  qed
  have sub: "{1..?n} \<subseteq> unat ` set xs"
  proof
    fix k assume "k \<in> {1..?n}"
    then show "k \<in> unat ` set xs" using in_prefix [of "k - 1"] by auto
  qed
  have "Suc ?n \<notin> unat ` set xs"
  proof (cases "?n < length xs")
    case True
    then show ?thesis using nth_length_takeWhile [of ?P "[0..<length xs]"] n by simp
  next
    case False
    show ?thesis
    proof
      assume "Suc ?n \<in> unat ` set xs"
      then have "{1..Suc ?n} \<subseteq> unat ` set xs" using sub by (simp add: atLeastAtMostSuc_conv)
      then have "card {1..Suc ?n} \<le> card (unat ` set xs)" by (intro card_mono) auto
      also have "\<dots> \<le> length xs" using card_image_le [of "set xs" unat] card_length [of xs] by simp
      finally show False using False by simp
    qed
  qed
  with sub show ?thesis by (simp add: prefix_of_def)
qed

lemma insert_xid_set [simp]: "set (insert_xid x w) = insert x (set w)"
  by (induction w) auto

lemma insert_xid_sorted: "sorted w \<Longrightarrow> sorted (insert_xid x w)"
  by (induction w) auto

lemma insert_xid_hd: "w \<noteq> [] \<Longrightarrow> hd w < x \<Longrightarrow> hd (insert_xid x w) = hd w \<and> insert_xid x w \<noteq> []"
  by (cases w) auto

lemma no_wrap_next: "(f::u32) < x \<Longrightarrow> unat (f + 1) = Suc (unat f)"
proof -
  assume "f < x"
  moreover have "unat x < 2 ^ LENGTH(32)" by (rule unsigned_less)
  ultimately have "unat f + 1 < 2 ^ 32" by (simp add: word_less_nat_alt)
  then show ?thesis by (simp add: unat_word_ariths)
qed

lemma next_least:
  assumes "(f::u32) < x" "x = f + 1" "f \<le> y"
  shows "y = f \<or> x \<le> y"
proof -
  have "unat x = Suc (unat f)" using no_wrap_next [OF assms(1)] assms(2) by simp
  moreover have "unat f \<le> unat y" using assms(3) by (simp add: word_le_nat_alt)
  ultimately have "unat y = unat f \<or> unat x \<le> unat y" by linarith
  then show ?thesis by (metis unsigned_word_eqI word_le_nat_alt)
qed

text \<open>
  While the iterator moves, the part before it holds the front and elements that do not follow it.
\<close>

definition gap :: "u32 list \<Rightarrow> bool" where
  "gap pre \<longleftrightarrow> pre \<noteq> [] \<and> (\<forall>y\<in>set pre. y = hd pre \<or> y > hd pre \<and> y \<noteq> hd pre + 1)"

lemma dropWhile_all: "(\<forall>y\<in>set pre. P y) \<Longrightarrow> \<not> P x \<Longrightarrow> dropWhile P (pre @ [x]) = [x]"
  by (induction pre) auto

lemma gap_keep:
  assumes "gap pre" "\<forall>y\<in>set pre. y \<le> x" "hd pre + 1 \<noteq> x"
  shows "dropWhile (\<lambda>y. y + 1 = x) (pre @ [x]) = pre @ [x] \<and> gap (pre @ [x])"
proof -
  from assms(1) obtain f p where pre: "pre = f # p" by (cases pre) (auto simp: gap_def)
  have "x = f \<or> x > f" using assms(2) pre by (simp add: order_le_less) blast
  moreover have "\<forall>y\<in>set pre. y = f \<or> y > f \<and> y \<noteq> f + 1" using assms(1) unfolding gap_def pre list.sel by blast
  ultimately have "gap (pre @ [x])" using assms(3) unfolding gap_def pre by auto
  then show ?thesis using assms(3) by (simp add: pre)
qed

lemma gap_pop:
  assumes "gap pre" "\<forall>y\<in>set pre. y \<le> x" "hd pre + 1 = x"
  shows "dropWhile (\<lambda>y. y + 1 = x) (pre @ [x]) = [x] \<and> hd pre < x \<and> set pre = {hd pre}"
proof -
  have ne: "pre \<noteq> []" and g: "\<forall>y\<in>set pre. y = hd pre \<or> y > hd pre \<and> y \<noteq> x"
    using assms(1,3) unfolding gap_def by blast+
  have "hd pre \<le> x" using assms(2) hd_in_set [OF ne] by blast
  moreover have "hd pre \<noteq> x" using assms(3) by (metis add_cancel_right_right zero_neq_one)
  ultimately have fx: "hd pre < x" by (rule order_le_neq_trans)
  have all: "\<forall>y\<in>set pre. y = hd pre"
  proof
    fix y assume y: "y \<in> set pre"
    then have d: "y = hd pre \<or> hd pre < y \<and> y \<noteq> x" and le: "y \<le> x" using g assms(2) by blast+
    show "y = hd pre"
    proof (rule ccontr)
      assume "y \<noteq> hd pre"
      with d have y: "hd pre < y" "y \<noteq> x" by blast+
      from next_least [OF fx assms(3) [symmetric] order_less_imp_le [OF y(1)]] \<open>y \<noteq> hd pre\<close>
      have "x \<le> y" by blast
      with le y(2) show False by (simp add: order_antisym)
    qed
  qed
  have "dropWhile (\<lambda>y. y + 1 = x) (pre @ [x]) = [x]"
  proof (rule dropWhile_all)
    show "\<forall>y\<in>set pre. y + 1 = x" using all assms(3) by metis
  qed simp
  moreover have "set pre = {hd pre}" using all hd_in_set [OF ne] by blast
  ultimately show ?thesis using fx by blast
qed

lemma gap_single [simp]: "gap [x]"
  by (simp add: gap_def)

text \<open>
  What \<open>compress\<close> returns for the elements \<open>A\<close>, from the front \<open>f\<close>: it advances the front to \<open>g\<close> over
  consecutive elements only, to the end of the run, and drops nothing above it.
\<close>

definition compressed :: "u32 \<Rightarrow> u32 set \<Rightarrow> u32 list \<Rightarrow> bool" where
  "compressed f A w \<longleftrightarrow> w \<noteq> [] \<and> sorted w \<and> f \<le> hd w \<and> set w = {y \<in> A. hd w \<le> y} \<and>
     (\<forall>y. f \<le> y \<and> y \<le> hd w \<longrightarrow> y \<in> A) \<and> (\<forall>y\<in>A. hd w < y \<longrightarrow> y \<noteq> hd w + 1)"

lemma compressed_advance:
  assumes "compressed x A w" "f < x" "x = f + 1"
  shows "compressed f (insert f A) w"
proof -
  have "x \<le> hd w" using assms(1) by (simp add: compressed_def)
  then have "f < hd w" using assms(2) by simp
  moreover have "y \<in> insert f A" if "f \<le> y" "y \<le> hd w" for y
    using next_least [OF assms(2,3) that(1)] that(2) assms(1) by (auto simp: compressed_def)
  ultimately show ?thesis using assms(1) unfolding compressed_def by auto
qed

lemma compress_spec:
  "gap pre \<Longrightarrow> sorted (pre @ xs) \<Longrightarrow> compressed (hd pre) (set pre \<union> set xs) (compress pre xs)"
proof (induction xs arbitrary: pre)
  case Nil
  then show ?case by (cases pre) (auto simp: gap_def compressed_def)
next
  case (Cons x xs)
  have le: "\<forall>y\<in>set pre. y \<le> x" using Cons.prems(2) by (simp add: sorted_append)
  have ne: "pre \<noteq> []" using Cons.prems(1) by (simp add: gap_def)
  show ?case
  proof (cases "hd pre + 1 = x")
    case False
    note k = gap_keep [OF Cons.prems(1) le False]
    have "compressed (hd (pre @ [x])) (set (pre @ [x]) \<union> set xs) (compress (pre @ [x]) xs)"
      using Cons.IH [of "pre @ [x]"] k Cons.prems(2) by simp
    then show ?thesis using k ne by simp
  next
    case True
    note k = gap_pop [OF Cons.prems(1) le True]
    have "sorted ([x] @ xs)" using Cons.prems(2) by (simp add: sorted_append)
    then have c: "compressed x (insert x (set xs)) (compress [x] xs)"
      using Cons.IH [of "[x]"] by simp
    have "compressed (hd pre) (insert (hd pre) (insert x (set xs))) (compress [x] xs)"
      using compressed_advance [OF c _ True [symmetric]] k by blast
    moreover have "set pre \<union> set (x # xs) = insert (hd pre) (insert x (set xs))"
      using k by (metis Un_insert_left list.simps(15) sup_bot_left)
    ultimately show ?thesis using k by simp
  qed
qed

text \<open>
  The window for the replies \<open>S\<close>: sorted, with the end of the replied prefix at its front and exactly
  the later replies behind it. Replies may have been entered twice.
\<close>

definition window_of :: "u32 set \<Rightarrow> u32 list \<Rightarrow> bool" where
  "window_of S w \<longleftrightarrow> w \<noteq> [] \<and> sorted w \<and> set w = insert (hd w) {x \<in> S. hd w < x} \<and>
     (\<forall>y. 0 < y \<and> y \<le> hd w \<longrightarrow> y \<in> S) \<and> (\<forall>y\<in>S. hd w < y \<longrightarrow> y \<noteq> hd w + 1)"

lemma window_of_new: "window_of {} [0]"
  by (auto simp: window_of_def)

lemma compressed_window:
  assumes c: "compressed f (insert x W) u"
    and W: "W = insert f {y \<in> S. f < y}" "\<And>y. 0 < y \<Longrightarrow> y \<le> f \<Longrightarrow> y \<in> S"
  shows "window_of (insert x S) u"
proof -
  let ?A = "insert x W"
  have u: "u \<noteq> []" "sorted u" "f \<le> hd u" "set u = {y \<in> ?A. hd u \<le> y}"
    using c by (simp_all add: compressed_def)
  have run: "\<And>y. f \<le> y \<Longrightarrow> y \<le> hd u \<Longrightarrow> y \<in> ?A"
    and stop: "\<And>y. y \<in> ?A \<Longrightarrow> hd u < y \<Longrightarrow> y \<noteq> hd u + 1" using c unfolding compressed_def by blast+
  have later: "y \<in> ?A \<longleftrightarrow> y \<in> insert x S" if "hd u < y" for y
    using W(1) u(3) that by auto
  have "set u = insert (hd u) {y \<in> insert x S. hd u < y}"
  proof (rule set_eqI)
    fix y
    have "y \<in> set u \<longleftrightarrow> y = hd u \<or> y \<in> ?A \<and> hd u < y"
      using u(4) run [OF u(3) order_refl] by (simp only: order_le_less mem_Collect_eq) blast
    then show "y \<in> set u \<longleftrightarrow> y \<in> insert (hd u) {y \<in> insert x S. hd u < y}" using later [of y] by blast
  qed
  moreover have "y \<in> insert x S" if y: "0 < y" "y \<le> hd u" for y
  proof (cases "y \<le> f")
    case True
    then show ?thesis using W(2) y(1) by blast
  next
    case False
    then have "f < y" by simp
    then show ?thesis using run [OF order_less_imp_le y(2)] W(1) by blast
  qed
  moreover have "y \<noteq> hd u + 1" if "y \<in> insert x S" "hd u < y" for y
    using stop later that by blast
  ultimately show ?thesis using u(1,2) unfolding window_of_def by blast
qed

lemma update_xid_rep_window:
  assumes "window_of S w"
  shows "window_of (insert x S) (update_xid_rep x w)"
proof (cases "x \<le> hd w")
  case True
  then show ?thesis using assms by (auto simp: window_of_def update_xid_rep_def)
next
  case False
  let ?w = "insert_xid x w" and ?A = "insert x (set w)"
  have w: "w \<noteq> []" "sorted w" "set w = insert (hd w) {x \<in> S. hd w < x}"
    "\<And>y. 0 < y \<Longrightarrow> y \<le> hd w \<Longrightarrow> y \<in> S" using assms unfolding window_of_def by blast+
  have h: "hd ?w = hd w" "?w \<noteq> []" using insert_xid_hd [of w x] w(1) False by auto
  have "sorted ([hd ?w] @ tl ?w)" using insert_xid_sorted [OF w(2)] h(2) by simp
  moreover have "set [hd ?w] \<union> set (tl ?w) = ?A"
    using h(2) insert_xid_set [of x w] by (cases ?w) auto
  ultimately have c: "compressed (hd w) ?A (update_xid_rep x w)"
    using compress_spec [OF gap_single, of "hd ?w" "tl ?w"] False h(1) by (simp add: update_xid_rep_def Let_def)
  show ?thesis by (rule compressed_window [OF c w(3,4)])
qed

lemma window_after: "window_of (set xs) (fold update_xid_rep xs [0])"
proof (induction xs rule: rev_induct)
  case (snoc x xs)
  then show ?case using update_xid_rep_window [of "set xs" _ x] by simp
qed (simp add: window_of_new)

lemma window_prefix: "window_of S w \<Longrightarrow> prefix_of (unat ` S) (unat (hd w))"
proof -
  assume w: "window_of S w"
  have "k \<in> unat ` S" if "k \<in> {1..unat (hd w)}" for k
  proof -
    have "unat (hd w) < 2 ^ LENGTH(32)" by (rule unsigned_less)
    then have k: "unat (word_of_nat k :: u32) = k" using that by (simp add: unat_of_nat)
    then have "0 < (word_of_nat k :: u32)" "word_of_nat k \<le> hd w"
      using that by (simp_all add: word_less_nat_alt word_le_nat_alt)
    then have "word_of_nat k \<in> S" using w unfolding window_of_def by blast
    then show ?thesis using k by (metis image_eqI)
  qed
  moreover have "Suc (unat (hd w)) \<notin> unat ` S"
  proof
    assume "Suc (unat (hd w)) \<in> unat ` S"
    then obtain y where y: "y \<in> S" "unat y = Suc (unat (hd w))" by auto
    then have l: "hd w < y" by (simp add: word_less_nat_alt)
    then have "y = hd w + 1" using no_wrap_next [OF l] y(2) by (metis unsigned_word_eqI)
    then show False using w y(1) l unfolding window_of_def by blast
  qed
  ultimately show ?thesis unfolding prefix_of_def by blast
qed

text \<open>
  C37. The incremental window of \<^verbatim>\<open>update_xid_rep\<close> agrees with recomputing from scratch: after any sequence of
  replies, in any order and with repetitions, its front (which the next request carries as \<^verbatim>\<open>xid_rep\<close>, and
  up to which the server forgets its replies) is the number of xids \<open>1, 2, \<dots>\<close> that have all been replied.
\<close>

theorem update_xid_rep_equiv: "unat (hd (fold update_xid_rep xs [0])) = replied_prefix xs"
  by (rule prefix_of_unique [OF window_prefix [OF window_after] replied_prefix_is_prefix])

section \<open>A call returns\<close>

text \<open>
  The loop of \<^verbatim>\<open>call1\<close> seen by its own thread. An observation is one wait: the clock before it, whether
  the caller is done after it, and whether the connection is missing or dead then. The wait itself is
  \<^verbatim>\<open>while (!ca.done)\<close> around \<^verbatim>\<open>pthread_cond_timedwait\<close>, left by \<^verbatim>\<open>ETIMEDOUT\<close> only; for a deadline whose
  nanoseconds are not below one second that call fails with \<^verbatim>\<open>EINVAL\<close>, so the thread stays in it.
\<close>

record wait_obs =
  wo_now :: timespec
  wo_done :: bool
  wo_lost :: bool

datatype call1_out = Replied | Timed_out | Blocked

definition valid_time :: "timespec \<Rightarrow> bool" where
  "valid_time t \<longleftrightarrow> 0 \<le> tv_nsec t \<and> tv_nsec t < 1000000000"

fun call1_loop :: "bool \<Rightarrow> call1_vars \<Rightarrow> wait_obs list \<Rightarrow> call1_out option" where
  "call1_loop retrans v [] = Some (if tv_sec (v_finaldeadline v) = 0 then Timed_out else Blocked)"
| "call1_loop retrans v (ob # obs) =
     do { v1 \<leftarrow> call1_deadline (wo_now ob) v;
          if v_pc v1 = Leaving then Some Timed_out
          else if wo_done ob then Some Replied
          else if \<not> valid_time (v_nextdeadline v1) then Some Blocked
          else call1_loop retrans (call1_retry retrans (wo_lost ob) v1) obs }"

definition ns :: "timespec \<Rightarrow> int" where
  "ns t = tv_sec t * 1000000000 + tv_nsec t"

text \<open>
  The clock shows valid times, does not go back, and has reached the deadline when a wait times out.
\<close>

fun clock_runs :: "bool \<Rightarrow> int \<Rightarrow> call1_vars \<Rightarrow> wait_obs list \<Rightarrow> bool" where
  "clock_runs retrans t v [] = True"
| "clock_runs retrans t v (ob # obs) =
     (valid_time (wo_now ob) \<and> t \<le> ns (wo_now ob) \<and>
      (case call1_deadline (wo_now ob) v of
         None \<Rightarrow> True
       | Some v1 \<Rightarrow> clock_runs retrans (ns (v_nextdeadline v1)) (call1_retry retrans (wo_lost ob) v1) obs))"

lemma carry_nsec_id [simp]: "tv_nsec t \<le> 1000000000 \<Longrightarrow> carry_nsec t = t"
  by (simp add: carry_nsec.simps)

lemma add_timespec_sec:
  assumes "valid_time a" "0 \<le> k"
  shows "add_timespec a (1000 * k) = Some (a\<lparr>tv_sec := tv_sec a + k\<rparr>)"
proof -
  have "(1000 * k) sdiv 1000 = k" "(1000 * k) smod 1000 = 0"
    using assms(2) by (simp_all add: signed_divide_int_def signed_modulo_int_def sgn_mult abs_mult)
       (cases "k = 0"; simp)
  then show ?thesis using assms(1)
    by (simp add: add_timespec_def valid_time_def)
qed

lemma ns_less_cmp:
  assumes "valid_time a" "valid_time b"
  shows "cmp_timespec a b > 0 \<longleftrightarrow> ns b < ns a"
  using assms unfolding cmp_timespec_def ns_def valid_time_def by auto

lemma double_to:
  assumes "k < 21"
  shows "signed_take_bit 31 (2 * (1000 * 2 ^ k)) = (1000 * 2 ^ Suc k :: int)"
proof -
  have "(2::int) ^ Suc k \<le> 2 ^ 21" using assms by (intro power_increasing) auto
  then have "1000 * 2 ^ Suc k < (2::int) ^ 31" by simp
  moreover have "- (2 ^ 31) \<le> (1000 * 2 ^ Suc k :: int)"
    by (rule order_trans [of _ 0]) simp_all
  ultimately have "signed_take_bit 31 (1000 * 2 ^ Suc k) = (1000 * 2 ^ Suc k :: int)"
    by (intro signed_take_bit_int_eq_self)
  then show ?thesis by (simp only: power_Suc mult.left_commute)
qed

lemma call1_loop_returns:
  assumes "v_curr_to v = 1000 * 2 ^ k" "valid_time (v_finaldeadline v)"
    "t \<le> ns (v_finaldeadline v)" "ns (v_finaldeadline v) < t + 1000000000 * (2 ^ k * (2 ^ m - 1))"
    "k + m \<le> 21" "m \<le> length obs" "clock_runs retrans t v obs"
  shows "call1_loop retrans v obs \<in> {Some Replied, Some Timed_out}"
  using assms
proof (induction m arbitrary: k v t obs)
  case 0
  then show ?case by simp
next
  case (Suc m)
  let ?f = "v_finaldeadline v"
  obtain ob os where obs: "obs = ob # os" using Suc.prems(6) by (cases obs) auto
  have now: "valid_time (wo_now ob)" "t \<le> ns (wo_now ob)" using Suc.prems(7) by (simp_all add: obs)
  let ?n = "(wo_now ob)\<lparr>tv_sec := tv_sec (wo_now ob) + 2 ^ k\<rparr>"
  have nxt: "add_timespec (wo_now ob) (v_curr_to v) = Some ?n"
    using add_timespec_sec [OF now(1), of "2 ^ k"] Suc.prems(1) by simp
  have vn: "valid_time ?n" and nn: "ns ?n = ns (wo_now ob) + 1000000000 * 2 ^ k"
    using now(1) by (simp_all add: valid_time_def ns_def algebra_simps)
  show ?case
  proof (cases "tv_sec ?f = 0")
    case True
    then show ?thesis by (simp add: obs call1_deadline_def)
  next
    case sec: False
    show ?thesis
    proof (cases "cmp_timespec ?n ?f > 0")
      case True
      then show ?thesis using sec nxt Suc.prems(2)
        by (cases os) (simp_all add: obs call1_deadline_def call1_retry_def)
    next
      case False
      let ?v = "call1_retry retrans (wo_lost ob) (v\<lparr>v_pc := Waiting, v_nextdeadline := ?n\<rparr>)"
      have d: "call1_deadline (wo_now ob) v = Some (v\<lparr>v_pc := Waiting, v_nextdeadline := ?n\<rparr>)"
        using sec nxt False by (simp add: call1_deadline_def)
      have le: "ns ?n \<le> ns ?f" using False ns_less_cmp [OF vn Suc.prems(2)] by simp
      have "ns ?f < t + 1000000000 * (2 ^ k * (2 ^ Suc m - 1))" by (rule Suc.prems(4))
      also have "\<dots> \<le> ns ?n + 1000000000 * (2 ^ Suc k * (2 ^ m - 1))"
        using now(2) nn by (simp add: algebra_simps)
      finally have lt: "ns ?f < ns ?n + 1000000000 * (2 ^ Suc k * (2 ^ m - 1))" .
      have "call1_loop retrans ?v os \<in> {Some Replied, Some Timed_out}"
      proof (rule Suc.IH [of ?v "Suc k" "ns ?n"])
        show "v_curr_to ?v = 1000 * 2 ^ Suc k"
          using double_to [of k] Suc.prems(1,5) by (simp add: call1_retry_def)
        show "clock_runs retrans (ns ?n) ?v os" using Suc.prems(7) d by (simp add: obs)
      qed (use Suc.prems le lt in \<open>simp_all add: call1_retry_def obs\<close>)
      then show ?thesis using vn by (simp add: obs d)
    qed
  qed
qed

text \<open>
  C38. A call with a timeout of whole seconds returns: whatever happens to replies and connections, when
  \<open>n\<close> doublings of the first timeout of one second exceed the timeout of the call, the loop of
  \<^verbatim>\<open>call1\<close> is left after at most \<open>n\<close> waits, with a reply or a timeout. For the default timeout \<^const>\<open>to_max\<close>
  this is seven waits, and the doubled timeout does not overflow.
\<close>

theorem call1_returns:
  assumes "valid_time t0" "0 \<le> to" "to mod 1000 = 0" "to < 1000 * (2 ^ n - 1)" "n \<le> 21"
    and "call1_init x req to t0 = Some v" "clock_runs retrans (ns t0) v obs" "n \<le> length obs"
  shows "call1_loop retrans v obs \<in> {Some Replied, Some Timed_out}"
proof -
  define s where "s = to div 1000"
  have to: "to = 1000 * s" "0 \<le> s" using assms(2,3) by (auto simp: s_def)
  have v: "v_curr_to v = 1000 * 2 ^ 0" "v_finaldeadline v = t0\<lparr>tv_sec := tv_sec t0 + s\<rparr>"
    using assms(6) add_timespec_sec [OF assms(1) to(2)] by (auto simp: to call1_init_def to_min_def)
  have f: "ns (v_finaldeadline v) = ns t0 + 1000000000 * s" by (simp add: v ns_def algebra_simps)
  have "s < 2 ^ n - 1" using assms(4) to by simp
  then have "ns (v_finaldeadline v) < ns t0 + 1000000000 * (2 ^ 0 * (2 ^ n - 1))" unfolding f by simp
  moreover have "valid_time (v_finaldeadline v)" using assms(1) by (simp add: v valid_time_def)
  moreover have "ns t0 \<le> ns (v_finaldeadline v)" using f to(2) by simp
  ultimately show ?thesis using call1_loop_returns [of v 0 "ns t0" n obs retrans] v(1) assms(5,7,8) by simp
qed

definition demo_waits :: "wait_obs list" where
  "demo_waits = map (\<lambda>s. \<lparr>wo_now = \<lparr>tv_sec = s, tv_nsec = 5\<rparr>, wo_done = False, wo_lost = True\<rparr>)
     [100, 101, 103, 107, 115, 131, 163]"

definition demo_vars :: call1_vars where
  "demo_vars = the (call1_init 7 marshall_new to_max \<lparr>tv_sec = 100, tv_nsec = 5\<rparr>)"

lemma demo_init: "call1_init 7 marshall_new to_max \<lparr>tv_sec = 100, tv_nsec = 5\<rparr> = Some demo_vars"
  by code_simp

lemma demo_clock: "clock_runs True (ns \<lparr>tv_sec = 100, tv_nsec = 5\<rparr>) demo_vars demo_waits"
  by code_simp

theorem call1_returns_witness:
  "call1_loop True demo_vars demo_waits \<in> {Some Replied, Some Timed_out}"
proof (rule call1_returns [OF _ _ _ _ _ demo_init demo_clock, of 7])
  show "valid_time \<lparr>tv_sec = 100, tv_nsec = 5\<rparr>" by (simp add: valid_time_def)
qed (simp_all add: to_max_def demo_waits_def)

text \<open>
  A timeout that is not a whole number of seconds can fail to expire: \<^verbatim>\<open>add_timespec\<close> carries only above
  one second of nanoseconds, so a sum of exactly one second is left as an invalid deadline.
\<close>

lemma call1_never_expires:
  "\<exists>v. call1_init x req 500 \<lparr>tv_sec = 100, tv_nsec = 500000000\<rparr> = Some v \<and>
     (\<forall>ob obs. wo_now ob = \<lparr>tv_sec = 100, tv_nsec = 500000000\<rparr> \<longrightarrow> \<not> wo_done ob \<longrightarrow>
        call1_loop retrans v (ob # obs) = Some Blocked)"
  by (simp add: call1_init_def add_timespec_def carry_nsec.simps signed_divide_int_def
      signed_modulo_int_def call1_deadline_def cmp_timespec_def to_min_def valid_time_def)

end
