(* ===== verification/Rpc_Client_System.thy ===== *)
theory Rpc_Client_System
  imports Prelude Rpc_Client "HOL-Library.Multiset"
begin

text \<open>
  The threads that call through one \<^verbatim>\<open>rpcc\<close>, its connections, the replies that arrive and the clock, in
  every order. The lemmas show that each step of \<^verbatim>\<open>call1\<close> keeps the reference counts of the connections
  and the table of calls exact, so that no interleaving uses a deleted connection, trips an assertion
  or leaves a connection behind when the client is destroyed.
\<close>

section \<open>The client under any interleaving\<close>

text \<open>
  The client with the threads that are inside \<^verbatim>\<open>call1\<close> and the clock. An event that is not enabled
  changes nothing; \<^const>\<open>None\<close> is a failed assertion or the use of a deleted connection. \<open>Send\<close> carries the
  outcomes of \<^verbatim>\<open>connect\<close> and of the write, \<open>Die\<close> is a connection that fails, \<open>Bound\<close> is the end of \<^verbatim>\<open>bind\<close>.
\<close>

record client =
  cs_rpcc :: rpcc
  cs_threads :: "call1_vars list"
  cs_now :: timespec

datatype client_ev =
    Call u32 marshall int
  | Send nat bool bool
  | Clock nat
  | Expire nat
  | Seen nat
  | Finish nat
  | Pdu string
  | Die nat
  | Cancel
  | Bound u32 u32
  | Reach bool
  | Tick timespec

definition client_new :: "bool \<Rightarrow> u32 \<Rightarrow> int option \<Rightarrow> timespec \<Rightarrow> client" where
  "client_new retrans rand loss_env t = \<lparr>cs_rpcc = rpcc_new retrans rand loss_env, cs_threads = [], cs_now = t\<rparr>"

definition at_pc :: "call1_pc \<Rightarrow> nat \<Rightarrow> client \<Rightarrow> bool" where
  "at_pc pc i s \<longleftrightarrow> i < length (cs_threads s) \<and> v_pc (cs_threads s ! i) = pc"

definition set_thread :: "nat \<Rightarrow> call1_vars \<Rightarrow> client \<Rightarrow> client" where
  "set_thread i v s = s\<lparr>cs_threads := (cs_threads s)[i := v]\<rparr>"

definition done_of :: "call1_vars \<Rightarrow> rpcc \<Rightarrow> bool" where
  "done_of v st = (case map_of (rc_calls st) (v_xid v) of None \<Rightarrow> False | Some ca \<Rightarrow> ca_done ca)"

definition lost_of :: "call1_vars \<Rightarrow> rpcc \<Rightarrow> bool option" where
  "lost_of v st =
     (if \<not> rc_retrans st then Some False
      else case v_ch v of None \<Rightarrow> Some True | Some c \<Rightarrow> isdead c st)"

fun client_step :: "client_ev \<Rightarrow> client \<Rightarrow> client option" where
  "client_step (Call proc req to) s =
     (case call1_start proc req (cs_rpcc s) of
        (Inl e, st) \<Rightarrow> Some s
      | (Inr (x, m), st) \<Rightarrow>
          do { v \<leftarrow> call1_init x m to (cs_now s);
               Some (s\<lparr>cs_rpcc := st, cs_threads := cs_threads s @ [v]\<rparr>) })"
| "client_step (Send i connected ok) s =
     (if at_pc Top i s
      then do { (v, st) \<leftarrow> call1_transmit connected ok (cs_threads s ! i) (cs_rpcc s);
                Some (set_thread i v (s\<lparr>cs_rpcc := st\<rparr>)) }
      else Some s)"
| "client_step (Clock i) s =
     (if at_pc Timed i s
      then do { v \<leftarrow> call1_deadline (cs_now s) (cs_threads s ! i); Some (set_thread i v s) }
      else Some s)"
| "client_step (Expire i) s =
     (let v = cs_threads s ! i
      in if at_pc Waiting i s \<and> \<not> done_of v (cs_rpcc s) \<and> valid_time (v_nextdeadline v) \<and>
            ns (v_nextdeadline v) \<le> ns (cs_now s)
         then do { lost \<leftarrow> lost_of v (cs_rpcc s);
                   Some (set_thread i (call1_retry (rc_retrans (cs_rpcc s)) lost v) s) }
         else Some s)"
| "client_step (Seen i) s =
     (let v = cs_threads s ! i
      in if at_pc Waiting i s \<and> done_of v (cs_rpcc s) then Some (set_thread i (v\<lparr>v_pc := Leaving\<rparr>) s)
         else Some s)"
| "client_step (Finish i) s =
     (if at_pc Leaving i s
      then do { (r, st) \<leftarrow> call1_end (cs_threads s ! i) (cs_rpcc s);
                Some (s\<lparr>cs_rpcc := st, cs_threads := erase i (cs_threads s)\<rparr>) }
      else Some s)"
| "client_step (Pdu b) s = Some (s\<lparr>cs_rpcc := rpcc_got_pdu b (cs_rpcc s)\<rparr>)"
| "client_step (Die c) s =
     (case rc_conns (cs_rpcc s) c of
        None \<Rightarrow> Some s
      | Some k \<Rightarrow> do { st \<leftarrow> closeconn c (cs_rpcc s); Some (s\<lparr>cs_rpcc := st\<rparr>) })"
| "client_step Cancel s = Some (s\<lparr>cs_rpcc := cancel (cs_rpcc s)\<rparr>)"
| "client_step (Bound ret r) s = Some (s\<lparr>cs_rpcc := bind_result ret r (cs_rpcc s)\<rparr>)"
| "client_step (Reach b) s = Some (s\<lparr>cs_rpcc := set_reachable b (cs_rpcc s)\<rparr>)"
| "client_step (Tick t) s =
     (if valid_time t \<and> ns (cs_now s) \<le> ns t then Some (s\<lparr>cs_now := t\<rparr>) else Some s)"

fun client_run :: "client_ev list \<Rightarrow> client \<Rightarrow> client option" where
  "client_run [] s = Some s"
| "client_run (e # es) s = do { s' \<leftarrow> client_step e s; client_run es s' }"

subsection \<open>Connections\<close>

definition one :: "'a option \<Rightarrow> 'a multiset" where
  "one x = (case x of None \<Rightarrow> {#} | Some c \<Rightarrow> {#c#})"

lemma one_simps [simp]: "one None = {#}" "one (Some c) = {#c#}"
  by (simp_all add: one_def)

text \<open>
  \<open>T\<close> is the multiset of connections the threads hold. A connection that exists is counted exactly, and
  one that is not dead is the current channel.
\<close>

definition conn_ok :: "nat \<Rightarrow> nat \<Rightarrow> bool \<Rightarrow> nat \<Rightarrow> conn option \<Rightarrow> bool" where
  "conn_ok nx n current c x =
     (case x of
        None \<Rightarrow> n = 0
      | Some k \<Rightarrow> cn_refno k = int n \<and> 0 < n \<and> c < nx \<and> (cn_dead k \<or> current))"

definition conn_inv :: "rpcc \<Rightarrow> nat multiset \<Rightarrow> bool" where
  "conn_inv st T \<longleftrightarrow>
     (\<forall>c. conn_ok (rc_next st) (count (one (rc_chan st)) c + count T c) (rc_chan st = Some c) c (rc_conns st c))"

lemma count_one [simp]: "count (one x) c = (if x = Some c then 1 else 0)"
  by (cases x) auto

definition calls_same :: "rpcc \<Rightarrow> rpcc \<Rightarrow> bool" where
  "calls_same st st' \<longleftrightarrow> rc_calls st' = rc_calls st \<and> rc_xid st' = rc_xid st"

lemma calls_same_trans: "calls_same a b \<Longrightarrow> calls_same b c \<Longrightarrow> calls_same a c"
  by (simp add: calls_same_def)

lemma conn_invD:
  assumes "conn_inv st T" "rc_chan st = Some c \<or> c \<in># T"
  obtains k where "rc_conns st c = Some k" "cn_refno k = int (count (one (rc_chan st)) c + count T c)"
    "cn_dead k \<or> rc_chan st = Some c" "c < rc_next st"
proof -
  define n where "n = count (one (rc_chan st)) c + count T c"
  have ok: "conn_ok (rc_next st) n (rc_chan st = Some c) c (rc_conns st c)"
    using assms(1) unfolding conn_inv_def n_def by blast
  have "0 < n" using assms(2) by (auto simp: n_def)
  then obtain k where "rc_conns st c = Some k"
    using ok by (cases "rc_conns st c") (simp_all add: conn_ok_def)
  then show ?thesis using that ok unfolding n_def by (simp add: conn_ok_def)
qed

lemma conn_ok_mono:
  "conn_ok nx n cur c x \<Longrightarrow> n' = n \<Longrightarrow> (cur \<longrightarrow> cur') \<Longrightarrow> nx \<le> nx' \<Longrightarrow> conn_ok nx' n' cur' c x"
  by (auto simp: conn_ok_def split: option.splits)

lemma conn_inv_upd:
  assumes inv: "conn_inv st T"
    and other: "\<And>d. d \<noteq> c \<Longrightarrow> count (one ch) d + count T' d = count (one (rc_chan st)) d + count T d \<and>
      (rc_chan st = Some d \<longrightarrow> ch = Some d)"
    and here: "conn_ok (rc_next st) (count (one ch) c + count T' c) (ch = Some c) c x"
  shows "conn_inv (st\<lparr>rc_conns := (rc_conns st)(c := x), rc_chan := ch\<rparr>) T'"
  unfolding conn_inv_def
proof
  fix d
  let ?st = "st\<lparr>rc_conns := (rc_conns st)(c := x), rc_chan := ch\<rparr>"
  have "conn_ok (rc_next st) (count (one (rc_chan st)) d + count T d) (rc_chan st = Some d) d (rc_conns st d)"
    using inv unfolding conn_inv_def by blast
  then have "conn_ok (rc_next st) (count (one ch) d + count T' d) (ch = Some d) d (rc_conns st d)" if "d \<noteq> c"
    by (rule conn_ok_mono) (use other [OF that] in \<open>simp_all del: count_one\<close>)
  then show "conn_ok (rc_next ?st) (count (one (rc_chan ?st)) d + count T' d) (rc_chan ?st = Some d) d (rc_conns ?st d)"
    using here by (cases "d = c") simp_all
qed

text \<open>The reference a thread gives up; the connection goes away with its last reference.\<close>

lemma conn_decref_inv:
  assumes inv: "conn_inv st (add_mset c T)"
  shows "\<exists>st'. conn_decref c st = Some st' \<and> conn_inv st' T \<and> calls_same st st' \<and> rc_chan st' = rc_chan st"
proof -
  let ?n = "count (one (rc_chan st)) c + count T c"
  obtain k where k: "rc_conns st c = Some k" "cn_refno k = int ?n + 1" "cn_dead k \<or> rc_chan st = Some c" "c < rc_next st"
    by (rule conn_invD [OF inv, of c]) simp_all
  define x where "x = (if ?n = 0 then None else Some (k\<lparr>cn_refno := int ?n\<rparr>))"
  let ?st = "st\<lparr>rc_conns := (rc_conns st)(c := x), rc_chan := rc_chan st\<rparr>"
  have "conn_inv ?st T"
    by (rule conn_inv_upd [OF inv]) (use k(3,4) in \<open>simp_all add: x_def conn_ok_def del: count_one\<close>)
  moreover have "?n = 0 \<longrightarrow> cn_dead k" using k(3) by auto
  then have "conn_decref c st = Some ?st"
    using k(1,2) by (cases "?n = 0") (simp_all add: conn_decref_def x_def Let_def del: count_one)
  ultimately show ?thesis by (simp add: calls_same_def)
qed

text \<open>The reference of the channel, given up when the connection is dead.\<close>

lemma chan_decref_inv:
  assumes inv: "conn_inv st T" and ch: "rc_chan st = Some c" and k: "rc_conns st c = Some k" "cn_dead k"
  shows "\<exists>st'. conn_decref c st = Some st' \<and> conn_inv (st'\<lparr>rc_chan := None\<rparr>) T \<and> calls_same st st'"
proof -
  define n where "n = count T c"
  have n: "cn_refno k = int n + 1" "c < rc_next st"
    by (rule conn_invD [OF inv, of c]; use ch k in \<open>simp add: n_def\<close>)+
  define x where "x = (if n = 0 then None else Some (k\<lparr>cn_refno := int n\<rparr>))"
  have "conn_decref c st = Some (st\<lparr>rc_conns := (rc_conns st)(c := x)\<rparr>)"
    using n k by (cases "n = 0") (simp_all add: conn_decref_def x_def Let_def)
  moreover have "conn_ok (rc_next st) (count (one None) c + count T c) (None = Some c) c x"
    using k n unfolding n_def [symmetric] by (simp add: x_def conn_ok_def)
  then have "conn_inv (st\<lparr>rc_conns := (rc_conns st)(c := x), rc_chan := None\<rparr>) T"
    by (intro conn_inv_upd [OF inv]) (use ch in simp_all)
  ultimately show ?thesis by (simp add: calls_same_def)
qed

lemma conn_incref_inv:
  assumes inv: "conn_inv st T" and ch: "rc_chan st = Some c"
  shows "\<exists>st'. conn_incref c st = Some st' \<and> conn_inv st' (add_mset c T) \<and> calls_same st st' \<and> rc_chan st' = rc_chan st"
proof -
  obtain k where k: "rc_conns st c = Some k" "cn_refno k = int (1 + count T c)" "c < rc_next st"
    by (rule conn_invD [OF inv, of c]) (use ch in simp_all)
  let ?st = "st\<lparr>rc_conns := (rc_conns st)(c := Some (k\<lparr>cn_refno := cn_refno k + 1\<rparr>)), rc_chan := rc_chan st\<rparr>"
  have "conn_inv ?st (add_mset c T)"
    by (rule conn_inv_upd [OF inv]) (use k ch in \<open>simp_all add: conn_ok_def\<close>)
  moreover have "conn_incref c st = Some ?st" using k(1) by (simp add: conn_incref_def)
  ultimately show ?thesis by (simp add: calls_same_def)
qed

lemma conn_kill_inv:
  assumes inv: "conn_inv st T" and k: "rc_conns st c = Some k"
  shows "conn_inv (st\<lparr>rc_conns := (rc_conns st)(c \<mapsto> k\<lparr>cn_dead := True\<rparr>)\<rparr>) T"
proof -
  have "conn_ok (rc_next st) (count (one (rc_chan st)) c + count T c) (rc_chan st = Some c) c (Some k)"
    using inv k unfolding conn_inv_def by metis
  then have "conn_inv (st\<lparr>rc_conns := (rc_conns st)(c := Some (k\<lparr>cn_dead := True\<rparr>)), rc_chan := rc_chan st\<rparr>) T"
    by (intro conn_inv_upd [OF inv]) (simp_all add: conn_ok_def del: count_one)
  then show ?thesis by simp
qed

lemma conn_inv_frame:
  "conn_inv st T \<Longrightarrow> rc_conns st' = rc_conns st \<Longrightarrow> rc_chan st' = rc_chan st \<Longrightarrow> rc_next st \<le> rc_next st' \<Longrightarrow> conn_inv st' T"
  unfolding conn_inv_def by (metis conn_ok_mono)

lemma conn_send_inv:
  assumes inv: "conn_inv st T" and c: "rc_chan st = Some c \<or> c \<in># T"
  shows "\<exists>st'. conn_send c b ok st = Some st' \<and> conn_inv st' T \<and> calls_same st st'"
proof -
  obtain k where k: "rc_conns st c = Some k" using conn_invD [OF inv c] by blast
  have "conn_inv (st\<lparr>rc_sent := y\<rparr>) T" for y by (rule conn_inv_frame [OF inv]) simp_all
  then show ?thesis using k inv conn_kill_inv [OF inv k] by (simp add: conn_send_def calls_same_def)
qed

lemma reconnect_inv:
  assumes inv: "conn_inv (st\<lparr>rc_chan := None\<rparr>) T"
  shows "conn_inv (reconnect connected st) T \<and> calls_same st (reconnect connected st)"
proof (cases connected)
  case False
  then show ?thesis using inv by (simp add: reconnect_def connect_to_dst_def calls_same_def)
next
  case True
  let ?s = "st\<lparr>rc_chan := None, rc_next := rc_next st + 1\<rparr>" and ?n = "rc_next st"
  have fresh: "count T ?n = 0"
  proof (rule ccontr)
    assume "count T ?n \<noteq> 0"
    then have "?n \<in># T" by (metis count_inI)
    then show False by (rule conn_invD [OF inv disjI2]) simp
  qed
  have "conn_inv ?s T" by (rule conn_inv_frame [OF inv]) simp_all
  then have "conn_inv (?s\<lparr>rc_conns := (rc_conns ?s)(?n := Some \<lparr>cn_refno = 1, cn_dead = False\<rparr>), rc_chan := Some ?n\<rparr>) T"
    by (rule conn_inv_upd) (use fresh in \<open>simp_all add: conn_ok_def\<close>)
  then have "conn_inv (reconnect connected st) T"
    by (rule conn_inv_frame) (simp_all add: reconnect_def connect_to_dst_def True)
  then show ?thesis using True by (simp add: reconnect_def connect_to_dst_def calls_same_def)
qed

lemma get_refconn_inv:
  assumes inv: "conn_inv st (one ch + T)"
  shows "\<exists>ch' st'. get_refconn connected ch st = Some (ch', st') \<and> conn_inv st' (one ch' + T) \<and> calls_same st st'"
proof -
  have "\<exists>st1. (case rc_chan st of
      None \<Rightarrow> Some (reconnect connected st)
    | Some c \<Rightarrow> do { d \<leftarrow> isdead c st;
                     if d then do { st' \<leftarrow> conn_decref c st; Some (reconnect connected st') } else Some st })
      = Some st1 \<and> conn_inv st1 (one ch + T) \<and> calls_same st st1" (is "\<exists>st1. ?l = _ \<and> _ \<and> _")
  proof (cases "rc_chan st")
    case None
    then have "conn_inv (st\<lparr>rc_chan := None\<rparr>) (one ch + T)" by (intro conn_inv_frame [OF inv]) simp_all
    then show ?thesis using reconnect_inv [of st "one ch + T" connected] None by simp
  next
    case (Some c)
    obtain k where k: "rc_conns st c = Some k" using conn_invD [OF inv, of c] Some by auto
    show ?thesis
    proof (cases "cn_dead k")
      case True
      obtain st' where "conn_decref c st = Some st'" "conn_inv (st'\<lparr>rc_chan := None\<rparr>) (one ch + T)" "calls_same st st'"
        using chan_decref_inv [OF inv Some k True] by blast
      then show ?thesis using reconnect_inv [of st' "one ch + T" connected] Some k True calls_same_trans
        by (auto simp: isdead_def)
    qed (use Some k inv in \<open>auto simp: isdead_def calls_same_def\<close>)
  qed
  then obtain st1 where l: "?l = Some st1" and i1: "conn_inv st1 (one ch + T)" and s1: "calls_same st st1" by blast
  show ?thesis
  proof (cases "rc_chan st1")
    case None
    then show ?thesis using l i1 s1 by (auto simp: get_refconn_def)
  next
    case (Some c)
    have "\<exists>st2. (case ch of None \<Rightarrow> Some st1 | Some c' \<Rightarrow> conn_decref c' st1) = Some st2 \<and> conn_inv st2 T \<and>
        calls_same st1 st2 \<and> rc_chan st2 = rc_chan st1"
      using i1 conn_decref_inv [of st1 _ T] by (cases ch) (auto simp: calls_same_def)
    then obtain st2 where 2: "(case ch of None \<Rightarrow> Some st1 | Some c' \<Rightarrow> conn_decref c' st1) = Some st2" "conn_inv st2 T"
      "calls_same st1 st2" "rc_chan st2 = Some c" using Some by auto
    obtain st3 where 3: "conn_incref c st2 = Some st3" "conn_inv st3 (add_mset c T)" "calls_same st2 st3"
      using conn_incref_inv [OF 2(2,4)] by blast
    have "get_refconn connected ch st = Some (Some c, st3)" using l Some 2(1) 3(1) by (simp add: get_refconn_def)
    moreover have "calls_same st st3" using s1 2(3) 3(3) calls_same_trans by blast
    ultimately show ?thesis using 3(2) by auto
  qed
qed

lemma call1_transmit_inv:
  assumes inv: "conn_inv st (one (v_ch v) + T)"
  shows "\<exists>v' st'. call1_transmit connected ok v st = Some (v', st') \<and> conn_inv st' (one (v_ch v') + T) \<and>
    calls_same st st' \<and> v' = v\<lparr>v_pc := Timed, v_ch := v_ch v', v_transmit := False\<rparr>"
proof (cases "v_transmit v")
  case False
  then show ?thesis using inv by (auto simp: call1_transmit_def calls_same_def)
next
  case True
  obtain ch st1 where g: "get_refconn connected (v_ch v) st = Some (ch, st1)" "conn_inv st1 (one ch + T)" "calls_same st st1"
    using get_refconn_inv [OF inv] by blast
  let ?b = "take (m_ind (v_req v)) (m_buf (v_req v))"
  have "\<exists>st2. (case ch of None \<Rightarrow> Some st1
      | Some c \<Rightarrow> if rc_reachable st1 then conn_send c ?b ok st1 else Some st1) = Some st2 \<and>
      conn_inv st2 (one ch + T) \<and> calls_same st1 st2"
    using g(2) conn_send_inv [OF g(2), of _ ?b ok] by (cases ch) (auto simp: calls_same_def)
  then show ?thesis using True g calls_same_trans by (fastforce simp: call1_transmit_def)
qed

subsection \<open>Deadlines\<close>

lemma carry_nsec_ns: "0 \<le> tv_nsec t \<Longrightarrow>
    ns (carry_nsec t) = ns t \<and> 0 \<le> tv_nsec (carry_nsec t) \<and> tv_nsec (carry_nsec t) \<le> 1000000000"
proof (induction t rule: carry_nsec.induct)
  case (1 t)
  show ?case
  proof (cases "tv_nsec t > 1000000000")
    case True
    then show ?thesis using 1 by (simp add: carry_nsec.simps [of t] ns_def)
  qed (use 1 in simp)
qed

lemma add_timespec_ns:
  assumes "valid_time a" "0 \<le> b"
  shows "\<exists>r. add_timespec a b = Some r \<and> ns r = ns a + b * 1000000 \<and> 0 \<le> tv_nsec r \<and> tv_nsec r \<le> 1000000000"
proof -
  let ?r = "a\<lparr>tv_sec := tv_sec a + b div 1000, tv_nsec := tv_nsec a + (b mod 1000) * 1000000\<rparr>"
  have e: "b sdiv 1000 = b div 1000" "b smod 1000 = b mod 1000"
    using assms(2) by (cases "b = 0"; simp add: signed_divide_int_def signed_modulo_int_def sgn_if)+
  have n: "0 \<le> tv_nsec ?r" using assms by (simp add: valid_time_def)
  have "1000 * (b div 1000) + b mod 1000 = b" by simp
  then have "b div 1000 * 1000000000 + b mod 1000 * 1000000 = b * 1000000" by linarith
  then have "ns ?r = ns a + b * 1000000" by (simp add: ns_def)
  then show ?thesis using n carry_nsec_ns [OF n] by (simp add: add_timespec_def e)
qed

text \<open>
  \<open>T\<close> is the time the call began. As long as the final deadline is ahead, the clock or the next deadline
  accounts for all the waits so far, so the timeout has not been doubled more than 21 times.
\<close>

definition waits_ok :: "timespec \<Rightarrow> call1_vars \<Rightarrow> int \<Rightarrow> nat \<Rightarrow> bool" where
  "waits_ok now v T k \<longleftrightarrow> k \<le> 21 \<and> v_curr_to v = 1000 * 2 ^ k \<and>
     0 \<le> tv_nsec (v_finaldeadline v) \<and> tv_nsec (v_finaldeadline v) \<le> 1000000000 \<and>
     ns (v_finaldeadline v) \<le> T + 2147483647000000 \<and>
     (if v_pc v = Waiting
      then T + (2 ^ Suc k - 1) * 1000000000 \<le> ns (v_nextdeadline v) \<and> ns (v_nextdeadline v) \<le> ns (v_finaldeadline v)
      else T + (2 ^ k - 1) * 1000000000 \<le> ns now)"

definition time_inv :: "timespec \<Rightarrow> call1_vars \<Rightarrow> bool" where
  "time_inv now v \<longleftrightarrow> tv_sec (v_finaldeadline v) = 0 \<or> v_pc v = Leaving \<or> (\<exists>T k. waits_ok now v T k)"

lemma time_invI: "waits_ok now v T k \<Longrightarrow> time_inv now v"
  unfolding time_inv_def by blast

lemma time_inv_later:
  assumes "time_inv now v" "ns now \<le> ns now'"
  shows "time_inv now' v"
proof -
  have "waits_ok now v T k \<Longrightarrow> waits_ok now' v T k" for T k
    using assms(2) by (simp add: waits_ok_def split: if_splits)
  then show ?thesis using assms(1) unfolding time_inv_def by blast
qed

lemma time_inv_init:
  assumes "valid_time now" "0 \<le> to" "to < 2 ^ 31"
  shows "\<exists>v. call1_init x m to now = Some v \<and> time_inv now v \<and> v_xid v = x \<and> v_ch v = None"
proof -
  obtain r where r: "add_timespec now to = Some r" "ns r = ns now + to * 1000000" "0 \<le> tv_nsec r" "tv_nsec r \<le> 1000000000"
    using add_timespec_ns [OF assms(1,2)] by blast
  have "time_inv now \<lparr>v_pc = Top, v_xid = x, v_req = m, v_ch = None, v_transmit = True, v_curr_to = to_min,
      v_nextdeadline = now, v_finaldeadline = r\<rparr>"
    by (rule time_invI [of _ _ "ns now" 0]) (use r assms(3) in \<open>simp add: waits_ok_def to_min_def\<close>)
  then show ?thesis using r(1) by (simp add: call1_init_def)
qed

lemma time_inv_transmit:
  "time_inv now v \<Longrightarrow> v_pc v = Top \<Longrightarrow> time_inv now (v\<lparr>v_pc := Timed, v_ch := ch, v_transmit := False\<rparr>)"
  unfolding time_inv_def waits_ok_def by simp

lemma time_inv_deadline:
  assumes inv: "time_inv now v" and pc: "v_pc v = Timed" and now: "valid_time now"
  shows "\<exists>v'. call1_deadline now v = Some v' \<and> time_inv now v' \<and> v_xid v' = v_xid v \<and> v_ch v' = v_ch v"
proof (cases "tv_sec (v_finaldeadline v) = 0")
  case True
  then show ?thesis by (simp add: call1_deadline_def time_inv_def)
next
  case False
  let ?f = "v_finaldeadline v"
  obtain T k where k: "k \<le> 21" "v_curr_to v = 1000 * 2 ^ k" "0 \<le> tv_nsec ?f" "tv_nsec ?f \<le> 1000000000"
    "ns ?f \<le> T + 2147483647000000" "T + (2 ^ k - 1) * 1000000000 \<le> ns now"
    using inv pc False by (auto simp: time_inv_def waits_ok_def)
  let ?n = "now\<lparr>tv_sec := tv_sec now + 2 ^ k\<rparr>"
  have add: "add_timespec now (v_curr_to v) = Some ?n" using add_timespec_sec [OF now, of "2 ^ k"] k(2) by simp
  show ?thesis
  proof (cases "cmp_timespec ?n ?f > 0")
    case True
    then show ?thesis using False add by (simp add: call1_deadline_def time_inv_def)
  next
    case c: False
    have nn: "ns ?n = ns now + 2 ^ k * 1000000000" by (simp add: ns_def algebra_simps)
    have "ns ?n \<le> ns ?f"
      using c k(3,4) now by (auto simp: cmp_timespec_def ns_def valid_time_def split: if_splits)
    moreover have "T + (2 ^ Suc k - 1) * 1000000000 \<le> ns ?n" using k(6) nn by (simp add: algebra_simps)
    ultimately have "time_inv now (v\<lparr>v_pc := Waiting, v_nextdeadline := ?n\<rparr>)"
      using k by (intro time_invI [of _ _ T k]) (simp add: waits_ok_def)
    then show ?thesis using False add c by (simp add: call1_deadline_def)
  qed
qed

lemma time_inv_retry:
  assumes inv: "time_inv now v" and pc: "v_pc v = Waiting" and due: "ns (v_nextdeadline v) \<le> ns now"
  shows "time_inv now (call1_retry retrans lost v)"
proof (cases "tv_sec (v_finaldeadline v) = 0")
  case True
  then show ?thesis by (simp add: call1_retry_def time_inv_def)
next
  case False
  let ?f = "v_finaldeadline v"
  obtain T k where k: "k \<le> 21" "v_curr_to v = 1000 * 2 ^ k" "0 \<le> tv_nsec ?f" "tv_nsec ?f \<le> 1000000000"
    "ns ?f \<le> T + 2147483647000000" "T + (2 ^ Suc k - 1) * 1000000000 \<le> ns (v_nextdeadline v)"
    "ns (v_nextdeadline v) \<le> ns ?f"
    using inv pc False unfolding time_inv_def waits_ok_def by auto
  have "(2 ^ Suc k - 1) * 1000000000 \<le> (2147483647000000 :: int)" using k(5,6,7) by linarith
  then have "2 ^ Suc k < (2::int) ^ 22" by simp
  then have "k < 21" by (simp only: power_strict_increasing_iff)
  then have "v_curr_to (call1_retry retrans lost v) = 1000 * 2 ^ Suc k"
    using double_to [of k] k(2) by (simp add: call1_retry_def)
  moreover have "T + (2 ^ Suc k - 1) * 1000000000 \<le> ns now" using k(6) due by linarith
  ultimately show ?thesis using k \<open>k < 21\<close>
    by (intro time_invI [of _ _ T "Suc k"]) (simp add: waits_ok_def call1_retry_def)
qed

subsection \<open>The table of calls\<close>

definition refs_of :: "call1_vars list \<Rightarrow> nat multiset" where
  "refs_of ths = sum_list (map (\<lambda>v. one (v_ch v)) ths)"

lemma refs_of_split:
  assumes "i < length ths"
  shows "refs_of ths = one (v_ch (ths ! i)) + refs_of (erase i ths)"
    and "refs_of (ths[i := v]) = one (v_ch v) + refs_of (erase i ths)"
proof -
  show "refs_of ths = one (v_ch (ths ! i)) + refs_of (erase i ths)"
    by (subst id_take_nth_drop [OF assms]) (simp add: refs_of_def erase_def)
  show "refs_of (ths[i := v]) = one (v_ch v) + refs_of (erase i ths)"
    by (subst upd_conv_take_nth_drop [OF assms]) (simp add: refs_of_def erase_def)
qed

definition calls_inv :: "nat \<Rightarrow> rpcc \<Rightarrow> u32 list \<Rightarrow> bool" where
  "calls_inv n st xs \<longleftrightarrow>
     distinct xs \<and> fst ` set (rc_calls st) = set xs \<and> distinct (map fst (rc_calls st)) \<and>
     (\<forall>(x, ca) \<in> set (rc_calls st). ca_done ca \<longrightarrow> ca_intret ca \<noteq> None) \<and>
     unat (rc_xid st) \<le> Suc n \<and> (\<forall>x \<in> set xs. x < rc_xid st)"

definition client_inv :: "nat \<Rightarrow> client \<Rightarrow> bool" where
  "client_inv n s \<longleftrightarrow>
     conn_inv (cs_rpcc s) (refs_of (cs_threads s)) \<and>
     calls_inv n (cs_rpcc s) (map v_xid (cs_threads s)) \<and>
     (\<forall>v \<in> set (cs_threads s). time_inv (cs_now s) v) \<and> valid_time (cs_now s)"

lemma client_invD:
  assumes "client_inv n s"
  shows "conn_inv (cs_rpcc s) (refs_of (cs_threads s))" "calls_inv n (cs_rpcc s) (map v_xid (cs_threads s))"
    "\<And>v. v \<in> set (cs_threads s) \<Longrightarrow> time_inv (cs_now s) v" "valid_time (cs_now s)"
  using assms by (simp_all add: client_inv_def)

lemma calls_inv_mono: "calls_inv n st xs \<Longrightarrow> calls_same st st' \<Longrightarrow> n \<le> n' \<Longrightarrow> calls_inv n' st' xs"
  by (simp add: calls_inv_def calls_same_def)

lemma calls_inv_found:
  assumes "calls_inv n st xs" "x \<in> set xs"
  shows "\<exists>ca. map_of (rc_calls st) x = Some ca \<and> (ca_done ca \<longrightarrow> ca_intret ca \<noteq> None)"
proof -
  have "x \<in> fst ` set (rc_calls st)" using assms by (simp add: calls_inv_def)
  then obtain ca where m: "map_of (rc_calls st) x = Some ca" by (metis map_of_eq_None_iff not_Some_eq)
  then have "(x, ca) \<in> set (rc_calls st)" by (rule map_of_SomeD)
  then show ?thesis using m assms(1) unfolding calls_inv_def by blast
qed

lemma alist_update_ca:
  assumes "\<forall>(x, ca) \<in> set cs. P ca" "P ca'"
  shows "\<forall>(x, ca) \<in> set (AList.update y ca' cs). P ca"
  using assms by (induction cs) auto

lemma alist_delete_sub: "set (AList.delete x cs) \<subseteq> set cs"
  by (auto simp: AList.delete_eq)

lemma calls_inv_start:
  assumes inv: "calls_inv n st xs" and n: "Suc (Suc n) < 2 ^ 32" and x: "x = rc_xid st"
    and st': "rc_calls st' = AList.update x caller_new (rc_calls st)" "rc_xid st' = x + 1"
  shows "calls_inv (Suc n) st' (xs @ [x])"
proof -
  have le: "unat x \<le> Suc n" and old: "\<forall>y\<in>set xs. y < x" using inv x by (auto simp: calls_inv_def)
  have u: "unat (x + 1) = Suc (unat x)" using le n by (simp add: unat_word_ariths)
  then have lt: "x < x + 1" by (simp add: word_less_nat_alt)
  have "\<forall>(x, ca) \<in> set (rc_calls st'). ca_done ca \<longrightarrow> ca_intret ca \<noteq> None"
    unfolding st' by (rule alist_update_ca) (use inv in \<open>auto simp: calls_inv_def caller_new_def\<close>)
  moreover have "fst ` set (rc_calls st') = insert x (set xs)"
    using inv dom_update [of x caller_new "rc_calls st"] by (simp add: st' calls_inv_def dom_map_of_conv_image_fst)
  moreover have "distinct (map fst (rc_calls st'))"
    unfolding st' by (rule distinct_update) (use inv in \<open>simp add: calls_inv_def\<close>)
  moreover have "x \<notin> set xs" using old by auto
  moreover have "\<forall>y\<in>set (xs @ [x]). y < rc_xid st'"
    using old lt by (auto simp: st' dest: order_less_trans)
  ultimately show ?thesis using inv le u unfolding calls_inv_def st'(2) by simp
qed

lemma calls_inv_remove:
  assumes inv: "calls_inv n st (A @ x # B)"
    and st': "rc_calls st' = AList.delete x (rc_calls st)" "rc_xid st' = rc_xid st"
  shows "calls_inv n st' (A @ B)"
proof -
  note parts = inv [unfolded calls_inv_def]
  note d = parts [THEN conjunct1] and f = parts [THEN conjunct2, THEN conjunct1]
  note rest = parts [THEN conjunct2, THEN conjunct2]
  note k = rest [THEN conjunct1] and r = rest [THEN conjunct2, THEN conjunct1]
    and n = rest [THEN conjunct2, THEN conjunct2]
  have "set (map fst (AList.delete x (rc_calls st))) = set (map fst (rc_calls st)) - {x}"
    by (simp only: delete_keys set_removeAll)
  then have "fst ` set (rc_calls st') = set (A @ x # B) - {x}" by (simp only: st'(1) f set_map)
  also have "\<dots> = set (A @ B)" using d by auto
  finally have f': "fst ` set (rc_calls st') = set (A @ B)" .
  have k': "distinct (map fst (rc_calls st'))" unfolding st' by (rule distinct_delete [OF k])
  have r': "\<forall>(x, ca) \<in> set (rc_calls st'). ca_done ca \<longrightarrow> ca_intret ca \<noteq> None"
    by (rule ballI) (use r alist_delete_sub [of x "rc_calls st"] in \<open>simp only: st'(1) subset_iff\<close>)
  show ?thesis using d f' k' r' n by (simp add: calls_inv_def st'(2))
qed

lemma calls_inv_end:
  assumes inv: "calls_inv n st (map v_xid ths)" and i: "i < length ths"
    and st': "rc_calls st' = AList.delete (v_xid (ths ! i)) (rc_calls st)" "rc_xid st' = rc_xid st"
  shows "calls_inv n st' (map v_xid (erase i ths))"
proof -
  have "map v_xid (take i ths) @ v_xid (ths ! i) # map v_xid (drop (Suc i) ths) = map v_xid ths"
    using arg_cong [OF id_take_nth_drop [OF i], of "map v_xid"] by (simp only: map_append list.map)
  then have "calls_inv n st (map v_xid (take i ths) @ v_xid (ths ! i) # map v_xid (drop (Suc i) ths))"
    using inv by (simp only:)
  from calls_inv_remove [OF this st'] show ?thesis by (simp only: erase_def map_append)
qed

lemma calls_inv_cancel: "calls_inv n st xs \<Longrightarrow> calls_inv n (cancel st) xs"
  unfolding calls_inv_def cancel_def Let_def
  by (auto simp: image_image case_prod_unfold comp_def)

lemma calls_inv_pdu:
  assumes inv: "calls_inv n st xs"
  shows "calls_inv n (rpcc_got_pdu b st) xs"
proof -
  obtain h rep where u: "unpack_reply_header (unmarshall_of b) = (h, rep)" by fastforce
  have same: "calls_inv n (st\<lparr>rc_xid_rep_window := w\<rparr>) xs" for w using inv by (simp add: calls_inv_def)
  have "calls_inv n (st\<lparr>rc_xid_rep_window := w, rc_calls := AList.update (rp_xid h) ca' (rc_calls st)\<rparr>) xs"
    if m: "map_of (rc_calls st) (rp_xid h) = Some ca" and i: "ca_intret ca' \<noteq> None" for w ca ca'
  proof -
    have "rp_xid h \<in> set xs" using inv map_of_SomeD [OF m] unfolding calls_inv_def by force
    then have "fst ` set (AList.update (rp_xid h) ca' (rc_calls st)) = set xs"
      using inv dom_update [of "rp_xid h" ca' "rc_calls st"]
      by (simp add: calls_inv_def dom_map_of_conv_image_fst insert_absorb)
    moreover have "\<forall>(x, ca) \<in> set (AList.update (rp_xid h) ca' (rc_calls st)). ca_done ca \<longrightarrow> ca_intret ca \<noteq> None"
      by (rule alist_update_ca) (use inv i in \<open>auto simp: calls_inv_def\<close>)
    ultimately show ?thesis using inv distinct_update [of "rc_calls st"] by (simp add: calls_inv_def)
  qed
  then show ?thesis using same inv by (auto simp: rpcc_got_pdu_def u Let_def split: option.splits)
qed

subsection \<open>Every event preserves the invariant\<close>

definition ev_ok :: "client_ev \<Rightarrow> bool" where
  "ev_ok e = (case e of Call proc req to \<Rightarrow> 0 \<le> to \<and> to < 2 ^ 31 | _ \<Rightarrow> True)"

lemma set_thread_inv:
  assumes inv: "client_inv n s" and i: "i < length (cs_threads s)"
    and v: "v_xid v = v_xid (cs_threads s ! i)" "time_inv (cs_now s) v"
    and st: "conn_inv st (one (v_ch v) + refs_of (erase i (cs_threads s)))" "calls_same (cs_rpcc s) st"
  shows "client_inv (Suc n) (set_thread i v (s\<lparr>cs_rpcc := st\<rparr>))"
proof -
  note I = client_invD [OF inv]
  have "map v_xid ((cs_threads s)[i := v]) = map v_xid (cs_threads s)"
    using i v(1) by (metis list_update_id map_update nth_map)
  moreover have "time_inv (cs_now s) w" if "w \<in> set ((cs_threads s)[i := v])" for w
    using that I(3) v(2) set_update_subset_insert by fastforce
  ultimately show ?thesis
    using I(4) st(1) calls_inv_mono [OF I(2) st(2), of "Suc n"]
    by (simp add: client_inv_def set_thread_def refs_of_split(2) [OF i])
qed

lemma set_thread_same:
  assumes inv: "client_inv n s" and i: "i < length (cs_threads s)"
    and v: "v_xid v = v_xid (cs_threads s ! i)" "v_ch v = v_ch (cs_threads s ! i)" "time_inv (cs_now s) v"
  shows "client_inv (Suc n) (set_thread i v s)"
proof -
  have "conn_inv (cs_rpcc s) (one (v_ch v) + refs_of (erase i (cs_threads s)))"
    using client_invD(1) [OF inv] refs_of_split(1) [OF i] v(2) by simp
  from set_thread_inv [OF inv i v(1,3) this] show ?thesis by (simp add: calls_same_def)
qed

lemma client_inv_rpcc:
  assumes inv: "client_inv n s" and "conn_inv st (refs_of (cs_threads s))"
    and "calls_inv n st (map v_xid (cs_threads s))"
  shows "client_inv (Suc n) (s\<lparr>cs_rpcc := st\<rparr>)"
  using assms calls_inv_mono [of n st _ st "Suc n"] by (simp add: client_inv_def calls_same_def)

lemma client_inv_Suc: "client_inv n s \<Longrightarrow> client_inv (Suc n) s"
  using client_inv_rpcc [of n s "cs_rpcc s"] by (simp add: client_inv_def)

lemma step_Call:
  assumes inv: "client_inv n s" and n: "Suc (Suc n) < 2 ^ 32" and to: "0 \<le> to" "to < 2 ^ 31"
  shows "\<exists>s'. client_step (Call proc req to) s = Some s' \<and> client_inv (Suc n) s'"
proof (cases "fst (call1_start proc req (cs_rpcc s))")
  case (Inl e)
  then show ?thesis using client_inv_Suc [OF inv]
    by (cases "call1_start proc req (cs_rpcc s)") simp
next
  case (Inr xm)
  let ?st = "cs_rpcc s"
  let ?st' = "?st\<lparr>rc_xid := rc_xid ?st + 1, rc_calls := AList.update (rc_xid ?st) caller_new (rc_calls ?st)\<rparr>"
  obtain m where c: "call1_start proc req ?st = (Inr (rc_xid ?st, m), ?st')"
    using Inr by (auto simp: call1_start_def Let_def split: if_splits)
  note I = client_invD [OF inv]
  obtain v where v: "call1_init (rc_xid ?st) m to (cs_now s) = Some v" "time_inv (cs_now s) v"
    "v_xid v = rc_xid ?st" "v_ch v = None" using time_inv_init [OF I(4) to] by blast
  have "conn_inv ?st' (refs_of (cs_threads s @ [v]))"
    by (rule conn_inv_frame [of ?st]) (use I(1) v(4) in \<open>simp_all add: refs_of_def\<close>)
  moreover have "calls_inv (Suc n) ?st' (map v_xid (cs_threads s) @ [rc_xid ?st])"
    by (rule calls_inv_start [OF I(2) n]) simp_all
  ultimately show ?thesis using c v I(3,4) by (auto simp: client_inv_def)
qed

lemma step_Send:
  assumes inv: "client_inv n s"
  shows "\<exists>s'. client_step (Send i connected ok) s = Some s' \<and> client_inv (Suc n) s'"
proof (cases "at_pc Top i s")
  case False
  then show ?thesis using client_inv_Suc [OF inv] by simp
next
  case True
  let ?v = "cs_threads s ! i" and ?R = "refs_of (erase i (cs_threads s))"
  have i: "i < length (cs_threads s)" "v_pc ?v = Top" using True by (auto simp: at_pc_def)
  have "conn_inv (cs_rpcc s) (one (v_ch ?v) + ?R)"
    using client_invD(1) [OF inv] refs_of_split(1) [OF i(1)] by simp
  then obtain v' st' where t: "call1_transmit connected ok ?v (cs_rpcc s) = Some (v', st')"
    "conn_inv st' (one (v_ch v') + ?R)" "calls_same (cs_rpcc s) st'"
    "v' = ?v\<lparr>v_pc := Timed, v_ch := v_ch v', v_transmit := False\<rparr>"
    using call1_transmit_inv by blast
  have "time_inv (cs_now s) ?v" using client_invD(3) [OF inv] i(1) by simp
  then have "time_inv (cs_now s) v'" by (subst t(4)) (rule time_inv_transmit [OF _ i(2)])
  moreover have "v_xid v' = v_xid ?v" by (subst t(4)) simp
  ultimately have "client_inv (Suc n) (set_thread i v' (s\<lparr>cs_rpcc := st'\<rparr>))"
    using set_thread_inv [OF inv i(1)] t(2,3) by blast
  then show ?thesis using True t(1) by simp
qed

lemma step_Clock:
  assumes inv: "client_inv n s"
  shows "\<exists>s'. client_step (Clock i) s = Some s' \<and> client_inv (Suc n) s'"
proof (cases "at_pc Timed i s")
  case False
  then show ?thesis using client_inv_Suc [OF inv] by simp
next
  case True
  have i: "i < length (cs_threads s)" "v_pc (cs_threads s ! i) = Timed" using True by (auto simp: at_pc_def)
  note I = client_invD [OF inv]
  obtain v' where "call1_deadline (cs_now s) (cs_threads s ! i) = Some v'" "time_inv (cs_now s) v'"
    "v_xid v' = v_xid (cs_threads s ! i)" "v_ch v' = v_ch (cs_threads s ! i)"
    using time_inv_deadline [OF I(3) [OF nth_mem [OF i(1)]] i(2) I(4)] by blast
  then show ?thesis using True set_thread_same [OF inv i(1)] by simp
qed

lemma step_Expire:
  assumes inv: "client_inv n s"
  shows "\<exists>s'. client_step (Expire i) s = Some s' \<and> client_inv (Suc n) s'"
proof -
  let ?v = "cs_threads s ! i"
  define en where "en \<longleftrightarrow> at_pc Waiting i s \<and> \<not> done_of ?v (cs_rpcc s) \<and> valid_time (v_nextdeadline ?v) \<and>
    ns (v_nextdeadline ?v) \<le> ns (cs_now s)"
  have step: "client_step (Expire i) s =
      (if en then do { lost \<leftarrow> lost_of ?v (cs_rpcc s);
                       Some (set_thread i (call1_retry (rc_retrans (cs_rpcc s)) lost ?v) s) } else Some s)"
    by (simp only: client_step.simps Let_def en_def)
  show ?thesis
  proof (cases en)
    case False
    then show ?thesis using client_inv_Suc [OF inv] by (simp only: step) simp
  next
    case True
    have i: "i < length (cs_threads s)" "v_pc ?v = Waiting" "ns (v_nextdeadline ?v) \<le> ns (cs_now s)"
      using True by (auto simp: en_def at_pc_def)
    note I = client_invD [OF inv]
    have "\<exists>lost. lost_of ?v (cs_rpcc s) = Some lost"
    proof (cases "v_ch ?v")
      case (Some c)
      then have "c \<in># refs_of (cs_threads s)" using refs_of_split(1) [OF i(1)] by simp
      then obtain k where "rc_conns (cs_rpcc s) c = Some k" using conn_invD [OF I(1)] by metis
      then show ?thesis using Some by (auto simp: lost_of_def isdead_def)
    qed (auto simp: lost_of_def)
    then obtain lost where l: "lost_of ?v (cs_rpcc s) = Some lost" by blast
    have "time_inv (cs_now s) (call1_retry (rc_retrans (cs_rpcc s)) lost ?v)"
      by (rule time_inv_retry [OF I(3) [OF nth_mem [OF i(1)]] i(2,3)])
    then have "client_inv (Suc n) (set_thread i (call1_retry (rc_retrans (cs_rpcc s)) lost ?v) s)"
      by (intro set_thread_same [OF inv i(1)]) (simp_all add: call1_retry_def)
    then show ?thesis using l True by (simp only: step) simp
  qed
qed

lemma step_Seen:
  assumes inv: "client_inv n s"
  shows "\<exists>s'. client_step (Seen i) s = Some s' \<and> client_inv (Suc n) s'"
  using client_inv_Suc [OF inv] set_thread_same [OF inv, of i "(cs_threads s ! i)\<lparr>v_pc := Leaving\<rparr>"]
  by (simp add: Let_def at_pc_def time_inv_def)

lemma step_Finish:
  assumes inv: "client_inv n s"
  shows "\<exists>s'. client_step (Finish i) s = Some s' \<and> client_inv (Suc n) s'"
proof (cases "at_pc Leaving i s")
  case False
  then show ?thesis using client_inv_Suc [OF inv] by simp
next
  case True
  let ?v = "cs_threads s ! i" and ?st = "cs_rpcc s" and ?R = "refs_of (erase i (cs_threads s))"
  have i: "i < length (cs_threads s)" using True by (simp add: at_pc_def)
  note I = client_invD [OF inv]
  obtain ca where ca: "map_of (rc_calls ?st) (v_xid ?v) = Some ca" "ca_done ca \<longrightarrow> ca_intret ca \<noteq> None"
    using calls_inv_found [OF I(2), of "v_xid ?v"] i by auto
  let ?st1 = "?st\<lparr>rc_calls := AList.delete (v_xid ?v) (rc_calls ?st),
                  rc_xid_rep_window := update_xid_rep (v_xid ?v) (rc_xid_rep_window ?st)\<rparr>"
  have c1: "conn_inv ?st1 (one (v_ch ?v) + ?R)"
    by (rule conn_inv_frame [of ?st]) (use I(1) refs_of_split(1) [OF i] in simp_all)
  have "\<exists>st2. (case v_ch ?v of None \<Rightarrow> Some ?st1 | Some c \<Rightarrow> conn_decref c ?st1) = Some st2 \<and>
      conn_inv st2 ?R \<and> calls_same ?st1 st2"
    using c1 conn_decref_inv [of ?st1 _ ?R] by (cases "v_ch ?v") (auto simp: calls_same_def)
  then obtain st2 where 2: "(case v_ch ?v of None \<Rightarrow> Some ?st1 | Some c \<Rightarrow> conn_decref c ?st1) = Some st2"
    "conn_inv st2 ?R" "calls_same ?st1 st2" by blast
  have "\<exists>r. (if ca_done ca then ca_intret ca else Some timeout_failure) = Some r" using ca(2) by auto
  then obtain r where "call1_end ?v ?st = Some ((r, ca_un ca), st2)"
    using ca(1) 2(1) by (auto simp: call1_end_def Let_def)
  then have "client_step (Finish i) s = Some (s\<lparr>cs_rpcc := st2, cs_threads := erase i (cs_threads s)\<rparr>)"
    using True by simp
  moreover have "calls_inv (Suc n) st2 (map v_xid (erase i (cs_threads s)))"
    using calls_inv_mono [OF calls_inv_end [OF I(2) i, of st2], of st2 "Suc n"] 2(3) by (simp add: calls_same_def)
  ultimately show ?thesis using I(3,4) 2(2) set_erase_subset [of i "cs_threads s"]
    by (auto simp: client_inv_def)
qed

lemma client_step_inv:
  assumes inv: "client_inv n s" and n: "Suc (Suc n) < 2 ^ 32" and e: "ev_ok e"
  shows "\<exists>s'. client_step e s = Some s' \<and> client_inv (Suc n) s'"
proof (cases e)
  case (Call proc req to)
  then show ?thesis using step_Call [OF inv n] e by (simp only: ev_ok_def client_ev.case)
next
  case (Pdu b)
  have "conn_inv (rpcc_got_pdu b (cs_rpcc s)) (refs_of (cs_threads s))"
    by (rule conn_inv_frame [OF client_invD(1) [OF inv]])
       (simp_all add: rpcc_got_pdu_def case_prod_unfold Let_def split: option.split)
  then show ?thesis using Pdu client_inv_rpcc [OF inv] calls_inv_pdu [OF client_invD(2) [OF inv]] by simp
next
  case (Die c)
  then show ?thesis
    using client_inv_Suc [OF inv] client_inv_rpcc [OF inv _ calls_inv_mono [OF client_invD(2) [OF inv]]]
      conn_kill_inv [OF client_invD(1) [OF inv], of c]
    by (auto simp: closeconn_def calls_same_def split: option.split)
next
  case Cancel
  have "conn_inv (cancel (cs_rpcc s)) (refs_of (cs_threads s))"
    by (rule conn_inv_frame [OF client_invD(1) [OF inv]]) (simp_all add: cancel_def Let_def)
  then show ?thesis using Cancel client_inv_rpcc [OF inv] calls_inv_cancel [OF client_invD(2) [OF inv]] by simp
next
  case (Bound ret r)
  have "conn_inv (bind_result ret r (cs_rpcc s)) (refs_of (cs_threads s))"
    by (rule conn_inv_frame [OF client_invD(1) [OF inv]]) (simp_all add: bind_result_def)
  then show ?thesis using Bound client_inv_rpcc [OF inv _ calls_inv_mono [OF client_invD(2) [OF inv]]]
    by (simp add: calls_same_def bind_result_def)
next
  case (Reach b)
  have "conn_inv (set_reachable b (cs_rpcc s)) (refs_of (cs_threads s))"
    by (rule conn_inv_frame [OF client_invD(1) [OF inv]]) (simp_all add: set_reachable_def)
  then show ?thesis using Reach client_inv_rpcc [OF inv _ calls_inv_mono [OF client_invD(2) [OF inv]]]
    by (simp add: calls_same_def set_reachable_def)
next
  case (Tick t)
  then show ?thesis using client_inv_Suc [OF inv] by (auto simp: client_inv_def intro: time_inv_later)
qed (use step_Send [OF inv] step_Clock [OF inv] step_Expire [OF inv] step_Seen [OF inv] step_Finish [OF inv]
     in \<open>simp_all only:\<close>)

lemma client_run_inv:
  "client_inv n s \<Longrightarrow> Suc (n + length es) < 2 ^ 32 \<Longrightarrow> \<forall>e\<in>set es. ev_ok e \<Longrightarrow>
     \<exists>s'. client_run es s = Some s' \<and> client_inv (n + length es) s'"
proof (induction es arbitrary: n s)
  case Nil
  then show ?case by simp
next
  case (Cons e es)
  obtain s1 where s1: "client_step e s = Some s1" "client_inv (Suc n) s1"
    using client_step_inv [OF Cons.prems(1), of e] Cons.prems(2,3) by auto
  then show ?case using Cons.IH [OF s1(2)] Cons.prems(2,3) by simp
qed

lemma client_new_inv: "valid_time t \<Longrightarrow> client_inv 0 (client_new retrans rand loss_env t)"
  by (simp add: client_inv_def client_new_def rpcc_new_def conn_inv_def conn_ok_def calls_inv_def refs_of_def)

lemma rpcc_delete_inv:
  assumes "conn_inv st {#}" "rc_calls st = []"
  shows "\<exists>st'. rpcc_delete st = Some st' \<and> rc_conns st' = Map.empty"
proof (cases "rc_chan st")
  case None
  then have "rc_conns st c = None" for c
    using assms(1) by (cases "rc_conns st c") (auto simp: conn_inv_def conn_ok_def dest!: spec [of _ c])
  then show ?thesis using None assms(2) by (simp add: rpcc_delete_def fun_eq_iff)
next
  case (Some c)
  obtain k where k: "rc_conns st c = Some k" "cn_refno k = 1"
    by (rule conn_invD [OF assms(1), of c]) (use Some in simp_all)
  have "rc_conns st d = None" if "d \<noteq> c" for d
    using assms(1) Some that by (cases "rc_conns st d") (auto simp: conn_inv_def conn_ok_def dest!: spec [of _ d])
  then have "(rc_conns st)(c := None) = Map.empty" by (simp add: fun_eq_iff)
  then show ?thesis using Some k assms(2)
    by (cases "cn_dead k") (simp_all add: rpcc_delete_def closeconn_def conn_decref_def Let_def)
qed

text \<open>
  C39. Any number of threads may call through one client while replies arrive, connections die, calls
  are cancelled and the clock runs, in any order: no assertion of \<^verbatim>\<open>call1\<close>, \<^verbatim>\<open>add_timespec\<close> or \<^verbatim>\<open>decref\<close>
  fails and no deleted connection is used. When all calls have returned, the destructor of the client
  finds its table of calls empty and no connection is left. The run has fewer than \<open>2\<^sup>3\<^sup>2 - 1\<close> events, so
  that no xid is used twice, and the timeouts are non-negative \<^verbatim>\<open>int\<close>s.
\<close>

theorem client_safe:
  assumes "valid_time t" "\<forall>e\<in>set es. ev_ok e" "length es < 2 ^ 32 - 1"
  shows "\<exists>s. client_run es (client_new retrans rand loss_env t) = Some s \<and>
    (cs_threads s = [] \<longrightarrow> (\<exists>st. rpcc_delete (cs_rpcc s) = Some st \<and> rc_conns st = Map.empty))"
proof -
  obtain s where s: "client_run es (client_new retrans rand loss_env t) = Some s" "client_inv (length es) s"
    using client_run_inv [OF client_new_inv [OF assms(1), of retrans rand loss_env] _ assms(2)] assms(3) by auto
  have "\<exists>st. rpcc_delete (cs_rpcc s) = Some st \<and> rc_conns st = Map.empty" if "cs_threads s = []"
    by (rule rpcc_delete_inv) (use client_invD(1,2) [OF s(2)] that in \<open>simp_all add: refs_of_def calls_inv_def\<close>)
  then show ?thesis using s(1) by blast
qed

definition demo_events :: "client_ev list" where
  "demo_events =
     [Bound 0 5, Call 2 marshall_new 3000, Call 2 marshall_new 3000, Send 0 True True, Send 1 True True,
      Clock 0, Die 0, Tick \<lparr>tv_sec = 101, tv_nsec = 5\<rparr>, Expire 0, Send 0 True False, Clock 0, Clock 1,
      Cancel, Seen 0, Seen 1, Finish 0, Finish 0]"

lemma demo_events_end:
  "map_option cs_threads (client_run demo_events (client_new True 9 None \<lparr>tv_sec = 100, tv_nsec = 5\<rparr>)) = Some []"
  by code_simp

theorem client_safe_witness:
  "\<exists>s st. client_run demo_events (client_new True 9 None \<lparr>tv_sec = 100, tv_nsec = 5\<rparr>) = Some s \<and>
     rpcc_delete (cs_rpcc s) = Some st \<and> rc_conns st = Map.empty"
proof -
  have "\<forall>e\<in>set demo_events. ev_ok e" by (simp add: demo_events_def ev_ok_def)
  then show ?thesis
    using client_safe [of "\<lparr>tv_sec = 100, tv_nsec = 5\<rparr>" demo_events True 9 None] demo_events_end
    by (auto simp: valid_time_def demo_events_def)
qed

end
