(* ===== verification/Connection.thy ===== *)
theory Connection
  imports Prelude Marshall "HOL-Library.Sublist" "HOL-Library.Monad_Syntax"
begin

text \<open>
  \<^verbatim>\<open>connection.cc\<close>: packets over a non-blocking byte stream. A sender owns the output buffer until all of
  it is written, in as many partial writes as the socket needs; the reader reassembles a packet from
  its length word and hands it up. A connection that closes is marked dead before the poll manager has
  dropped its callbacks, and the callbacks may run in between. The lemmas show that for every way the
  two sockets split the bytes the packets handed up are a prefix of the packets sent, whole and in
  order, and that the only assertion that can fail is the one of a write callback in that gap.
\<close>

section \<open>State\<close>

text \<open>
  \<open>cb_buf\<close> is the bytes of the buffer, for input those received so far; \<^const>\<open>None\<close> is the null pointer.
\<close>

record charbuf =
  cb_buf :: "string option"
  cb_sz :: int
  cb_solong :: int

definition charbuf_new :: charbuf where
  "charbuf_new = \<lparr>cb_buf = None, cb_sz = 0, cb_solong = 0\<rparr>"

text \<open>
  \<open>c_rd\<close> and \<open>c_wr\<close> are the callbacks registered with the poll manager for the descriptor; \<open>c_removing\<close> says
  that a thread is in \<^verbatim>\<open>PollMgr::block_remove_fd\<close>, which has them dropped by the time it returns.
\<close>

record connection =
  c_dead :: bool
  c_wpdu :: charbuf
  c_rpdu :: charbuf
  c_waiters :: int
  c_rd :: bool
  c_wr :: bool
  c_removing :: bool

definition connection_new :: connection where
  "connection_new = \<lparr>c_dead = False, c_wpdu = charbuf_new, c_rpdu = charbuf_new, c_waiters = 0,
                     c_rd = True, c_wr = False, c_removing = False\<rparr>"

definition MAX_PDU :: int where
  "MAX_PDU = push_bit 20 10"

text \<open>
  \<^verbatim>\<open>closeconn\<close> in two parts: the critical section, and the return of \<^verbatim>\<open>block_remove_fd\<close>, which is called
  without the mutex.
\<close>

definition close_connection :: "connection \<Rightarrow> connection" where
  "close_connection c = (if c_dead c then c else c\<lparr>c_dead := True, c_removing := True\<rparr>)"

definition block_remove_fd :: "connection \<Rightarrow> connection" where
  "block_remove_fd c = (if c_removing c then c\<lparr>c_rd := False, c_wr := False, c_removing := False\<rparr> else c)"

section \<open>Writing\<close>

text \<open>
  The outcome of \<^verbatim>\<open>write\<close>: a number of bytes, at most what was offered, or a failure, which may be
  \<^verbatim>\<open>EAGAIN\<close>. The lossy mode shuts the socket down, so that the next write fails.
\<close>

datatype write_out = Wrote nat | WAgain | WErr

text \<open>The result: whether the connection is still good, the bytes that left, and the connection.\<close>

definition writepdu :: "write_out \<Rightarrow> connection \<Rightarrow> (bool \<times> string \<times> connection) option" where
  "writepdu io c =
     (let w = c_wpdu c
      in if cb_solong w < 0 then None
         else if cb_solong w = cb_sz w then Some (True, [], c)
         else do { b \<leftarrow> cb_buf w;
                   b' \<leftarrow> (if cb_solong w = 0
                          then if length b < 4 then None else Some (be32 (word_of_int (cb_sz w)) @ drop 4 b)
                          else Some b);
                   let w' = w\<lparr>cb_buf := Some b'\<rparr>;
                   case io of
                     WAgain \<Rightarrow> Some (True, [], c\<lparr>c_wpdu := w'\<rparr>)
                   | WErr \<Rightarrow> Some (False, [], c\<lparr>c_wpdu := w'\<lparr>cb_solong := -1, cb_sz := 0\<rparr>\<rparr>)
                   | Wrote n \<Rightarrow>
                       (let k = min n (nat (cb_sz w - cb_solong w))
                        in Some (True, take k (drop (nat (cb_solong w)) b'),
                                 c\<lparr>c_wpdu := w'\<lparr>cb_solong := cb_solong w + int k\<rparr>\<rparr>)) })"

text \<open>
  \<^verbatim>\<open>send\<close> in three parts: the arrival of the thread, which counts itself as waiting; its turn, when the
  buffer is free or the connection dead; and the end, after the write or after a wait. \<^const>\<open>None\<close> as the
  result of a turn means that the thread waits: for the completion of the write, or, when the
  write failed, without the mutex for the poll manager to drop the callbacks.
\<close>

definition send_enter :: "connection \<Rightarrow> connection" where
  "send_enter c = c\<lparr>c_waiters := c_waiters c + 1\<rparr>"

definition send_end :: "connection \<Rightarrow> bool \<times> connection" where
  "send_end c =
     (\<not> c_dead c \<and> cb_solong (c_wpdu c) = cb_sz (c_wpdu c), c\<lparr>c_wpdu := charbuf_new\<rparr>)"

definition send_turn :: "string \<Rightarrow> write_out \<Rightarrow> connection \<Rightarrow> (bool option \<times> string \<times> connection) option" where
  "send_turn b io c =
     (let c1 = c\<lparr>c_waiters := c_waiters c - 1\<rparr>
      in if c_dead c1 then Some (Some False, [], c1)
         else do { (ok, out, c2) \<leftarrow>
                     writepdu io (c1\<lparr>c_wpdu := \<lparr>cb_buf = Some b, cb_sz = int (length b), cb_solong = 0\<rparr>\<rparr>);
                   if \<not> ok
                   then Some (None, out, c2\<lparr>c_dead := True, c_removing := True\<rparr>)
                   else if cb_solong (c_wpdu c2) = cb_sz (c_wpdu c2)
                   then let (r, c3) = send_end c2 in Some (Some r, out, c3)
                   else Some (None, out, c2\<lparr>c_wr := True\<rparr>) })"

text \<open>
  The condition under which the wait goes on. A failed write, and nothing else, leaves a negative
  \<^verbatim>\<open>solong\<close>; the thread that had it is the one in \<^verbatim>\<open>block_remove_fd\<close>.
\<close>

definition send_blocked :: "connection \<Rightarrow> bool" where
  "send_blocked c \<longleftrightarrow>
     \<not> c_dead c \<and> cb_solong (c_wpdu c) \<ge> 0 \<and> cb_solong (c_wpdu c) < cb_sz (c_wpdu c) \<or>
     c_removing c \<and> cb_solong (c_wpdu c) < 0"

definition write_cb :: "write_out \<Rightarrow> connection \<Rightarrow> (string \<times> connection) option" where
  "write_cb io c =
     (if c_dead c then None
      else if cb_sz (c_wpdu c) = 0 then Some ([], c\<lparr>c_wr := False\<rparr>)
      else do { (ok, out, c1) \<leftarrow> writepdu io c;
                if \<not> ok then Some (out, c1\<lparr>c_rd := False, c_wr := False, c_dead := True\<rparr>)
                else if cb_solong (c_wpdu c1) < 0 then None
                else Some (out, c1) })"

section \<open>Reading\<close>

text \<open>
  The outcome of \<^verbatim>\<open>read\<close>: up to so many bytes of the stream, end of file, \<^verbatim>\<open>EAGAIN\<close>, or another error. At
  end of file \<^verbatim>\<open>errno\<close> keeps its old value, which may be \<^verbatim>\<open>EAGAIN\<close>.
\<close>

datatype read_out = Bytes nat | Eof bool | RAgain | RErr

definition ntohl :: "string \<Rightarrow> u32" where
  "ntohl s =
     (case s of
        [a, b, c, d] \<Rightarrow> push_bit 24 (of_char a) OR push_bit 16 (of_char b) OR push_bit 8 (of_char c) OR of_char d
      | _ \<Rightarrow> 0)"

text \<open>
  \<open>s\<close> is what the stream holds; the result has what is left of it. The checks that the code does not make
  are failures: a negative length, and one below the length word itself, for which the second read asks
  for more bytes than the buffer has.
\<close>

definition read_header :: "read_out \<Rightarrow> string \<Rightarrow> connection \<Rightarrow> (bool \<times> string \<times> charbuf) option" where
  "read_header r1 s c =
     (if cb_sz (c_rpdu c) \<noteq> 0 then Some (True, s, c_rpdu c)
      else case r1 of
             Eof _ \<Rightarrow> Some (False, s, c_rpdu c)
           | RErr \<Rightarrow> Some (False, s, c_rpdu c)
           | RAgain \<Rightarrow> None
           | Bytes n \<Rightarrow>
               (let h = take (min n 4) s; sz = sint (ntohl h)
                in if length h \<noteq> 4 then Some (False, drop (min n 4) s, c_rpdu c)
                   else if sz > MAX_PDU then Some (False, drop 4 s, c_rpdu c)
                   else if cb_buf (c_rpdu c) \<noteq> None \<or> sz < 4 then None
                   else Some (True, drop 4 s, \<lparr>cb_buf = Some h, cb_sz = sz, cb_solong = 4\<rparr>)))"

definition read_body :: "read_out \<Rightarrow> string \<Rightarrow> charbuf \<Rightarrow> connection \<Rightarrow> (bool \<times> string \<times> connection) option" where
  "read_body r2 s1 r c =
     do { b \<leftarrow> cb_buf r;
          let want = nat (cb_sz r - cb_solong r);
          let got = (case r2 of Bytes n \<Rightarrow> take (min n want) s1 | _ \<Rightarrow> []);
          let again = (case r2 of RAgain \<Rightarrow> True | Eof stale \<Rightarrow> stale | _ \<Rightarrow> False);
          if got \<noteq> []
          then Some (True, drop (length got) s1,
                     c\<lparr>c_rpdu := r\<lparr>cb_buf := Some (b @ got), cb_solong := cb_solong r + int (length got)\<rparr>\<rparr>)
          else if again then Some (True, s1, c\<lparr>c_rpdu := r\<rparr>)
          else Some (False, s1, c\<lparr>c_rpdu := charbuf_new\<rparr>) }"

definition readpdu :: "read_out \<Rightarrow> read_out \<Rightarrow> string \<Rightarrow> connection \<Rightarrow> (bool \<times> string \<times> connection) option" where
  "readpdu r1 r2 s c =
     do { (go, s1, r) \<leftarrow> read_header r1 s c;
          if go then read_body r2 s1 r c else Some (False, s1, c) }"

text \<open>\<open>accept\<close> is the answer of the channel manager's \<^verbatim>\<open>got_pdu\<close>; the packet is consumed if it is true.\<close>

definition read_cb ::
  "bool \<Rightarrow> read_out \<Rightarrow> read_out \<Rightarrow> string \<Rightarrow> connection \<Rightarrow> (string option \<times> string \<times> connection) option" where
  "read_cb accept r1 r2 s c =
     (if c_dead c then Some (None, s, c)
      else do { (succ, s1, c1) \<leftarrow>
                  (if cb_buf (c_rpdu c) = None \<or> cb_solong (c_rpdu c) < cb_sz (c_rpdu c)
                   then readpdu r1 r2 s c else Some (True, s, c));
                let c2 = (if \<not> succ then c1\<lparr>c_rd := False, c_wr := False, c_dead := True\<rparr> else c1);
                if cb_buf (c_rpdu c2) \<noteq> None \<and> cb_sz (c_rpdu c2) = cb_solong (c_rpdu c2) \<and> accept
                then Some (cb_buf (c_rpdu c2), s1, c2\<lparr>c_rpdu := charbuf_new\<rparr>)
                else Some (None, s1, c2) })"

section \<open>Two ends of a stream\<close>

text \<open>
  A sending and a receiving connection with the bytes in flight, the packets whose sending began and
  the packets that were handed up. Reads take bytes from the stream in order; everything else about
  the sockets is left open.
\<close>

record link =
  l_tx :: connection
  l_rx :: connection
  l_wire :: string
  l_sent :: "string list"
  l_recv :: "string list"

definition link_new :: link where
  "link_new = \<lparr>l_tx = connection_new, l_rx = connection_new, l_wire = [], l_sent = [], l_recv = []\<rparr>"

datatype link_ev =
    Enter
  | Turn string write_out
  | Complete
  | Writable write_out
  | Readable bool read_out read_out
  | Close_tx
  | Close_rx
  | Removed_tx
  | Removed_rx

fun link_step :: "link_ev \<Rightarrow> link \<Rightarrow> link option" where
  "link_step Enter l = Some (l\<lparr>l_tx := send_enter (l_tx l)\<rparr>)"
| "link_step (Turn b io) l =
     (if 0 < c_waiters (l_tx l) \<and> (c_dead (l_tx l) \<or> cb_buf (c_wpdu (l_tx l)) = None)
      then do { (r, out, c) \<leftarrow> send_turn b io (l_tx l);
                Some (l\<lparr>l_tx := c, l_wire := l_wire l @ out,
                        l_sent := (if c_dead (l_tx l) then l_sent l else l_sent l @ [b])\<rparr>) }
      else Some l)"
| "link_step Complete l =
     (if cb_buf (c_wpdu (l_tx l)) \<noteq> None \<and> \<not> send_blocked (l_tx l)
      then Some (l\<lparr>l_tx := snd (send_end (l_tx l))\<rparr>) else Some l)"
| "link_step (Writable io) l =
     (if c_wr (l_tx l)
      then do { (out, c) \<leftarrow> write_cb io (l_tx l); Some (l\<lparr>l_tx := c, l_wire := l_wire l @ out\<rparr>) }
      else Some l)"
| "link_step (Readable accept r1 r2) l =
     (if c_rd (l_rx l)
      then do { (p, s, c) \<leftarrow> read_cb accept r1 r2 (l_wire l) (l_rx l);
                Some (l\<lparr>l_rx := c, l_wire := s,
                        l_recv := (case p of None \<Rightarrow> l_recv l | Some b \<Rightarrow> l_recv l @ [b])\<rparr>) }
      else Some l)"
| "link_step Close_tx l = Some (l\<lparr>l_tx := close_connection (l_tx l)\<rparr>)"
| "link_step Close_rx l = Some (l\<lparr>l_rx := close_connection (l_rx l)\<rparr>)"
| "link_step Removed_tx l = Some (l\<lparr>l_tx := block_remove_fd (l_tx l)\<rparr>)"
| "link_step Removed_rx l = Some (l\<lparr>l_rx := block_remove_fd (l_rx l)\<rparr>)"

fun link_run :: "link_ev list \<Rightarrow> link \<Rightarrow> link option" where
  "link_run [] l = Some l"
| "link_run (e # es) l = do { l' \<leftarrow> link_step e l; link_run es l' }"

text \<open>What the peer receives for a buffer: the length word replaces its first four bytes.\<close>

definition frame :: "string \<Rightarrow> string" where
  "frame b = be32 (word_of_nat (length b)) @ drop 4 b"

section \<open>The length word\<close>

definition pdu_ok :: "string \<Rightarrow> bool" where
  "pdu_ok b \<longleftrightarrow> 4 < length b \<and> int (length b) \<le> MAX_PDU"

lemma MAX_PDU_eq: "MAX_PDU = 10485760"
  by (simp add: MAX_PDU_def push_bit_eq_mult)

lemma of_char_byte: "(of_char (char_of (unat (b :: u8))) :: u32) = ucast b"
proof -
  have "(of_char (char_of (unat b)) :: u32) = of_nat (of_char (char_of (unat b)))" by (simp only: of_nat_of_char)
  also have "\<dots> = of_nat (unat b)" by (simp only: of_char_byte_char)
  finally show ?thesis by simp
qed

lemma ntohl_be32 [simp]: "ntohl (be32 x) = x"
  unfolding ntohl_def be32_def list.case of_char_byte by (rule word32_of_bytes)

lemma length_frame [simp]: "pdu_ok b \<Longrightarrow> length (frame b) = length b"
  by (simp add: frame_def pdu_ok_def)

lemma pdu_ok_frame [simp]: "pdu_ok b \<Longrightarrow> pdu_ok (frame b)"
  using length_frame [of b] by (simp add: pdu_ok_def)

lemma frame_frame [simp]: "pdu_ok b \<Longrightarrow> frame (frame b) = frame b"
  using length_frame [of b] by (simp add: frame_def)

lemma take_frame: "take 4 (frame b) = be32 (word_of_nat (length b))"
  by (simp add: frame_def)

lemma frame_size: "pdu_ok b \<Longrightarrow> sint (ntohl (take 4 (frame b))) = int (length b)"
proof -
  assume b: "pdu_ok b"
  then have l: "int (length b) < 2 ^ 31" by (simp add: pdu_ok_def MAX_PDU_eq)
  then have "uint (word_of_nat (length b) :: u32) = int (length b)"
    by (simp add: unsigned_of_nat take_bit_nat_eq_self)
  then have "sint (word_of_nat (length b) :: u32) = int (length b)"
    using l by (simp only: sint_uint) (simp add: signed_take_bit_int_eq_self)
  then show ?thesis by (simp add: take_frame)
qed

section \<open>Partial writes\<close>

text \<open>The bytes of the current packet that have not left yet.\<close>

definition pend :: "charbuf \<Rightarrow> string" where
  "pend w = (case cb_buf w of None \<Rightarrow> [] | Some b \<Rightarrow> drop (nat (cb_solong w)) (frame b))"

definition wpdu_ok :: "charbuf \<Rightarrow> bool" where
  "wpdu_ok w =
     (case cb_buf w of
        None \<Rightarrow> cb_sz w = 0 \<and> cb_solong w = 0
      | Some b \<Rightarrow> pdu_ok b \<and> cb_sz w = int (length b) \<and> 0 \<le> cb_solong w \<and> cb_solong w \<le> cb_sz w \<and>
                  (0 < cb_solong w \<longrightarrow> frame b = b))"

lemma writepdu_spec:
  assumes ok: "wpdu_ok (c_wpdu c)" and b: "cb_buf (c_wpdu c) = Some b"
  shows "\<exists>good out w. writepdu io c = Some (good, out, c\<lparr>c_wpdu := w\<rparr>) \<and>
    (if good then out @ pend w = pend (c_wpdu c) \<and> wpdu_ok w \<and> cb_buf w \<noteq> None else out = [])"
proof -
  let ?w = "c_wpdu c"
  let ?w' = "?w\<lparr>cb_buf := Some (frame b)\<rparr>"
  have w: "pdu_ok b" "cb_sz ?w = int (length b)" "0 \<le> cb_solong ?w" "cb_solong ?w \<le> cb_sz ?w"
    "0 < cb_solong ?w \<longrightarrow> frame b = b" using ok b by (simp_all add: wpdu_ok_def)
  have p: "pend ?w = drop (nat (cb_solong ?w)) (frame b)" by (simp add: pend_def b)
  show ?thesis
  proof (cases "cb_solong ?w = cb_sz ?w")
    case True
    then have "writepdu io c = Some (True, [], c\<lparr>c_wpdu := ?w\<rparr>)" using w by (simp add: writepdu_def Let_def)
    then show ?thesis using ok b by (intro exI [of _ True] exI [of _ "[]"] exI [of _ ?w]) simp
  next
    case False
    have b': "(if cb_solong ?w = 0
        then if length b < 4 then None else Some (be32 (word_of_int (cb_sz ?w)) @ drop 4 b)
        else Some b) = Some (frame b)"
      using w by (cases "cb_solong ?w = 0") (simp_all add: frame_def pdu_ok_def)
    have eq: "writepdu io c =
        (case io of WAgain \<Rightarrow> Some (True, [], c\<lparr>c_wpdu := ?w'\<rparr>)
         | WErr \<Rightarrow> Some (False, [], c\<lparr>c_wpdu := ?w'\<lparr>cb_solong := -1, cb_sz := 0\<rparr>\<rparr>)
         | Wrote n \<Rightarrow> (let k = min n (nat (cb_sz ?w - cb_solong ?w))
             in Some (True, take k (drop (nat (cb_solong ?w)) (frame b)),
                      c\<lparr>c_wpdu := ?w'\<lparr>cb_solong := cb_solong ?w + int k\<rparr>\<rparr>)))"
      using False w(3) b unfolding writepdu_def Let_def by (simp add: b')
    show ?thesis
    proof (cases io)
      case (Wrote n)
      define k where "k = min n (nat (cb_sz ?w - cb_solong ?w))"
      let ?v = "?w'\<lparr>cb_solong := cb_solong ?w + int k\<rparr>"
      have "nat (cb_solong ?w + int k) = nat (cb_solong ?w) + k" using w(3) by linarith
      then have "take k (drop (nat (cb_solong ?w)) (frame b)) @ pend ?v = pend ?w"
        using w(1) append_take_drop_id [of k "drop (nat (cb_solong ?w)) (frame b)"]
        by (simp add: pend_def b add.commute)
      moreover have "int k \<le> cb_sz ?w - cb_solong ?w" using w(4) unfolding k_def by linarith
      then have "wpdu_ok ?v" using w by (simp add: wpdu_ok_def)
      moreover have "writepdu io c = Some (True, take k (drop (nat (cb_solong ?w)) (frame b)), c\<lparr>c_wpdu := ?v\<rparr>)"
        using eq Wrote by (simp add: k_def Let_def)
      ultimately show ?thesis
        by (intro exI [of _ True] exI [of _ "take k (drop (nat (cb_solong ?w)) (frame b))"] exI [of _ ?v]) simp
    next
      case WAgain
      have "pend ?w' = pend ?w" "wpdu_ok ?w'" using w by (simp_all add: pend_def b wpdu_ok_def)
      then show ?thesis using eq WAgain by (intro exI [of _ True] exI [of _ "[]"] exI [of _ ?w']) simp
    next
      case WErr
      then show ?thesis using eq
        by (intro exI [of _ False] exI [of _ "[]"] exI [of _ "?w'\<lparr>cb_solong := -1, cb_sz := 0\<rparr>"]) simp
    qed
  qed
qed

section \<open>Partial reads\<close>

definition rbuf :: "charbuf \<Rightarrow> string" where
  "rbuf r = (case cb_buf r of None \<Rightarrow> [] | Some s \<Rightarrow> s)"

definition rpdu_ok :: "charbuf \<Rightarrow> bool" where
  "rpdu_ok r =
     (case cb_buf r of
        None \<Rightarrow> cb_sz r = 0 \<and> cb_solong r = 0
      | Some s \<Rightarrow> 4 \<le> length s \<and> cb_solong r = int (length s) \<and> cb_solong r \<le> cb_sz r \<and>
                  cb_sz r = sint (ntohl (take 4 s)) \<and> 4 < cb_sz r)"

lemma rpdu_ok_new [simp]: "rpdu_ok charbuf_new" "rbuf charbuf_new = []"
  by (simp_all add: rpdu_ok_def rbuf_def charbuf_new_def)

lemma read_body_spec:
  assumes ok: "rpdu_ok r" and b: "cb_buf r = Some b"
  shows "\<exists>good s' r'. read_body r2 s r c = Some (good, s', c\<lparr>c_rpdu := r'\<rparr>) \<and>
    (if good then rpdu_ok r' \<and> rbuf r' @ s' = rbuf r @ s else cb_buf r' = None)"
proof -
  define want where "want = nat (cb_sz r - cb_solong r)"
  define got where "got = (case r2 of Bytes n \<Rightarrow> take (min n want) s | _ \<Rightarrow> [])"
  define again where "again = (case r2 of RAgain \<Rightarrow> True | Eof stale \<Rightarrow> stale | _ \<Rightarrow> False)"
  have g1: "got @ drop (length got) s = s" by (cases r2) (simp_all add: got_def min_def)
  have g2: "length got \<le> want" by (cases r2) (simp_all add: got_def)
  have eq: "read_body r2 s r c =
      (if got \<noteq> [] then Some (True, drop (length got) s,
           c\<lparr>c_rpdu := r\<lparr>cb_buf := Some (b @ got), cb_solong := cb_solong r + int (length got)\<rparr>\<rparr>)
       else if again then Some (True, s, c\<lparr>c_rpdu := r\<rparr>)
       else Some (False, s, c\<lparr>c_rpdu := charbuf_new\<rparr>))"
    unfolding read_body_def b Let_def want_def got_def again_def by (simp only: bind.bind_lunit)
  let ?r = "r\<lparr>cb_buf := Some (b @ got), cb_solong := cb_solong r + int (length got)\<rparr>"
  show ?thesis
  proof (cases "got = []")
    case False
    have "cb_solong r \<le> cb_sz r" using ok b by (simp add: rpdu_ok_def)
    then have "int (length got) \<le> cb_sz r - cb_solong r" using g2 unfolding want_def by linarith
    then have "rpdu_ok ?r" using ok b by (simp add: rpdu_ok_def)
    moreover have "rbuf ?r @ drop (length got) s = rbuf r @ s" using g1 b by (simp add: rbuf_def)
    ultimately show ?thesis using eq False
      by (intro exI [of _ True] exI [of _ "drop (length got) s"] exI [of _ ?r]) simp
  next
    case got: True
    show ?thesis
    proof (cases again)
      case True
      then show ?thesis using eq got ok by (intro exI [of _ True] exI [of _ s] exI [of _ r]) simp
    next
      case False
      then show ?thesis using eq got
        by (intro exI [of _ False] exI [of _ s] exI [of _ charbuf_new]) (simp add: charbuf_new_def)
    qed
  qed
qed

lemma readpdu_body: "cb_sz (c_rpdu c) \<noteq> 0 \<Longrightarrow> readpdu r1 r2 s c = read_body r2 s (c_rpdu c) c"
  by (simp add: readpdu_def read_header_def)

text \<open>The bytes to be read start a packet, because what was read so far are whole packets.\<close>

lemma header_of_stream:
  assumes "s @ rest = concat (map frame bs)" "\<forall>b\<in>set bs. pdu_ok b" "4 \<le> length s"
  shows "\<exists>b bs'. bs = b # bs' \<and> pdu_ok b \<and> take 4 s = take 4 (frame b)"
proof (cases bs)
  case (Cons b bs')
  have "4 \<le> length (frame b)" using assms(2) Cons by (simp add: pdu_ok_def)
  then have "take 4 s = take 4 (frame b)"
    using arg_cong [OF assms(1), of "take 4"] assms(3) Cons by simp
  then show ?thesis using Cons assms(2) by simp
qed (use assms in simp)

lemma readpdu_spec:
  assumes ok: "rpdu_ok (c_rpdu c)" and str: "rbuf (c_rpdu c) @ s @ rest = concat (map frame bs)"
    and bs: "\<forall>b\<in>set bs. pdu_ok b" and r1: "r1 \<noteq> RAgain"
  shows "\<exists>good s' r'. readpdu r1 r2 s c = Some (good, s', c\<lparr>c_rpdu := r'\<rparr>) \<and>
    (if good then rpdu_ok r' \<and> rbuf r' @ s' = rbuf (c_rpdu c) @ s else cb_buf r' = None)"
proof (cases "cb_buf (c_rpdu c)")
  case (Some b)
  then have "cb_sz (c_rpdu c) \<noteq> 0" using ok by (simp add: rpdu_ok_def)
  then show ?thesis using read_body_spec [OF ok Some] by (simp add: readpdu_body)
next
  case None
  have z: "cb_sz (c_rpdu c) = 0" "rbuf (c_rpdu c) = []" using ok None by (simp_all add: rpdu_ok_def rbuf_def)
  have fail: ?thesis if "readpdu r1 r2 s c = Some (False, s', c)" for s'
    using that None by (intro exI [of _ False] exI [of _ s'] exI [of _ "c_rpdu c"]) simp
  show ?thesis
  proof (cases r1)
    case (Bytes n)
    define h where "h = take (min n 4) s"
    show ?thesis
    proof (cases "length h = 4")
      case False
      then show ?thesis using z Bytes by (intro fail [of "drop (min n 4) s"]) (simp add: readpdu_def read_header_def Let_def h_def)
    next
      case True
      then have h: "h = take 4 s" "4 \<le> length s" by (auto simp: h_def min_def split: if_splits)
      obtain b bs' where b: "pdu_ok b" "take 4 s = take 4 (frame b)"
        using header_of_stream [of s rest bs] str bs h(2) z(2) by auto
      have sz: "sint (ntohl h) = int (length b)" using frame_size [OF b(1)] b(2) h(1) by simp
      let ?r = "\<lparr>cb_buf = Some h, cb_sz = sint (ntohl h), cb_solong = 4\<rparr>"
      have "read_header r1 s c = Some (True, drop 4 s, ?r)"
        using z(1) Bytes True sz b(1) None
        unfolding read_header_def h_def [symmetric] by (simp add: Let_def pdu_ok_def h_def [symmetric])
      then have e: "readpdu r1 r2 s c = read_body r2 (drop 4 s) ?r c" by (simp add: readpdu_def)
      have ro: "rpdu_ok ?r" using True sz b(1) by (simp add: rpdu_ok_def pdu_ok_def)
      have rb: "rbuf ?r @ drop 4 s = rbuf (c_rpdu c) @ s" using z(2) h(1) by (simp add: rbuf_def)
      show ?thesis unfolding e rb [symmetric] by (rule read_body_spec [OF ro]) simp
    qed
  qed (use z r1 fail in \<open>simp_all add: readpdu_def read_header_def\<close>)
qed

section \<open>The packets handed up are a prefix of the packets sent\<close>

text \<open>
  The stream: what was handed up, the packet being read, the bytes in flight and the bytes still to be
  written make up the packets sent. When the sender is dead the last part is lost.
\<close>

definition stream_ok :: "link \<Rightarrow> string \<Rightarrow> bool" where
  "stream_ok l rest \<longleftrightarrow> concat (l_recv l) @ rbuf (c_rpdu (l_rx l)) @ l_wire l @ rest = concat (map frame (l_sent l))"

definition link_inv :: "link \<Rightarrow> bool" where
  "link_inv l \<longleftrightarrow>
     (\<forall>b\<in>set (l_sent l). pdu_ok b) \<and> prefix (l_recv l) (map frame (l_sent l)) \<and>
     (if c_dead (l_tx l) then c_wr (l_tx l) \<longrightarrow> c_removing (l_tx l)
      else wpdu_ok (c_wpdu (l_tx l)) \<and> \<not> c_removing (l_tx l)) \<and>
     (\<not> c_dead (l_rx l) \<longrightarrow> rpdu_ok (c_rpdu (l_rx l)) \<and>
        (if c_dead (l_tx l) then \<exists>rest. stream_ok l rest else stream_ok l (pend (c_wpdu (l_tx l)))))"

lemma link_invD:
  assumes "link_inv l"
  shows "\<forall>b\<in>set (l_sent l). pdu_ok b" "prefix (l_recv l) (map frame (l_sent l))"
    "c_dead (l_tx l) \<Longrightarrow> c_wr (l_tx l) \<Longrightarrow> c_removing (l_tx l)" "\<not> c_dead (l_tx l) \<Longrightarrow> wpdu_ok (c_wpdu (l_tx l))"
    "\<not> c_dead (l_rx l) \<Longrightarrow> rpdu_ok (c_rpdu (l_rx l))" "\<not> c_dead (l_rx l) \<Longrightarrow> \<exists>rest. stream_ok l rest"
    "\<not> c_dead (l_rx l) \<Longrightarrow> \<not> c_dead (l_tx l) \<Longrightarrow> stream_ok l (pend (c_wpdu (l_tx l)))"
    "\<not> c_dead (l_tx l) \<Longrightarrow> \<not> c_removing (l_tx l)"
  using assms unfolding link_inv_def by (simp_all split: if_splits) blast+

lemma stream_ok_tx [simp]: "stream_ok (l\<lparr>l_tx := c\<rparr>) = stream_ok l"
  by (simp add: fun_eq_iff stream_ok_def)

lemma link_inv_same:
  "link_inv l \<Longrightarrow> l_tx l' = l_tx l \<Longrightarrow> l_rx l' = l_rx l \<Longrightarrow> l_wire l' = l_wire l \<Longrightarrow> l_sent l' = l_sent l \<Longrightarrow>
   l_recv l' = l_recv l \<Longrightarrow> link_inv l'"
  by (metis (full_types) link.equality old.unit.exhaust)

lemma link_inv_dead_tx:
  assumes inv: "link_inv l" and c: "c_dead c" "c_wr c \<longrightarrow> c_removing c"
  shows "link_inv (l\<lparr>l_tx := c\<rparr>)"
  using link_invD(1,2,5,6) [OF inv] c by (simp add: link_inv_def)

text \<open>A write that leaves the connection good moves bytes from the buffer to the stream.\<close>

lemma link_inv_write:
  assumes inv: "link_inv l" and alive: "\<not> c_dead (l_tx l)" "\<not> c_dead c" "\<not> c_removing c"
    and w: "wpdu_ok (c_wpdu c)" "out @ pend (c_wpdu c) = pend (c_wpdu (l_tx l))"
  shows "link_inv (l\<lparr>l_tx := c, l_wire := l_wire l @ out\<rparr>)"
proof -
  have "stream_ok (l\<lparr>l_tx := c, l_wire := l_wire l @ out\<rparr>) (pend (c_wpdu c))" if "\<not> c_dead (l_rx l)"
    using link_invD(7) [OF inv that alive(1)] unfolding w(2) [symmetric] by (simp add: stream_ok_def)
  then show ?thesis using link_invD(1,2,5) [OF inv] w(1) alive(2,3) by (simp add: link_inv_def)
qed

text \<open>A new packet in the empty buffer of a good connection.\<close>

lemma link_inv_load:
  assumes inv: "link_inv l" and tx: "\<not> c_dead (l_tx l)" "cb_buf (c_wpdu (l_tx l)) = None" and b: "pdu_ok b"
  shows "link_inv (l\<lparr>l_tx := (l_tx l)\<lparr>c_waiters := n, c_wpdu := \<lparr>cb_buf = Some b, cb_sz = int (length b), cb_solong = 0\<rparr>\<rparr>,
                     l_sent := l_sent l @ [b]\<rparr>)"
proof -
  let ?w = "\<lparr>cb_buf = Some b, cb_sz = int (length b), cb_solong = 0\<rparr>"
  have "pend (c_wpdu (l_tx l)) = []" "pend ?w = frame b" using tx(2) by (simp_all add: pend_def)
  moreover have "wpdu_ok ?w" using b by (simp add: wpdu_ok_def)
  ultimately show ?thesis using link_invD(1,2,5) [OF inv] link_invD(7) [OF inv _ tx(1)] link_invD(8) [OF inv tx(1)] tx(1) b
    by (simp add: link_inv_def stream_ok_def)
qed

lemma Complete_inv:
  assumes inv: "link_inv l" and b: "\<not> send_blocked (l_tx l)"
  shows "link_inv (l\<lparr>l_tx := snd (send_end (l_tx l))\<rparr>)"
proof (cases "c_dead (l_tx l)")
  case True
  then show ?thesis using link_inv_dead_tx [OF inv, of "snd (send_end (l_tx l))"] link_invD(3) [OF inv]
    by (simp add: send_end_def)
next
  case False
  let ?w = "c_wpdu (l_tx l)"
  have w: "wpdu_ok ?w" by (rule link_invD(4) [OF inv False])
  have "pend ?w = []"
  proof (cases "cb_buf ?w")
    case (Some p)
    then have "cb_solong ?w = int (length p)" "pdu_ok p"
      using w b False by (auto simp: wpdu_ok_def send_blocked_def)
    then show ?thesis using Some by (simp add: pend_def)
  qed (simp add: pend_def)
  then have "link_inv (l\<lparr>l_tx := snd (send_end (l_tx l)), l_wire := l_wire l @ []\<rparr>)"
    by (intro link_inv_write [OF inv False])
       (use False link_invD(8) [OF inv False] in \<open>simp_all add: send_end_def charbuf_new_def wpdu_ok_def pend_def\<close>)
  then show ?thesis by simp
qed

lemma Turn_inv:
  assumes inv: "link_inv l" and tx: "c_dead (l_tx l) \<or> cb_buf (c_wpdu (l_tx l)) = None" and b: "pdu_ok b"
  shows "\<exists>r out c. send_turn b io (l_tx l) = Some (r, out, c) \<and>
    link_inv (l\<lparr>l_tx := c, l_wire := l_wire l @ out,
                l_sent := (if c_dead (l_tx l) then l_sent l else l_sent l @ [b])\<rparr>)"
proof (cases "c_dead (l_tx l)")
  case True
  then show ?thesis
    using link_inv_dead_tx [OF inv, of "(l_tx l)\<lparr>c_waiters := c_waiters (l_tx l) - 1\<rparr>"] link_invD(3) [OF inv]
    by (simp add: send_turn_def)
next
  case False
  let ?w = "\<lparr>cb_buf = Some b, cb_sz = int (length b), cb_solong = 0\<rparr>"
  let ?c = "(l_tx l)\<lparr>c_waiters := c_waiters (l_tx l) - 1, c_wpdu := ?w\<rparr>"
  let ?l = "l\<lparr>l_tx := ?c, l_sent := l_sent l @ [b]\<rparr>"
  have L: "link_inv ?l" using link_inv_load [OF inv False _ b] tx False by simp
  have "wpdu_ok (c_wpdu ?c)" using b by (simp add: wpdu_ok_def)
  then obtain good out w where p: "writepdu io ?c = Some (good, out, ?c\<lparr>c_wpdu := w\<rparr>)"
    and g: "if good then out @ pend w = pend ?w \<and> wpdu_ok w \<and> cb_buf w \<noteq> None else out = []"
    using writepdu_spec [of ?c b io] by auto
  let ?c2 = "?c\<lparr>c_wpdu := w\<rparr>"
  show ?thesis
  proof (cases good)
    case bad: False
    let ?c3 = "?c2\<lparr>c_dead := True, c_removing := True\<rparr>"
    have d: "link_inv (?l\<lparr>l_tx := ?c3\<rparr>)" by (rule link_inv_dead_tx [OF L]) simp_all
    show ?thesis using p g bad False
      by (simp add: send_turn_def) (rule link_inv_same [OF d]; simp)
  next
    case True
    then have w: "wpdu_ok w" "out @ pend w = pend ?w" using g by simp_all
    have any: "link_inv (?l\<lparr>l_tx := c, l_wire := l_wire ?l @ out\<rparr>)" if "\<not> c_dead c" "\<not> c_removing c" "c_wpdu c = w" for c
      by (rule link_inv_write [OF L]) (use False that w in simp_all)
    note nr = link_invD(8) [OF inv False]
    show ?thesis
    proof (cases "cb_solong w = cb_sz w")
      case c: True
      have d: "link_inv ((?l\<lparr>l_tx := ?c2, l_wire := l_wire ?l @ out\<rparr>)\<lparr>l_tx := snd (send_end ?c2)\<rparr>)"
        using Complete_inv [OF any [of ?c2]] c False nr by (simp add: send_blocked_def)
      show ?thesis using p True c False
        by (simp add: send_turn_def send_end_def) (rule link_inv_same [OF d]; simp add: send_end_def)
    next
      case c: False
      have d: "link_inv (?l\<lparr>l_tx := ?c2\<lparr>c_wr := True\<rparr>, l_wire := l_wire ?l @ out\<rparr>)"
        by (rule any) (use False nr in simp_all)
      show ?thesis using p True c False by (simp add: send_turn_def) (rule link_inv_same [OF d]; simp)
    qed
  qed
qed

lemma Writable_inv:
  assumes inv: "link_inv l" and alive: "\<not> c_dead (l_tx l)"
  shows "\<exists>out c. write_cb io (l_tx l) = Some (out, c) \<and> link_inv (l\<lparr>l_tx := c, l_wire := l_wire l @ out\<rparr>)"
proof -
  let ?c = "l_tx l"
  note nr = link_invD(8) [OF inv alive]
  have w: "wpdu_ok (c_wpdu ?c)" by (rule link_invD(4) [OF inv alive])
  show ?thesis
  proof (cases "cb_buf (c_wpdu ?c)")
    case None
    then have "write_cb io ?c = Some ([], ?c\<lparr>c_wr := False\<rparr>)" using w alive by (simp add: write_cb_def wpdu_ok_def)
    then show ?thesis using link_inv_write [OF inv alive, of "?c\<lparr>c_wr := False\<rparr>" "[]"] alive w nr by simp
  next
    case (Some b)
    have sz: "cb_sz (c_wpdu ?c) \<noteq> 0" using w Some by (auto simp: wpdu_ok_def pdu_ok_def)
    obtain good out v where p: "writepdu io ?c = Some (good, out, ?c\<lparr>c_wpdu := v\<rparr>)"
      and g: "if good then out @ pend v = pend (c_wpdu ?c) \<and> wpdu_ok v \<and> cb_buf v \<noteq> None else out = []"
      using writepdu_spec [OF w Some, of io] by auto
    show ?thesis
    proof (cases good)
      case True
      then have "0 \<le> cb_solong v" using g by (auto simp: wpdu_ok_def split: option.splits)
      then show ?thesis using True g p sz alive nr link_inv_write [OF inv alive, of "?c\<lparr>c_wpdu := v\<rparr>" out]
        by (simp add: write_cb_def)
    next
      case False
      then show ?thesis using g p sz alive
          link_inv_dead_tx [OF inv, of "?c\<lparr>c_wpdu := v, c_rd := False, c_wr := False, c_dead := True\<rparr>"]
        by (simp add: write_cb_def)
    qed
  qed
qed

lemma prefix_rest:
  assumes "prefix (l_recv l) (map frame (l_sent l))" "stream_ok l rest"
  shows "\<exists>bs. l_recv l @ map frame bs = map frame (l_sent l) \<and> set bs \<subseteq> set (l_sent l) \<and>
    rbuf (c_rpdu (l_rx l)) @ l_wire l @ rest = concat (map frame bs)"
proof -
  let ?k = "length (l_recv l)" and ?f = "map frame (l_sent l)"
  have r: "l_recv l = take ?k ?f" using assms(1) by (auto simp: prefix_def)
  let ?bs = "drop ?k (l_sent l)"
  have e: "l_recv l @ map frame ?bs = ?f" by (subst r) (simp only: drop_map [symmetric] append_take_drop_id)
  then have "concat (l_recv l) @ concat (map frame ?bs) = concat ?f" by (metis concat_append)
  then have "rbuf (c_rpdu (l_rx l)) @ l_wire l @ rest = concat (map frame ?bs)"
    using assms(2) unfolding stream_ok_def by (metis same_append_eq)
  then show ?thesis using e set_drop_subset [of ?k "l_sent l"] by blast
qed

lemma whole_packet:
  assumes r: "rpdu_ok r" "cb_buf r = Some p" "cb_sz r = cb_solong r"
    and str: "p @ t = concat (map frame bs)" and bs: "\<forall>b\<in>set bs. pdu_ok b"
  shows "\<exists>b bs'. bs = b # bs' \<and> p = frame b"
proof -
  have p: "4 \<le> length p" "int (length p) = sint (ntohl (take 4 p))" using r by (simp_all add: rpdu_ok_def)
  obtain b bs' where b: "bs = b # bs'" "pdu_ok b" "take 4 p = take 4 (frame b)"
    using header_of_stream [OF str bs p(1)] by blast
  have l: "length p = length (frame b)" using p(2) frame_size [OF b(2)] b(2,3) by simp
  have "p @ t = frame b @ concat (map frame bs')" using str b(1) by simp
  then show ?thesis using l b(1) by (simp add: append_eq_append_conv)
qed

lemma read_part:
  assumes ok: "rpdu_ok (c_rpdu c)" and str: "rbuf (c_rpdu c) @ s @ rest = concat (map frame bs)"
    and bs: "\<forall>b\<in>set bs. pdu_ok b" and r1: "r1 \<noteq> RAgain"
  shows "\<exists>good s' r'. (if cb_buf (c_rpdu c) = None \<or> cb_solong (c_rpdu c) < cb_sz (c_rpdu c)
      then readpdu r1 r2 s c else Some (True, s, c)) = Some (good, s', c\<lparr>c_rpdu := r'\<rparr>) \<and>
    (if good then rpdu_ok r' \<and> rbuf r' @ s' = rbuf (c_rpdu c) @ s else cb_buf r' = None)"
proof (cases "cb_buf (c_rpdu c) = None \<or> cb_solong (c_rpdu c) < cb_sz (c_rpdu c)")
  case True
  then show ?thesis unfolding if_P [OF True] by (intro readpdu_spec [OF assms])
next
  case False
  then show ?thesis unfolding if_not_P [OF False] using ok
    by (intro exI [of _ True] exI [of _ s] exI [of _ "c_rpdu c"]) simp
qed

definition received_by :: "link \<Rightarrow> connection \<Rightarrow> string \<Rightarrow> string option \<Rightarrow> link" where
  "received_by l c s p =
     l\<lparr>l_rx := c, l_wire := s, l_recv := (case p of None \<Rightarrow> l_recv l | Some b \<Rightarrow> l_recv l @ [b])\<rparr>"

lemma link_inv_received:
  assumes inv: "link_inv l" and p: "prefix (l_recv (received_by l c s p)) (map frame (l_sent l))"
    and str: "\<not> c_dead c \<Longrightarrow> rpdu_ok (c_rpdu c) \<and> (\<forall>rest. stream_ok l rest \<longrightarrow> stream_ok (received_by l c s p) rest)"
    and d: "\<not> c_dead (l_rx l)"
  shows "link_inv (received_by l c s p)"
proof -
  have f: "l_sent (received_by l c s p) = l_sent l" "l_tx (received_by l c s p) = l_tx l" "l_rx (received_by l c s p) = c"
    by (simp_all add: received_by_def)
  show ?thesis using link_invD [OF inv] p str d unfolding link_inv_def f by (simp split: if_splits) blast
qed

lemma Readable_inv:
  assumes inv: "link_inv l" and r1: "r1 \<noteq> RAgain"
  shows "\<exists>p s c. read_cb accept r1 r2 (l_wire l) (l_rx l) = Some (p, s, c) \<and> link_inv (received_by l c s p)"
proof (cases "c_dead (l_rx l)")
  case True
  then have "read_cb accept r1 r2 (l_wire l) (l_rx l) = Some (None, l_wire l, l_rx l)" by (simp add: read_cb_def)
  then show ?thesis using inv by (simp add: received_by_def)
next
  case alive: False
  let ?c = "l_rx l"
  note I = link_invD [OF inv]
  obtain rest where st: "stream_ok l rest" using I(6) alive by blast
  obtain bs where bs: "l_recv l @ map frame bs = map frame (l_sent l)" "\<forall>b\<in>set bs. pdu_ok b"
    "rbuf (c_rpdu ?c) @ l_wire l @ rest = concat (map frame bs)"
    using prefix_rest [OF I(2) st] I(1) by blast
  obtain good s r where rd: "(if cb_buf (c_rpdu ?c) = None \<or> cb_solong (c_rpdu ?c) < cb_sz (c_rpdu ?c)
      then readpdu r1 r2 (l_wire l) ?c else Some (True, l_wire l, ?c)) = Some (good, s, ?c\<lparr>c_rpdu := r\<rparr>)"
    and g: "if good then rpdu_ok r \<and> rbuf r @ s = rbuf (c_rpdu ?c) @ l_wire l else cb_buf r = None"
    using read_part [OF I(5) [OF alive] bs(3,2) r1, of r2] by blast
  let ?deliver = "cb_buf r \<noteq> None \<and> cb_sz r = cb_solong r \<and> accept"
  show ?thesis
  proof (cases good)
    case bad: False
    let ?d = "?c\<lparr>c_rpdu := r, c_rd := False, c_wr := False, c_dead := True\<rparr>"
    have "read_cb accept r1 r2 (l_wire l) ?c = Some (None, s, ?d)"
      using alive g bad unfolding read_cb_def rd by simp
    moreover have "link_inv (received_by l ?d s None)"
      by (rule link_inv_received [OF inv]) (use I(2) alive in \<open>simp_all add: received_by_def\<close>)
    ultimately show ?thesis by blast
  next
    case True
    then have r: "rpdu_ok r" "rbuf r @ s = rbuf (c_rpdu ?c) @ l_wire l" using g by simp_all
    have move: "concat (l_recv l) @ rbuf r @ s @ t = concat (map frame (l_sent l))" if "stream_ok l t" for t
      using that r(2) unfolding stream_ok_def by (metis append_assoc)
    show ?thesis
    proof (cases ?deliver)
      case False
      have "read_cb accept r1 r2 (l_wire l) ?c = Some (None, s, ?c\<lparr>c_rpdu := r\<rparr>)"
        using alive True False unfolding read_cb_def rd by auto
      moreover have "link_inv (received_by l (?c\<lparr>c_rpdu := r\<rparr>) s None)"
        by (rule link_inv_received [OF inv]) (use I(2) alive r(1) move in \<open>simp_all add: received_by_def stream_ok_def\<close>)
      ultimately show ?thesis by blast
    next
      case deliver: True
      then obtain p where p: "cb_buf r = Some p" "cb_sz r = cb_solong r" by blast
      have "rbuf r = p" using p(1) by (simp add: rbuf_def)
      then have "p @ s @ rest = concat (map frame bs)" using r(2) bs(3) by (metis append_assoc)
      then obtain b bs' where b: "bs = b # bs'" "p = frame b" using whole_packet [OF r(1) p _ bs(2)] by blast
      have "read_cb accept r1 r2 (l_wire l) ?c = Some (Some p, s, ?c\<lparr>c_rpdu := charbuf_new\<rparr>)"
        using alive True deliver p(1) unfolding read_cb_def rd by simp
      moreover have "prefix (l_recv l @ [p]) (map frame (l_sent l))" using bs(1) b by (intro prefixI [of _ _ "map frame bs'"]) simp
      then have "link_inv (received_by l (?c\<lparr>c_rpdu := charbuf_new\<rparr>) s (Some p))"
        by (intro link_inv_received [OF inv])
           (use alive move p(1) in \<open>simp_all add: received_by_def stream_ok_def rbuf_def [of r]\<close>)
      ultimately show ?thesis by blast
    qed
  qed
qed

definition link_ev_ok :: "link_ev \<Rightarrow> bool" where
  "link_ev_ok e = (case e of Turn b io \<Rightarrow> pdu_ok b | Readable a r1 r2 \<Rightarrow> r1 \<noteq> RAgain | _ \<Rightarrow> True)"

lemma link_step_inv:
  assumes inv: "link_inv l" and e: "link_ev_ok e"
  shows "(\<exists>l'. link_step e l = Some l' \<and> link_inv l') \<or>
    (\<exists>io. e = Writable io \<and> c_dead (l_tx l) \<and> c_wr (l_tx l) \<and> c_removing (l_tx l))"
proof (cases e)
  case Enter
  have "link_inv (l\<lparr>l_tx := send_enter (l_tx l)\<rparr>)"
    using inv by (simp add: link_inv_def send_enter_def)
  then show ?thesis using Enter by simp
next
  case (Turn b io)
  then show ?thesis using inv Turn_inv [OF inv _ , of b io] e by (auto simp: link_ev_ok_def)
next
  case Complete
  then show ?thesis using inv Complete_inv [OF inv] by simp
next
  case (Writable io)
  show ?thesis
  proof (cases "c_wr (l_tx l) \<and> c_dead (l_tx l)")
    case True
    then show ?thesis using Writable link_invD(3) [OF inv] by blast
  next
    case False
    then show ?thesis using Writable inv Writable_inv [OF inv, of io] by auto
  qed
next
  case (Readable a r1 r2)
  then show ?thesis using inv Readable_inv [OF inv, of r1 a r2] e
    by (auto simp: link_ev_ok_def received_by_def)
next
  case Close_tx
  have "c_dead (close_connection (l_tx l))" "c_wr (close_connection (l_tx l)) \<longrightarrow> c_removing (close_connection (l_tx l))"
    using link_invD(3) [OF inv] by (simp_all add: close_connection_def)
  then show ?thesis using link_inv_dead_tx [OF inv] Close_tx by simp
next
  case Close_rx
  have "link_inv (l\<lparr>l_rx := close_connection (l_rx l)\<rparr>)"
    using inv by (simp add: link_inv_def close_connection_def)
  then show ?thesis using Close_rx by simp
next
  case Removed_tx
  have "link_inv (l\<lparr>l_tx := block_remove_fd (l_tx l)\<rparr>)"
    using inv by (auto simp: link_inv_def block_remove_fd_def split: if_splits)
  then show ?thesis using Removed_tx by simp
next
  case Removed_rx
  have stream: "stream_ok (l\<lparr>l_rx := (l_rx l)\<lparr>c_rd := False, c_wr := False, c_removing := False\<rparr>\<rparr>) = stream_ok l"
    by (simp add: fun_eq_iff stream_ok_def)
  have "link_inv (l\<lparr>l_rx := block_remove_fd (l_rx l)\<rparr>)"
    using inv stream by (simp add: link_inv_def block_remove_fd_def)
  then show ?thesis using Removed_rx by simp
qed

text \<open>The runs that end in a failed assertion.\<close>

definition closing_write :: "link_ev list \<Rightarrow> link \<Rightarrow> bool" where
  "closing_write es l \<longleftrightarrow>
     (\<exists>es1 io es2 l1. es = es1 @ Writable io # es2 \<and> link_run es1 l = Some l1 \<and>
        c_dead (l_tx l1) \<and> c_wr (l_tx l1) \<and> c_removing (l_tx l1))"

lemma closing_write_Cons: "link_step e l = Some l1 \<Longrightarrow> closing_write es l1 \<Longrightarrow> closing_write (e # es) l"
  unfolding closing_write_def by (metis append_Cons link_run.simps(2) bind.bind_lunit)

lemma link_run_inv:
  "link_inv l \<Longrightarrow> \<forall>e\<in>set es. link_ev_ok e \<Longrightarrow> (\<exists>l'. link_run es l = Some l' \<and> link_inv l') \<or> closing_write es l"
proof (induction es arbitrary: l)
  case (Cons e es)
  consider (ok) l1 where "link_step e l = Some l1" "link_inv l1"
    | (bad) io where "e = Writable io" "c_dead (l_tx l)" "c_wr (l_tx l)" "c_removing (l_tx l)"
    using link_step_inv [OF Cons.prems(1), of e] Cons.prems(2) by auto
  then show ?case
  proof cases
    case ok
    then show ?thesis using Cons.IH [of l1] Cons.prems(2) closing_write_Cons [OF ok(1)] by auto
  next
    case bad
    then have "closing_write (e # es) l"
      unfolding closing_write_def by (intro exI [of _ "[]"] exI [of _ io] exI [of _ es] exI [of _ l]) simp
    then show ?thesis ..
  qed
qed simp

lemma closing_write_fails: "closing_write es l \<Longrightarrow> link_run es l = None"
proof -
  assume "closing_write es l"
  then obtain es1 io es2 l1 where h: "es = es1 @ Writable io # es2" "link_run es1 l = Some l1"
    "c_dead (l_tx l1)" "c_wr (l_tx l1)"
    unfolding closing_write_def by blast
  have "link_run (xs @ ys) a = link_run xs a \<bind> link_run ys" for xs ys a
  proof (induction xs arbitrary: a)
    case (Cons x xs)
    then show ?case by (cases "link_step x a") simp_all
  qed simp
  then show ?thesis using h by (simp add: write_cb_def)
qed

lemma link_new_inv: "link_inv link_new"
  by (simp add: link_inv_def link_new_def connection_new_def stream_ok_def charbuf_new_def
      wpdu_ok_def rpdu_ok_def pend_def rbuf_def)

lemma link_idle:
  assumes inv: "link_inv l" and a: "\<not> c_dead (l_tx l)" "\<not> c_dead (l_rx l)"
    and e: "l_wire l = []" "cb_buf (c_wpdu (l_tx l)) = None" "cb_buf (c_rpdu (l_rx l)) = None"
  shows "l_recv l = map frame (l_sent l)"
proof -
  have "stream_ok l []" using link_invD(7) [OF inv a(2,1)] e(2) by (simp add: pend_def)
  from prefix_rest [OF link_invD(2) [OF inv] this]
  obtain bs where bs: "l_recv l @ map frame bs = map frame (l_sent l)" "set bs \<subseteq> set (l_sent l)"
    "rbuf (c_rpdu (l_rx l)) @ l_wire l @ [] = concat (map frame bs)" by blast
  have "frame b \<noteq> []" for b by (simp add: frame_def be32_def)
  moreover have "concat (map frame bs) = []" using bs(3) e(1,3) by (simp add: rbuf_def)
  ultimately have "bs = []" by (cases bs) simp_all
  then show ?thesis using bs(1) by simp
qed

text \<open>
  C40. A connection preserves packets. Whatever the sizes of the partial writes and reads, whichever
  fail, and whenever either end closes, the reader hands up a prefix of the packets that were sent,
  whole and in order; when both ends are alive and nothing is buffered or in flight, every packet sent
  has been handed up. A run ends in a failed assertion exactly when a write callback comes after
  the sender was marked dead by \<^verbatim>\<open>closeconn\<close> or by a failed write in \<^verbatim>\<open>send\<close> and before \<^verbatim>\<open>block_remove_fd\<close>
  returned: then it is the \<^verbatim>\<open>assert(!dead_)\<close> of \<^verbatim>\<open>write_cb\<close>. The packets are longer than their length word and
  at most \<^const>\<open>MAX_PDU\<close>, and the poll manager calls the reader only when there is something to read.
\<close>

theorem packets_in_order:
  assumes "\<forall>e\<in>set es. link_ev_ok e"
  shows "case link_run es link_new of
           None \<Rightarrow> closing_write es link_new
         | Some l \<Rightarrow> \<not> closing_write es link_new \<and> prefix (l_recv l) (map frame (l_sent l)) \<and>
             (\<not> c_dead (l_tx l) \<and> \<not> c_dead (l_rx l) \<and> l_wire l = [] \<and> cb_buf (c_wpdu (l_tx l)) = None \<and>
                cb_buf (c_rpdu (l_rx l)) = None \<longrightarrow> l_recv l = map frame (l_sent l))"
proof (cases "closing_write es link_new")
  case True
  then show ?thesis using closing_write_fails [OF True] by simp
next
  case False
  then obtain l where l: "link_run es link_new = Some l" "link_inv l"
    using link_run_inv [OF link_new_inv assms] by blast
  have "l_recv l = map frame (l_sent l)" if "\<not> c_dead (l_tx l) \<and> \<not> c_dead (l_rx l) \<and> l_wire l = [] \<and>
      cb_buf (c_wpdu (l_tx l)) = None \<and> cb_buf (c_rpdu (l_rx l)) = None"
    using that by (elim conjE) (rule link_idle [OF l(2)])
  then show ?thesis using l(1) link_invD(2) [OF l(2)] False by simp
qed

definition demo_link_events :: "link_ev list" where
  "demo_link_events =
     [Enter, Turn ''....hello'' (Wrote 3), Enter, Writable WAgain, Writable (Wrote 2),
      Readable True (Bytes 9) RAgain, Writable (Wrote 9), Complete, Turn ''....x'' (Wrote 7),
      Readable True (Bytes 9) (Bytes 2), Readable True RErr (Bytes 9), Readable True (Bytes 4) (Bytes 1)]"

definition demo_link :: link where
  "demo_link = the (link_run demo_link_events link_new)"

lemma demo_link_run:
  "link_run demo_link_events link_new = Some demo_link \<and> l_wire demo_link = [] \<and> length (l_recv demo_link) = 2"
  by code_simp

lemma demo_link_idle:
  "\<not> c_dead (l_tx demo_link) \<and> \<not> c_dead (l_rx demo_link) \<and> cb_buf (c_wpdu (l_tx demo_link)) = None \<and>
   cb_buf (c_rpdu (l_rx demo_link)) = None"
  by code_simp

definition demo_closing :: "link_ev list" where
  "demo_closing = [Enter, Turn ''....hello'' (Wrote 3), Close_tx, Writable (Wrote 2)]"

lemma demo_closing_run: "link_run demo_closing link_new = None"
  by code_simp

theorem packets_in_order_witness:
  "l_recv demo_link = map frame (l_sent demo_link) \<and> length (l_recv demo_link) = 2 \<and> closing_write demo_closing link_new"
proof -
  have "\<forall>e\<in>set demo_link_events. link_ev_ok e" "\<forall>e\<in>set demo_closing. link_ev_ok e"
    by (simp_all add: demo_link_events_def demo_closing_def link_ev_ok_def pdu_ok_def MAX_PDU_eq)
  then show ?thesis
    using packets_in_order [of demo_link_events] packets_in_order [of demo_closing] demo_link_run demo_link_idle demo_closing_run
    by auto
qed

end
