(* ===== verification/Thr_Pool.thy ===== *)
theory Thr_Pool
  imports Prelude
begin

text \<open>
  \<^verbatim>\<open>fifo.h\<close>, \<^verbatim>\<open>thr_pool.h\<close> and \<^verbatim>\<open>thr_pool.cc\<close>: the bounded queue and the pool of worker threads that takes its
  jobs from it. A thread that waits on a condition variable does not get past the operation, which is
  \<^const>\<open>None\<close>. The lemmas show that jobs are taken in the order in which they were accepted, and that the
  pool runs every job before the pills that end its workers.
\<close>

section \<open>The queue\<close>

record 'a fifo =
  f_q :: "'a list"
  f_max :: nat

definition fifo_new :: "nat \<Rightarrow> 'a fifo" where
  "fifo_new limit = \<lparr>f_q = [], f_max = limit\<rparr>"

definition fifo_size :: "'a fifo \<Rightarrow> bool" where
  "fifo_size f \<longleftrightarrow> length (f_q f) \<noteq> 0"

definition enq :: "'a \<Rightarrow> bool \<Rightarrow> 'a fifo \<Rightarrow> (bool \<times> 'a fifo) option" where
  "enq e blocking f =
     (if f_max f = 0 \<or> length (f_q f) < f_max f then Some (True, f\<lparr>f_q := f_q f @ [e]\<rparr>)
      else if blocking then None
      else Some (False, f))"

definition deq :: "'a fifo \<Rightarrow> ('a \<times> 'a fifo) option" where
  "deq f = (case f_q f of [] \<Rightarrow> None | e # es \<Rightarrow> Some (e, f\<lparr>f_q := es\<rparr>))"

section \<open>The interface the pool uses\<close>

text \<open>A queue with the sequence of its elements: putting appends, taking removes the first.\<close>

locale job_queue =
  fixes put :: "'a \<Rightarrow> bool \<Rightarrow> 'q \<Rightarrow> (bool \<times> 'q) option"
    and take_one :: "'q \<Rightarrow> ('a \<times> 'q) option"
    and elems :: "'q \<Rightarrow> 'a list"
  assumes put_elems: "put e b q = Some (r, q') \<Longrightarrow> elems q' = (if r then elems q @ [e] else elems q)"
    and take_elems: "take_one q = Some (e, q') \<Longrightarrow> elems q = e # elems q'"
begin

text \<open>\<open>put_all\<close> offers a list of elements; those accepted are returned. \<open>take_all\<close> takes \<open>n\<close> elements.\<close>

fun put_all :: "bool \<Rightarrow> 'a list \<Rightarrow> 'q \<Rightarrow> ('a list \<times> 'q) option" where
  "put_all b [] q = Some ([], q)"
| "put_all b (e # es) q =
     (case put e b q of
        None \<Rightarrow> None
      | Some (r, q1) \<Rightarrow>
          (case put_all b es q1 of
             None \<Rightarrow> None
           | Some (acc, q2) \<Rightarrow> Some (if r then e # acc else acc, q2)))"

fun take_all :: "nat \<Rightarrow> 'q \<Rightarrow> ('a list \<times> 'q) option" where
  "take_all 0 q = Some ([], q)"
| "take_all (Suc n) q =
     (case take_one q of
        None \<Rightarrow> None
      | Some (e, q1) \<Rightarrow> (case take_all n q1 of None \<Rightarrow> None | Some (es, q2) \<Rightarrow> Some (e # es, q2)))"

lemma put_all_elems: "put_all b es q = Some (acc, q') \<Longrightarrow> elems q' = elems q @ acc"
proof (induction es arbitrary: q acc)
  case (Cons e es)
  then show ?case by (auto split: option.splits prod.splits if_splits dest!: put_elems)
qed simp

lemma take_all_elems: "take_all n q = Some (es, q') \<Longrightarrow> elems q = es @ elems q' \<and> length es = n"
proof (induction n arbitrary: q es)
  case (Suc n)
  then show ?case by (fastforce split: option.splits prod.splits dest!: take_elems)
qed simp

text \<open>What is put into an empty queue comes out in the same order.\<close>

lemma first_in_first_out:
  assumes "put_all b es q = Some (acc, q1)" "elems q = []" "take_all n q1 = Some (out, q2)"
  shows "out = take n acc"
  using put_all_elems [OF assms(1)] take_all_elems [OF assms(3)] assms(2) by (metis append_Nil append_eq_conv_conj)

end

interpretation fq: job_queue enq deq f_q
  by unfold_locales (auto simp: enq_def deq_def split: if_splits list.splits)

section \<open>The pool\<close>

text \<open>A job is a function with its argument, here the value \<open>'j\<close>; \<^const>\<open>None\<close> is the null function.\<close>

record 'j thr_pool =
  tp_nthreads :: nat
  tp_blockadd :: bool
  tp_jobq :: "'j option fifo"

definition thr_pool_new :: "nat \<Rightarrow> bool \<Rightarrow> 'j thr_pool" where
  "thr_pool_new sz blocking = \<lparr>tp_nthreads = sz, tp_blockadd = blocking, tp_jobq = fifo_new (100 * sz)\<rparr>"

definition addJob :: "'j \<Rightarrow> 'j thr_pool \<Rightarrow> (bool \<times> 'j thr_pool) option" where
  "addJob j tp =
     (case enq (Some j) (tp_blockadd tp) (tp_jobq tp) of
        None \<Rightarrow> None
      | Some (r, q) \<Rightarrow> Some (r, tp\<lparr>tp_jobq := q\<rparr>))"

text \<open>The result is the job; a null job tells the worker to exit.\<close>

definition takeJob :: "'j thr_pool \<Rightarrow> ('j option \<times> 'j thr_pool) option" where
  "takeJob tp = (case deq (tp_jobq tp) of None \<Rightarrow> None | Some (j, q) \<Rightarrow> Some (j, tp\<lparr>tp_jobq := q\<rparr>))"

text \<open>The pills of the destructor; it then joins the workers.\<close>

fun add_pills :: "nat \<Rightarrow> 'j thr_pool \<Rightarrow> 'j thr_pool option" where
  "add_pills 0 tp = Some tp"
| "add_pills (Suc n) tp =
     (case enq None True (tp_jobq tp) of None \<Rightarrow> None | Some (r, q) \<Rightarrow> add_pills n (tp\<lparr>tp_jobq := q\<rparr>))"

text \<open>One worker that runs until its pill: the jobs it ran.\<close>

fun do_worker :: "nat \<Rightarrow> 'j thr_pool \<Rightarrow> ('j list \<times> 'j thr_pool) option" where
  "do_worker 0 tp = None"
| "do_worker (Suc n) tp =
     (case takeJob tp of
        None \<Rightarrow> None
      | Some (None, tp1) \<Rightarrow> Some ([], tp1)
      | Some (Some j, tp1) \<Rightarrow> (case do_worker n tp1 of None \<Rightarrow> None | Some (js, tp2) \<Rightarrow> Some (j # js, tp2)))"

lemma add_pills_queue: "add_pills n tp = Some tp' \<Longrightarrow> f_q (tp_jobq tp') = f_q (tp_jobq tp) @ replicate n None"
proof (induction n arbitrary: tp)
  case (Suc n)
  then obtain r q where e: "enq None True (tp_jobq tp) = Some (r, q)" "add_pills n (tp\<lparr>tp_jobq := q\<rparr>) = Some tp'"
    by (auto split: option.splits)
  have "r" using e(1) by (simp add: enq_def split: if_splits)
  then have "f_q q = f_q (tp_jobq tp) @ [None]" using fq.put_elems [OF e(1)] by simp
  then show ?case using Suc.IH [OF e(2)] by (simp flip: replicate_append_same)
qed simp

text \<open>With enough steps a worker runs all queued jobs, in order, before it takes its pill.\<close>

lemma worker_runs_all:
  assumes "f_q (tp_jobq tp) = map Some js @ None # rest" "length js < n"
  shows "\<exists>tp'. do_worker n tp = Some (js, tp') \<and> f_q (tp_jobq tp') = rest"
  using assms
proof (induction js arbitrary: tp n)
  case Nil
  then show ?case by (cases n) (simp_all add: takeJob_def deq_def)
next
  case (Cons j js)
  obtain m where n: "n = Suc m" using Cons.prems(2) by (cases n) auto
  let ?tp = "tp\<lparr>tp_jobq := (tp_jobq tp)\<lparr>f_q := map Some js @ None # rest\<rparr>\<rparr>"
  have "takeJob tp = Some (Some j, ?tp)" using Cons.prems(1) by (simp add: takeJob_def deq_def)
  moreover obtain tp' where "do_worker m ?tp = Some (js, tp')" "f_q (tp_jobq tp') = rest"
    using Cons.IH [of ?tp m] Cons.prems(2) n by auto
  ultimately show ?case by (simp add: n)
qed

end
