(* ===== verification/Log.thy ===== *)
theory Log
  imports Protocols Stdcxx
begin

text \<open>
  The durable log of \<^verbatim>\<open>log.cc\<close>: a text file of records that the acceptor of \<^verbatim>\<open>paxos.cc\<close> appends to and
  reads when it starts or is restored. The log writes into the fields of the acceptor, so the record
  of the acceptor is declared here, with the content of its file and whether it has a \<^verbatim>\<open>cfg\<close> to inform. A failed assertion is \<^const>\<open>None\<close>;
  \<open>junk\<close> is the uninitialised \<^verbatim>\<open>instance\<close> of \<^verbatim>\<open>logread\<close>.
\<close>

section \<open>State\<close>

record acceptor =
  ac_me :: string
  ac_cfg :: bool
  n_h :: prop_t
  n_a :: prop_t
  v_a :: string
  instance_h :: u32
  vals :: "u32 \<rightharpoonup> string"
  logfile :: string

definition log_name :: "string \<Rightarrow> string" where
  "log_name me = ''paxos-'' @ me @ ''.log''"

section \<open>Reading\<close>

text \<open>The body of the loop for a record of the given type.\<close>

definition log_record :: "string \<Rightarrow> istream \<Rightarrow> u32 \<Rightarrow> acceptor \<Rightarrow> (istream \<times> u32 \<times> acceptor) option" where
  "log_record type ist inst a =
     (if type = ''done''
      then let (s1, inst1) = get_unsigned ist inst;
               s2 = get_char s1;
               (s3, v) = getline s2 ''''
           in Some (s3, inst1, a\<lparr>vals := (vals a)(inst1 \<mapsto> v), instance_h := inst1, v_a := '''',
                                 n_h := (n_h a)\<lparr>pn := 0\<rparr>, n_a := (n_a a)\<lparr>pn := 0\<rparr>\<rparr>)
      else if type = ''high''
      then let (s1, n) = get_unsigned ist (pn (n_h a));
               (s2, m) = get_token s1 (pm (n_h a))
           in Some (s2, inst, a\<lparr>n_h := \<lparr>pn = n, pm = m\<rparr>\<rparr>)
      else if type = ''prop''
      then let (s1, n) = get_unsigned ist (pn (n_a a));
               (s2, m) = get_token s1 (pm (n_a a));
               s3 = get_char s2;
               (s4, v) = getline s3 ''''
           in Some (s4, inst, a\<lparr>n_a := \<lparr>pn = n, pm = m\<rparr>, v_a := v\<rparr>)
      else None)"

lemma get_char_le: "length (is_buf (get_char s)) \<le> length (is_buf s)"
  by (auto simp: get_char_def split: list.splits)

lemma getline_le: "length (is_buf (fst (getline s old))) \<le> length (is_buf s)"
  using length_dropWhile_le [of "\<lambda>c. c \<noteq> newline" "is_buf s"] by (auto simp: getline_def)

lemma getline_consumes: "getline s old = (s', l) \<Longrightarrow> \<not> is_fail s' \<Longrightarrow> length (is_buf s') < length (is_buf s)"
  using length_dropWhile_le [of "\<lambda>c. c \<noteq> newline" "is_buf s"]
  by (cases "is_buf s") (auto simp: getline_def split: if_splits)

lemma log_record_le:
  assumes "log_record type ist inst a = Some (ist', inst', a')"
  shows "length (is_buf ist') \<le> length (is_buf ist)"
proof -
  obtain s1 i1 where u1: "get_unsigned ist inst = (s1, i1)" by fastforce
  obtain s2 v2 where l2: "getline (get_char s1) '''' = (s2, v2)" by fastforce
  obtain s3 i3 where u3: "get_unsigned ist (pn (n_h a)) = (s3, i3)" by fastforce
  obtain s4 m4 where t4: "get_token s3 (pm (n_h a)) = (s4, m4)" by fastforce
  obtain s5 i5 where u5: "get_unsigned ist (pn (n_a a)) = (s5, i5)" by fastforce
  obtain s6 m6 where t6: "get_token s5 (pm (n_a a)) = (s6, m6)" by fastforce
  obtain s7 v7 where l7: "getline (get_char s6) '''' = (s7, v7)" by fastforce
  have "length (is_buf s2) \<le> length (is_buf ist)" "length (is_buf s4) \<le> length (is_buf ist)"
    "length (is_buf s7) \<le> length (is_buf ist)"
    using get_unsigned_le [of ist inst] getline_le [of "get_char s1" "''''"] get_char_le [of s1] get_unsigned_le [of ist "pn (n_h a)"]
      get_token_le [of s3 "pm (n_h a)"] get_unsigned_le [of ist "pn (n_a a)"] get_token_le [of s5 "pm (n_a a)"] get_char_le [of s6]
      getline_le [of "get_char s6" "''''"]
    by (simp_all add: u1 l2 u3 t4 u5 t6 l7)
  then show ?thesis using assms by (auto simp: log_record_def u1 l2 u3 t4 u5 t6 l7 split: if_splits)
qed

function logread_loop :: "istream \<Rightarrow> u32 \<Rightarrow> acceptor \<Rightarrow> acceptor option" where
  "logread_loop ist inst a =
     (let (s1, type) = get_token ist '''' in
      if is_fail s1 then Some a
      else case log_record type s1 inst a of
             None \<Rightarrow> None
           | Some (s2, inst2, a2) \<Rightarrow> logread_loop s2 inst2 a2)"
  by pat_completeness auto
termination
proof (relation "measure (\<lambda>(s, i, a). length (is_buf s))")
  fix ist :: istream and inst inst2 :: u32 and a a2 :: acceptor and p :: "istream \<times> string" and s1 s2 type q r
  assume "p = get_token ist ''''" "(s1, type) = p" "\<not> is_fail s1" "log_record type s1 inst a = Some q" "(s2, r) = q" "(inst2, a2) = r"
  then show "((s2, inst2, a2), ist, inst, a) \<in> measure (\<lambda>(s, i, a). length (is_buf s))"
    using get_token_consumes [of ist "''''" s1 type] log_record_le [of type s1 inst a s2 inst2 a2] by auto
qed simp

declare logread_loop.simps [simp del]

definition logread :: "u32 \<Rightarrow> acceptor \<Rightarrow> acceptor option" where
  "logread junk a = logread_loop (istringstream (logfile a)) junk a"

function dump_loop :: "istream \<Rightarrow> string \<Rightarrow> string" where
  "dump_loop ist res =
     (let (s1, v) = getline ist '''' in
      if is_fail s1 then res else dump_loop s1 (res @ v @ [newline]))"
  by pat_completeness auto
termination
  by (relation "measure (\<lambda>(s, r). length (is_buf s))") (auto dest: getline_consumes [OF sym])

declare dump_loop.simps [simp del]

definition dump :: "acceptor \<Rightarrow> string" where
  "dump a = dump_loop (istringstream (logfile a)) ''''"

definition restore :: "string \<Rightarrow> acceptor \<Rightarrow> acceptor" where
  "restore s a = a\<lparr>logfile := s\<rparr>"

section \<open>Writing\<close>

definition loginstance :: "u32 \<Rightarrow> string \<Rightarrow> acceptor \<Rightarrow> acceptor" where
  "loginstance inst v a = a\<lparr>logfile := logfile a @ ''done'' @ '' '' @ show_word inst @ '' '' @ v @ [newline]\<rparr>"

definition loghigh :: "prop_t \<Rightarrow> acceptor \<Rightarrow> acceptor" where
  "loghigh n a = a\<lparr>logfile := logfile a @ ''high'' @ '' '' @ show_word (pn n) @ '' '' @ pm n @ [newline]\<rparr>"

definition logprop :: "prop_t \<Rightarrow> string \<Rightarrow> acceptor \<Rightarrow> acceptor" where
  "logprop n v a = a\<lparr>logfile := logfile a @ ''prop'' @ '' '' @ show_word (pn n) @ '' '' @ pm n @ '' '' @ v @ [newline]\<rparr>"

section \<open>Replay\<close>

text \<open>The records of a log, what appending one writes and what reading one does.\<close>

datatype log_rec = Done u32 string | High prop_t | Prop prop_t string

fun rec_text :: "log_rec \<Rightarrow> string" where
  "rec_text (Done i v) = ''done'' @ '' '' @ show_word i @ '' '' @ v @ [newline]"
| "rec_text (High n) = ''high'' @ '' '' @ show_word (pn n) @ '' '' @ pm n @ [newline]"
| "rec_text (Prop n v) = ''prop'' @ '' '' @ show_word (pn n) @ '' '' @ pm n @ '' '' @ v @ [newline]"

fun replay :: "log_rec \<Rightarrow> acceptor \<Rightarrow> acceptor" where
  "replay (Done i v) a = a\<lparr>vals := (vals a)(i \<mapsto> v), instance_h := i, v_a := '''',
                           n_h := (n_h a)\<lparr>pn := 0\<rparr>, n_a := (n_a a)\<lparr>pn := 0\<rparr>\<rparr>"
| "replay (High n) a = a\<lparr>n_h := n\<rparr>"
| "replay (Prop n v) a = a\<lparr>n_a := n, v_a := v\<rparr>"

fun rec_ok :: "log_rec \<Rightarrow> bool" where
  "rec_ok (Done i v) \<longleftrightarrow> newline \<notin> set v"
| "rec_ok (High n) \<longleftrightarrow> token (pm n)"
| "rec_ok (Prop n v) \<longleftrightarrow> token (pm n) \<and> newline \<notin> set v"

fun append_rec :: "log_rec \<Rightarrow> acceptor \<Rightarrow> acceptor" where
  "append_rec (Done i v) a = loginstance i v a"
| "append_rec (High n) a = loghigh n a"
| "append_rec (Prop n v) a = logprop n v a"

lemma append_rec_text: "append_rec r a = a\<lparr>logfile := logfile a @ rec_text r\<rparr>"
  by (cases r) (simp_all add: loginstance_def loghigh_def logprop_def)

lemma append_recs_text: "fold append_rec rs a = a\<lparr>logfile := logfile a @ concat (map rec_text rs)\<rparr>"
  by (induction rs arbitrary: a) (simp_all add: append_rec_text)

lemma newline_token: "token m \<Longrightarrow> newline \<notin> set m"
  by (auto simp: token_def)

lemma logread_skip:
  "isspace c \<Longrightarrow> logread_loop \<lparr>is_buf = c # s, is_fail = False\<rparr> i a = logread_loop \<lparr>is_buf = s, is_fail = False\<rparr> i a"
  by (subst (1 2) logread_loop.simps) (simp add: get_token_skip)

lemma rec_keywords: "token ''done''" "token ''high''" "token ''prop''"
  by (simp_all add: token_def isspace_def)

lemma space_not_digit [simp]: "\<not> isdigit CHR '' ''" "\<not> isdigit newline"
  by (simp_all add: isdigit_def)

lemma prop_t_eta [simp]: "\<lparr>pn = pn n, pm = pm n\<rparr> = n"
  by (cases n) simp

text \<open>Reading a record of the log continues with the rest of the file, up to leading white space.\<close>

lemma logread_record:
  assumes "rec_ok rc"
  shows "\<exists>i'. logread_loop \<lparr>is_buf = rec_text rc @ s, is_fail = False\<rparr> i a =
              logread_loop \<lparr>is_buf = s, is_fail = False\<rparr> i' (replay rc a)"
proof (cases rc)
  case (Done j v)
  have "get_token \<lparr>is_buf = ''done'' @ CHR '' '' # show_word j @ CHR '' '' # v @ newline # s, is_fail = False\<rparr> '''' =
      (\<lparr>is_buf = CHR '' '' # show_word j @ CHR '' '' # v @ newline # s, is_fail = False\<rparr>, ''done'')"
    by (rule get_token_token [OF rec_keywords(1)]) simp
  then show ?thesis using assms Done
    by (subst logread_loop.simps)
      (auto simp: log_record_def get_unsigned_skip get_unsigned_show_word getline_line)
next
  case (High n)
  have "get_token \<lparr>is_buf = ''high'' @ CHR '' '' # show_word (pn n) @ CHR '' '' # pm n @ newline # s, is_fail = False\<rparr> '''' =
      (\<lparr>is_buf = CHR '' '' # show_word (pn n) @ CHR '' '' # pm n @ newline # s, is_fail = False\<rparr>, ''high'')"
    by (rule get_token_token [OF rec_keywords(2)]) simp
  then show ?thesis using assms High
    by (subst logread_loop.simps)
      (auto simp: log_record_def get_unsigned_skip get_unsigned_show_word get_token_skip get_token_token logread_skip)
next
  case (Prop n v)
  have "get_token \<lparr>is_buf = ''prop'' @ CHR '' '' # show_word (pn n) @ CHR '' '' # pm n @ CHR '' '' # v @ newline # s, is_fail = False\<rparr> '''' =
      (\<lparr>is_buf = CHR '' '' # show_word (pn n) @ CHR '' '' # pm n @ CHR '' '' # v @ newline # s, is_fail = False\<rparr>, ''prop'')"
    by (rule get_token_token [OF rec_keywords(3)]) simp
  then show ?thesis using assms Prop
    by (subst logread_loop.simps)
      (auto simp: log_record_def get_unsigned_skip get_unsigned_show_word get_token_skip get_token_token getline_line)
qed

lemma logread_text:
  "list_all rec_ok rs \<Longrightarrow>
     logread_loop \<lparr>is_buf = concat (map rec_text rs), is_fail = False\<rparr> i a = Some (fold replay rs a)"
proof (induction rs arbitrary: i a)
  case Nil
  show ?case by (subst logread_loop.simps) (simp add: get_token_blank)
next
  case (Cons r rs)
  then show ?case using logread_record [of r "concat (map rec_text rs)" i a] by auto
qed

lemma dump_line:
  "newline \<notin> set l \<Longrightarrow> dump_loop \<lparr>is_buf = l @ newline # s, is_fail = False\<rparr> res =
     dump_loop \<lparr>is_buf = s, is_fail = False\<rparr> (res @ l @ [newline])"
  by (subst dump_loop.simps) (simp add: getline_line)

lemma newline_rec_keywords: "newline \<notin> set ''done ''" "newline \<notin> set ''high ''" "newline \<notin> set ''prop ''"
  by (simp_all add: char_of_def)

lemma rec_text_line:
  assumes "rec_ok r"
  shows "\<exists>l. rec_text r = l @ [newline] \<and> newline \<notin> set l"
proof -
  note nl = newline_rec_keywords newline_token [OF token_show_word]
  show ?thesis
  proof (cases r)
    case (Done i v)
    then show ?thesis using assms nl by (intro exI [of _ "''done '' @ show_word i @ '' '' @ v"]) simp
  next
    case (High n)
    then show ?thesis using assms nl newline_token by (intro exI [of _ "''high '' @ show_word (pn n) @ '' '' @ pm n"]) simp
  next
    case (Prop n v)
    then show ?thesis using assms nl newline_token
      by (intro exI [of _ "''prop '' @ show_word (pn n) @ '' '' @ pm n @ '' '' @ v"]) simp
  qed
qed

lemma dump_text:
  "list_all rec_ok rs \<Longrightarrow> dump_loop \<lparr>is_buf = concat (map rec_text rs), is_fail = False\<rparr> res = res @ concat (map rec_text rs)"
proof (induction rs arbitrary: res)
  case Nil
  show ?case by (subst dump_loop.simps) (simp add: getline_def)
next
  case (Cons r rs)
  then obtain l where l: "rec_text r = l @ [newline]" "newline \<notin> set l" using rec_text_line by auto
  then show ?case using Cons dump_line [of l "concat (map rec_text rs)" res] by simp
qed

text \<open>
  C10. Reading the log replays it: after any sequence of well-formed records was appended to an empty log,
  \<^verbatim>\<open>logread\<close> performs the effect of each record in turn; and a dump of the log restored at another
  node, which starts from its own state, is that log, and replays to the same effects there.
\<close>

theorem log_replay:
  assumes "list_all rec_ok rs" and "logfile a = ''''"
  shows "logread junk (fold append_rec rs a) = Some (fold replay rs (fold append_rec rs a)) \<and>
         dump (fold append_rec rs a) = logfile (fold append_rec rs a) \<and>
         logread junk (restore (dump (fold append_rec rs a)) b) =
           Some (fold replay rs (restore (dump (fold append_rec rs a)) b))"
  using assms logread_text [OF assms(1)] dump_text [OF assms(1), of "''''"]
  by (simp add: append_recs_text logread_def dump_def restore_def istringstream_def)

theorem log_replay_witness:
  "\<exists>a. logread 0 (fold append_rec [High \<lparr>pn = 1, pm = ''n1''\<rparr>, Prop \<lparr>pn = 1, pm = ''n1''\<rparr> ''n1 n2'', Done 1 ''n1 n2'']
     \<lparr>ac_me = ''n1'', ac_cfg = True, n_h = \<lparr>pn = 0, pm = ''n1''\<rparr>, n_a = \<lparr>pn = 0, pm = ''n1''\<rparr>, v_a = '''', instance_h = 0, vals = Map.empty,
      logfile = ''''\<rparr>) = Some a \<and> vals a = [1 \<mapsto> ''n1 n2''] \<and> instance_h a = 1"
proof -
  let ?a = "\<lparr>ac_me = ''n1'', ac_cfg = True, n_h = \<lparr>pn = 0, pm = ''n1''\<rparr>, n_a = \<lparr>pn = 0, pm = ''n1''\<rparr>, v_a = '''', instance_h = 0,
    vals = Map.empty, logfile = ''''\<rparr>"
  let ?rs = "[High \<lparr>pn = 1, pm = ''n1''\<rparr>, Prop \<lparr>pn = 1, pm = ''n1''\<rparr> ''n1 n2'', Done 1 ''n1 n2'']"
  have "list_all rec_ok ?rs" by (simp add: token_def isspace_def char_of_def)
  from log_replay [OF this, of ?a 0 ?a] show ?thesis
    by (auto simp: loghigh_def logprop_def loginstance_def)
qed

end
