(* ===== verification/Paxos.thy ===== *)
theory Paxos
  imports Log "HOL-Library.List_Lexorder" "HOL-Library.Char_ord"
begin

text \<open>
  The acceptor and the proposer of \<^verbatim>\<open>paxos.cc\<close>. The handlers of the acceptor are functions on its record.
  The proposer's \<^verbatim>\<open>run\<close> is cut at its remote calls, between which other proposers and acceptors may act:
  a round holds the local variables of \<^verbatim>\<open>run\<close>, \<^verbatim>\<open>prepare\<close>, \<^verbatim>\<open>accept\<close> and \<^verbatim>\<open>decide\<close>, and there is one
  function for the start, for the body of each loop after the reply to its call, and for the end
  of each loop. A call without a connection and a call that fails are the missing reply \<^const>\<open>None\<close>.
\<close>

section \<open>Proposal numbers and membership\<close>

definition prop_gt :: "prop_t \<Rightarrow> prop_t \<Rightarrow> bool" where
  "prop_gt a b \<longleftrightarrow> pn a > pn b \<or> pn a = pn b \<and> pm a > pm b"

definition prop_ge :: "prop_t \<Rightarrow> prop_t \<Rightarrow> bool" where
  "prop_ge a b \<longleftrightarrow> pn a > pn b \<or> pn a = pn b \<and> pm a \<ge> pm b"

fun print_members :: "string list \<Rightarrow> string" where
  "print_members [] = ''''"
| "print_members [m] = m"
| "print_members (m # ms) = m @ '','' @ print_members ms"

fun isamember :: "string \<Rightarrow> string list \<Rightarrow> bool" where
  "isamember m [] \<longleftrightarrow> False"
| "isamember m (x # xs) \<longleftrightarrow> (if x = m then True else isamember m xs)"

definition majority :: "string list \<Rightarrow> string list \<Rightarrow> bool" where
  "majority l1 l2 \<longleftrightarrow> length (filter (\<lambda>m. isamember m l2) l1) \<ge> length l1 div 2 + 1"

section \<open>Acceptor\<close>

text \<open>Reading \<^verbatim>\<open>values[i]\<close> inserts the empty string when there is none.\<close>

definition ac_value :: "u32 \<Rightarrow> acceptor \<Rightarrow> string \<times> acceptor" where
  "ac_value i a = (case vals a i of Some v \<Rightarrow> (v, a) | None \<Rightarrow> ('''', a\<lparr>vals := (vals a)(i \<mapsto> '''')\<rparr>))"

definition acceptor_new :: "u32 \<Rightarrow> bool \<Rightarrow> bool \<Rightarrow> string \<Rightarrow> string \<Rightarrow> string \<Rightarrow> acceptor option" where
  "acceptor_new junk cfg first me val file =
     do { let a = \<lparr>ac_me = me, ac_cfg = cfg, n_h = \<lparr>pn = 0, pm = me\<rparr>, n_a = \<lparr>pn = 0, pm = me\<rparr>, v_a = '''',
                   instance_h = 0, vals = Map.empty, logfile = file\<rparr>;
          a1 \<leftarrow> logread junk a;
          Some (if instance_h a1 = 0 \<and> first
                then (loginstance 1 val (a1\<lparr>vals := (vals a1)(1 \<mapsto> val)\<rparr>))\<lparr>instance_h := 1\<rparr>
                else a1) }"

definition preparereq :: "preparearg \<Rightarrow> acceptor \<Rightarrow> prepareres \<times> acceptor" where
  "preparereq a ac =
     (let r = \<lparr>pr_oldinstance = 0, pr_accept = 0, pr_n_a = n_a ac, pr_v_a = v_a ac\<rparr> in
      if pa_instance a \<le> instance_h ac
      then let (v, ac1) = ac_value (pa_instance a) ac in (r\<lparr>pr_oldinstance := 1, pr_v_a := v\<rparr>, ac1)
      else if prop_gt (pa_n a) (n_h ac)
      then (r\<lparr>pr_accept := 1\<rparr>, loghigh (pa_n a) (ac\<lparr>n_h := pa_n a\<rparr>))
      else (r, ac))"

definition acceptreq :: "acceptarg \<Rightarrow> acceptor \<Rightarrow> u32 \<times> acceptor" where
  "acceptreq a ac =
     (if aa_instance a \<le> instance_h ac then (0, ac)
      else if prop_ge (aa_n a) (n_h ac)
      then (1, logprop (aa_n a) (aa_v a) (ac\<lparr>n_h := aa_n a, n_a := aa_n a, v_a := aa_v a\<rparr>))
      else (0, ac))"

text \<open>The result carries the call of \<^verbatim>\<open>cfg->paxos_commit\<close>, if any.\<close>

definition commit_wo :: "u32 \<Rightarrow> string \<Rightarrow> acceptor \<Rightarrow> acceptor \<times> (u32 \<times> string) list" where
  "commit_wo inst v ac =
     (if inst > instance_h ac
      then ((loginstance inst v (ac\<lparr>vals := (vals ac)(inst \<mapsto> v)\<rparr>))
              \<lparr>instance_h := inst, n_h := \<lparr>pn = 0, pm = ac_me ac\<rparr>, n_a := \<lparr>pn = 0, pm = ac_me ac\<rparr>, v_a := ''''\<rparr>,
            if ac_cfg ac then [(inst, v)] else [])
      else (ac, []))"

definition commit :: "u32 \<Rightarrow> string \<Rightarrow> acceptor \<Rightarrow> acceptor \<times> (u32 \<times> string) list" where
  "commit inst v ac = commit_wo inst v ac"

definition decidereq :: "decidearg \<Rightarrow> acceptor \<Rightarrow> u32 \<times> acceptor \<times> (u32 \<times> string) list" where
  "decidereq a ac =
     (if da_instance a \<le> instance_h ac then (0, ac, [])
      else let (ac1, up) = commit_wo (da_instance a) (da_v a) ac in (1, ac1, up))"

definition ac_dump :: "acceptor \<Rightarrow> string" where
  "ac_dump ac = dump ac"

definition ac_restore :: "u32 \<Rightarrow> string \<Rightarrow> acceptor \<Rightarrow> acceptor option" where
  "ac_restore junk s ac = logread junk (restore s ac)"

section \<open>Proposer\<close>

datatype phase = Preparing | Accepting | Deciding | Failed | Exited

record pround =
  rd_instance :: u32
  rd_n :: prop_t
  rd_cnodes :: "string list"
  rd_cv :: string
  rd_v :: string
  rd_highest :: u32
  rd_accepts :: "string list"
  rd_todo :: "string list"
  rd_phase :: phase

record proposer =
  pp_me :: string
  pp_break1 :: bool
  pp_break2 :: bool
  pp_stable :: bool
  pp_my_n :: prop_t
  pp_round :: "pround option"

text \<open>The constructor does not initialise \<^verbatim>\<open>my_n.n\<close>.\<close>

definition proposer_new :: "u32 \<Rightarrow> string \<Rightarrow> proposer" where
  "proposer_new junk me = \<lparr>pp_me = me, pp_break1 = False, pp_break2 = False, pp_stable = True,
     pp_my_n = \<lparr>pn = junk, pm = ''''\<rparr>, pp_round = None\<rparr>"

definition isrunning :: "proposer \<Rightarrow> bool" where
  "isrunning p \<longleftrightarrow> \<not> pp_stable p"

definition breakpoint :: "int \<Rightarrow> proposer \<Rightarrow> proposer" where
  "breakpoint b p = (if b = 3 then p\<lparr>pp_break1 := True\<rparr> else if b = 4 then p\<lparr>pp_break2 := True\<rparr> else p)"

definition setn :: "acceptor \<Rightarrow> proposer \<Rightarrow> proposer" where
  "setn acc p =
     p\<lparr>pp_my_n := (pp_my_n p)\<lparr>pn := (if pn (n_h acc) + 1 > pn (pp_my_n p) + 1 then pn (n_h acc) + 1
                                    else pn (pp_my_n p) + 1)\<rparr>\<rparr>"

text \<open>The beginning of \<^verbatim>\<open>run\<close>, up to the first call of \<^verbatim>\<open>prepare\<close>.\<close>

definition run_start :: "u32 \<Rightarrow> string list \<Rightarrow> string \<Rightarrow> acceptor \<Rightarrow> proposer \<Rightarrow> proposer" where
  "run_start inst c_nodes c_v acc p =
     (if \<not> pp_stable p then p
      else let p1 = setn acc (p\<lparr>pp_stable := False\<rparr>);
               my_n = (pp_my_n p1)\<lparr>pm := pp_me p\<rparr>
           in p1\<lparr>pp_my_n := my_n,
                 pp_round := Some \<lparr>rd_instance = inst, rd_n = my_n, rd_cnodes = c_nodes, rd_cv = c_v, rd_v = c_v,
                                   rd_highest = 0, rd_accepts = [], rd_todo = c_nodes, rd_phase = Preparing\<rparr>\<rparr>)"

text \<open>The arguments of the calls in the three loops.\<close>

definition prepare_call :: "pround \<Rightarrow> preparearg" where
  "prepare_call rd = \<lparr>pa_instance = rd_instance rd, pa_n = rd_n rd, pa_v = ''''\<rparr>"

definition accept_call :: "pround \<Rightarrow> acceptarg" where
  "accept_call rd = \<lparr>aa_instance = rd_instance rd, aa_n = rd_n rd, aa_v = rd_v rd\<rparr>"

definition decide_call :: "pround \<Rightarrow> decidearg" where
  "decide_call rd = \<lparr>da_instance = rd_instance rd, da_v = rd_v rd\<rparr>"

text \<open>
  The body of the loop of \<^verbatim>\<open>prepare\<close> after the call; the second component is the call of
  \<^verbatim>\<open>acc->commit\<close>.
\<close>

definition prepare_reply :: "prepareres option \<Rightarrow> pround \<Rightarrow> pround \<times> (u32 \<times> string) option" where
  "prepare_reply res rd =
     (case res of
        None \<Rightarrow> (rd\<lparr>rd_todo := tl (rd_todo rd)\<rparr>, None)
      | Some r \<Rightarrow>
          if pr_oldinstance r = 1 then (rd\<lparr>rd_phase := Failed\<rparr>, Some (rd_instance rd, pr_v_a r))
          else if pr_accept r = 1
          then (let rd1 = rd\<lparr>rd_accepts := rd_accepts rd @ [hd (rd_todo rd)], rd_todo := tl (rd_todo rd)\<rparr> in
                if pn (pr_n_a r) > rd_highest rd \<and> length (pr_v_a r) > 0
                then rd1\<lparr>rd_highest := pn (pr_n_a r), rd_v := pr_v_a r\<rparr> else rd1, None)
          else (rd\<lparr>rd_phase := Failed\<rparr>, None))"

text \<open>The part of \<^verbatim>\<open>run\<close> between the loops of \<^verbatim>\<open>prepare\<close> and \<^verbatim>\<open>accept\<close>.\<close>

definition prepare_end :: "bool \<Rightarrow> pround \<Rightarrow> pround" where
  "prepare_end break1 rd =
     (if majority (rd_cnodes rd) (rd_accepts rd)
      then let v = (if length (rd_v rd) = 0 then rd_cv rd else rd_v rd) in
           if break1 then rd\<lparr>rd_phase := Exited\<rparr>
           else rd\<lparr>rd_v := v, rd_todo := rd_accepts rd, rd_accepts := [], rd_phase := Accepting\<rparr>
      else rd\<lparr>rd_phase := Failed\<rparr>)"

definition accept_reply :: "u32 option \<Rightarrow> pround \<Rightarrow> pround" where
  "accept_reply res rd =
     (let rd1 = rd\<lparr>rd_todo := tl (rd_todo rd)\<rparr> in
      case res of None \<Rightarrow> rd1
      | Some r \<Rightarrow> if r = 1 then rd1\<lparr>rd_accepts := rd_accepts rd @ [hd (rd_todo rd)]\<rparr> else rd1)"

text \<open>The part of \<^verbatim>\<open>run\<close> between the loops of \<^verbatim>\<open>accept\<close> and \<^verbatim>\<open>decide\<close>.\<close>

definition accept_end :: "bool \<Rightarrow> pround \<Rightarrow> pround" where
  "accept_end break2 rd =
     (if majority (rd_cnodes rd) (rd_accepts rd)
      then if break2 then rd\<lparr>rd_phase := Exited\<rparr> else rd\<lparr>rd_todo := rd_accepts rd, rd_phase := Deciding\<rparr>
      else rd\<lparr>rd_phase := Failed\<rparr>)"

definition decide_reply :: "pround \<Rightarrow> pround" where
  "decide_reply rd = rd\<lparr>rd_todo := tl (rd_todo rd)\<rparr>"

text \<open>The end of \<^verbatim>\<open>run\<close>; the second component is its result.\<close>

definition run_end :: "proposer \<Rightarrow> pround \<Rightarrow> proposer \<times> bool" where
  "run_end p rd = (p\<lparr>pp_stable := True, pp_round := None\<rparr>, rd_phase rd = Deciding)"


section \<open>Recovery\<close>

datatype acc_op = APrepare preparearg | AAccept acceptarg | ADecide decidearg | ACommit u32 string

fun acc_exec :: "acc_op \<Rightarrow> acceptor \<Rightarrow> acceptor" where
  "acc_exec (APrepare a) ac = snd (preparereq a ac)"
| "acc_exec (AAccept a) ac = snd (acceptreq a ac)"
| "acc_exec (ADecide a) ac = fst (snd (decidereq a ac))"
| "acc_exec (ACommit i v) ac = fst (commit i v ac)"

fun acc_op_ok :: "acc_op \<Rightarrow> bool" where
  "acc_op_ok (APrepare a) \<longleftrightarrow> token (pm (pa_n a))"
| "acc_op_ok (AAccept a) \<longleftrightarrow> token (pm (aa_n a)) \<and> newline \<notin> set (aa_v a)"
| "acc_op_ok (ADecide a) \<longleftrightarrow> newline \<notin> set (da_v a)"
| "acc_op_ok (ACommit i v) \<longleftrightarrow> newline \<notin> set v"

definition same_durable :: "acceptor \<Rightarrow> acceptor \<Rightarrow> bool" where
  "same_durable b a \<longleftrightarrow> instance_h b = instance_h a \<and> (\<forall>i. fst (ac_value i b) = fst (ac_value i a)) \<and>
     v_a b = v_a a \<and> pn (n_a b) = pn (n_a a) \<and> pn (n_h b) \<le> pn (n_h a)"

text \<open>The log holds records whose replay from the initial state \<open>z\<close> gives the durable state.\<close>

definition logged :: "acceptor \<Rightarrow> acceptor \<Rightarrow> bool" where
  "logged z a \<longleftrightarrow> (\<exists>rs. list_all rec_ok rs \<and> logfile a = concat (map rec_text rs) \<and> same_durable (fold replay rs z) a)"

lemma ac_value_fst: "fst (ac_value i a) = (case vals a i of Some v \<Rightarrow> v | None \<Rightarrow> '''')"
  by (simp add: ac_value_def split: option.splits)

lemma replay_logfile: "fold replay rs (a\<lparr>logfile := l\<rparr>) = (fold replay rs a)\<lparr>logfile := l\<rparr>"
proof (induction rs arbitrary: a)
  case (Cons r rs)
  have "replay r (a\<lparr>logfile := l\<rparr>) = (replay r a)\<lparr>logfile := l\<rparr>" by (cases r) simp_all
  then show ?case using Cons by simp
qed simp

lemma logged_append:
  assumes "logged z a" and "rec_ok r" and "logfile a' = logfile a @ rec_text r"
    and "\<And>b. same_durable b a \<Longrightarrow> same_durable (replay r b) a'"
  shows "logged z a'"
proof -
  from assms(1) obtain rs where "list_all rec_ok rs" "logfile a = concat (map rec_text rs)" "same_durable (fold replay rs z) a"
    unfolding logged_def by blast
  then show ?thesis using assms(2-4) unfolding logged_def by (intro exI [of _ "rs @ [r]"]) simp
qed

lemma logged_same: "logged z a \<Longrightarrow> logfile a' = logfile a \<Longrightarrow> (\<And>b. same_durable b a \<Longrightarrow> same_durable b a') \<Longrightarrow> logged z a'"
  unfolding logged_def by auto

lemma commit_wo_logged: "logged z a \<Longrightarrow> newline \<notin> set v \<Longrightarrow> logged z (fst (commit_wo i v a))"
  by (cases "i > instance_h a")
    (auto simp: commit_wo_def loginstance_def same_durable_def ac_value_fst intro!: logged_append [of z a "Done i v"])

lemma acc_exec_logged:
  assumes "logged z a" and "acc_op_ok op"
  shows "logged z (acc_exec op a)"
proof (cases op)
  case (APrepare p)
  consider (old) "pa_instance p \<le> instance_h a" | (new) "\<not> pa_instance p \<le> instance_h a" "prop_gt (pa_n p) (n_h a)"
    | (reject) "\<not> pa_instance p \<le> instance_h a" "\<not> prop_gt (pa_n p) (n_h a)" by blast
  then show ?thesis
  proof cases
    case old
    then show ?thesis using APrepare assms(1)
      by (auto simp: preparereq_def Let_def ac_value_def same_durable_def split: option.splits intro!: logged_same [of z a])
  next
    case new
    moreover have "pn b \<le> pn c \<Longrightarrow> prop_gt d c \<Longrightarrow> pn b \<le> pn d" for b c d by (auto simp: prop_gt_def)
    ultimately show ?thesis using APrepare assms
      by (auto simp: preparereq_def Let_def loghigh_def same_durable_def ac_value_fst intro!: logged_append [of z a "High (pa_n p)"])
  next
    case reject
    then show ?thesis using APrepare assms(1) by (simp add: preparereq_def Let_def)
  qed
next
  case (AAccept p)
  have "pn b \<le> pn c \<Longrightarrow> prop_ge d c \<Longrightarrow> pn b \<le> pn d" for b c d by (auto simp: prop_ge_def)
  then show ?thesis using AAccept assms
    by (auto simp: acceptreq_def logprop_def same_durable_def ac_value_fst intro!: logged_append [of z a "Prop (aa_n p) (aa_v p)"])
next
  case (ADecide p)
  then show ?thesis using assms commit_wo_logged [OF assms(1), of "da_v p" "da_instance p"]
    by (simp add: decidereq_def split: prod.splits)
next
  case (ACommit i v)
  then show ?thesis using assms commit_wo_logged by (simp add: commit_def)
qed

lemma acc_run_logged: "logged z a \<Longrightarrow> list_all acc_op_ok ops \<Longrightarrow> logged z (fold acc_exec ops a)"
  by (induction ops arbitrary: a) (simp_all add: acc_exec_logged)

lemma instance_h_mono: "instance_h a \<le> instance_h (acc_exec op a)"
  by (cases op) (auto simp: preparereq_def acceptreq_def decidereq_def commit_def commit_wo_def ac_value_def loghigh_def logprop_def
      loginstance_def Let_def split: option.splits prod.splits)

lemma instance_h_mono_run: "instance_h a \<le> instance_h (fold acc_exec ops a)"
  by (induction ops arbitrary: a) (auto intro: order_trans instance_h_mono)

text \<open>
  C11. Recovery: an acceptor that restarts with the log it wrote has the decided values, the highest decided
  instance and the accepted proposal it had before; its promise is at most what it was.
\<close>

theorem acceptor_recovers:
  assumes "acceptor_new j1 cfg first me val '''' = Some a0" and "list_all acc_op_ok ops" and "newline \<notin> set val"
  shows "\<exists>b. acceptor_new j2 cfg first me val (logfile (fold acc_exec ops a0)) = Some b \<and>
             same_durable b (fold acc_exec ops a0)"
proof -
  let ?z = "\<lparr>ac_me = me, ac_cfg = cfg, n_h = \<lparr>pn = 0, pm = me\<rparr>, n_a = \<lparr>pn = 0, pm = me\<rparr>, v_a = '''',
    instance_h = 0, vals = Map.empty, logfile = ''''\<rparr>"
  have r0: "logread j1 ?z = Some ?z"
    unfolding logread_def using logread_text [of "[]" j1 ?z] by (simp add: istringstream_def)
  have a0: "a0 = (if first then (loginstance 1 val (?z\<lparr>vals := (vals ?z)(1 \<mapsto> val)\<rparr>))\<lparr>instance_h := 1\<rparr> else ?z)"
    using assms(1) r0 by (simp add: acceptor_new_def)
  have z: "logged ?z ?z" unfolding logged_def by (rule exI [of _ "[]"]) (simp add: same_durable_def)
  have "logged ?z a0"
    unfolding a0 using z assms(3)
    by (auto simp: loginstance_def same_durable_def ac_value_fst intro!: logged_append [OF z, of "Done 1 val"])
  from acc_run_logged [OF this assms(2)] obtain rs where
    rs: "list_all rec_ok rs" "logfile (fold acc_exec ops a0) = concat (map rec_text rs)"
      "same_durable (fold replay rs ?z) (fold acc_exec ops a0)"
    unfolding logged_def by blast
  let ?L = "logfile (fold acc_exec ops a0)"
  let ?b = "(fold replay rs ?z)\<lparr>logfile := ?L\<rparr>"
  have "logread j2 (?z\<lparr>logfile := ?L\<rparr>) = Some ?b"
    unfolding logread_def using logread_text [OF rs(1), of j2 "?z\<lparr>logfile := ?L\<rparr>"] replay_logfile [of rs ?L ?z]
    by (simp add: istringstream_def rs(2))
  moreover have sd: "same_durable ?b (fold acc_exec ops a0)" using rs(3) by (simp add: same_durable_def ac_value_fst)
  moreover have "\<not> (instance_h ?b = 0 \<and> first)"
  proof
    assume h: "instance_h ?b = 0 \<and> first"
    then have "instance_h (fold acc_exec ops a0) = 0" using sd by (simp add: same_durable_def)
    moreover have "instance_h a0 = 1" using h a0 by simp
    ultimately show False using instance_h_mono_run [of a0 ops] by simp
  qed
  ultimately show ?thesis by (auto simp: acceptor_new_def)
qed

theorem acceptor_recovers_witness:
  "\<exists>a0 b. acceptor_new 0 True True ''n1'' ''n1'' '''' = Some a0 \<and>
     acceptor_new 0 True True ''n1'' ''n1'' (logfile (fold acc_exec [APrepare \<lparr>pa_instance = 2, pa_n = \<lparr>pn = 1, pm = ''n1''\<rparr>, pa_v = ''''\<rparr>,
       ADecide \<lparr>da_instance = 2, da_v = ''n1 n2''\<rparr>] a0)) = Some b \<and> instance_h b = 2 \<and> fst (ac_value 2 b) = ''n1 n2''"
proof -
  let ?ops = "[APrepare \<lparr>pa_instance = 2, pa_n = \<lparr>pn = 1, pm = ''n1''\<rparr>, pa_v = ''''\<rparr>, ADecide \<lparr>da_instance = 2, da_v = ''n1 n2''\<rparr>]"
  let ?z = "\<lparr>ac_me = ''n1'', ac_cfg = True, n_h = \<lparr>pn = 0, pm = ''n1''\<rparr>, n_a = \<lparr>pn = 0, pm = ''n1''\<rparr>, v_a = '''',
    instance_h = 0, vals = Map.empty, logfile = ''''\<rparr>"
  have "logread 0 ?z = Some ?z"
    unfolding logread_def using logread_text [of "[]" 0 ?z] by (simp add: istringstream_def)
  then obtain a0 where a0: "acceptor_new 0 True True ''n1'' ''n1'' '''' = Some a0" "instance_h a0 = 1" "pn (n_h a0) = 0"
    by (simp add: acceptor_new_def loginstance_def)
  have "list_all acc_op_ok ?ops" "newline \<notin> set ''n1''" by (simp_all add: token_def isspace_def char_of_def)
  from acceptor_recovers [OF a0(1) this, of 0] obtain b where
    b: "acceptor_new 0 True True ''n1'' ''n1'' (logfile (fold acc_exec ?ops a0)) = Some b" "same_durable b (fold acc_exec ?ops a0)"
    by blast
  have w: "\<not> (2 :: u32) \<le> 1" "(1 :: u32) < 2" by code_simp+
  have "snd (preparereq \<lparr>pa_instance = 2, pa_n = \<lparr>pn = 1, pm = ''n1''\<rparr>, pa_v = ''''\<rparr> a0) =
      loghigh \<lparr>pn = 1, pm = ''n1''\<rparr> (a0\<lparr>n_h := \<lparr>pn = 1, pm = ''n1''\<rparr>\<rparr>)"
    using a0(2,3) w by (simp add: preparereq_def prop_gt_def Let_def)
  then have "instance_h (fold acc_exec ?ops a0) = 2" "fst (ac_value 2 (fold acc_exec ?ops a0)) = ''n1 n2''"
    using a0(2) w by (simp_all add: decidereq_def commit_wo_def loghigh_def loginstance_def ac_value_fst)
  with a0(1) b show ?thesis by (auto simp: same_durable_def simp del: fold.simps)
qed

end
