(* ===== verification/Paxos_Agreement.thy ===== *)
theory Paxos_Agreement
  imports Paxos
begin

text \<open>
  One instance of Paxos run by any number of nodes: the proposers and acceptors of \<^verbatim>\<open>Paxos\<close> composed with
  a network. The events of a run may come in any order: a node calls \<^verbatim>\<open>run\<close>, the request of a running
  proposer reaches its node and is handled there, the proposer gets the reply or gives up the call,
  the proposer goes from one loop to the next, or a request whose caller has given up arrives late.
  So anything may happen between the handling of a request and the arrival of its reply, which may
  also get lost; a request that is never handled is a lost one.

  The lists of votes, of issued proposals and of started rounds only record what happened; no
  step reads them.
\<close>

section \<open>System\<close>

datatype preq = Prepare string preparearg | Accept string acceptarg | Decide string decidearg

datatype presp = PrepareRes prepareres | AcceptRes u32 | DecideRes u32

record pxsys =
  px_inst :: u32
  px_nodes :: "string list"
  px_acc :: "string \<Rightarrow> acceptor"
  px_prop :: "string \<Rightarrow> proposer"
  px_flight :: "preq list"
  px_replies :: "string \<rightharpoonup> presp"
  px_votes :: "(string \<times> u32 \<times> string) list"
  px_issued :: "(prop_t \<times> string) list"
  px_started :: "prop_t list"

definition set_acc :: "string \<Rightarrow> acceptor \<Rightarrow> pxsys \<Rightarrow> pxsys" where
  "set_acc x ac s = s\<lparr>px_acc := (px_acc s)(x := ac)\<rparr>"

definition set_prop :: "string \<Rightarrow> proposer \<Rightarrow> pxsys \<Rightarrow> pxsys" where
  "set_prop p pr s = s\<lparr>px_prop := (px_prop s)(p := pr)\<rparr>"

definition set_round :: "string \<Rightarrow> pround \<Rightarrow> pxsys \<Rightarrow> pxsys" where
  "set_round p rd s = set_prop p ((px_prop s p)\<lparr>pp_round := Some rd\<rparr>) s"

fun deliver :: "preq \<Rightarrow> pxsys \<Rightarrow> presp \<times> pxsys" where
  "deliver (Prepare x a) s = (let (r, ac) = preparereq a (px_acc s x) in (PrepareRes r, set_acc x ac s))"
| "deliver (Accept x a) s =
     (let (r, ac) = acceptreq a (px_acc s x)
      in (AcceptRes r, (set_acc x ac s)\<lparr>px_votes := px_votes s @ (if r = 1 then [(x, pn (aa_n a), aa_v a)] else [])\<rparr>))"
| "deliver (Decide x a) s = (let (r, ac, up) = decidereq a (px_acc s x) in (DecideRes r, set_acc x ac s))"

text \<open>The next remote call of a round.\<close>

definition next_request :: "pround \<Rightarrow> preq option" where
  "next_request rd =
     (case rd_todo rd of
        [] \<Rightarrow> None
      | x # xs \<Rightarrow>
          (case rd_phase rd of
             Preparing \<Rightarrow> Some (Prepare x (prepare_call rd))
           | Accepting \<Rightarrow> Some (Accept x (accept_call rd))
           | Deciding \<Rightarrow> Some (Decide x (decide_call rd))
           | _ \<Rightarrow> None))"

text \<open>What the proposer \<open>p\<close> does with the reply, or with its absence.\<close>

definition handle_reply :: "string \<Rightarrow> pround \<Rightarrow> presp option \<Rightarrow> pxsys \<Rightarrow> pxsys" where
  "handle_reply p rd res s =
     (case rd_phase rd of
        Preparing \<Rightarrow>
          (let (rd1, c) = prepare_reply (case res of Some (PrepareRes r) \<Rightarrow> Some r | _ \<Rightarrow> None) rd;
               s1 = set_round p rd1 s
           in case c of None \<Rightarrow> s1 | Some (i, v) \<Rightarrow> set_acc p (fst (commit i v (px_acc s1 p))) s1)
      | Accepting \<Rightarrow> set_round p (accept_reply (case res of Some (AcceptRes r) \<Rightarrow> Some r | _ \<Rightarrow> None) rd) s
      | Deciding \<Rightarrow> set_round p (decide_reply rd) s
      | _ \<Rightarrow> s)"

text \<open>The end of a loop of the proposer \<open>p\<close>.\<close>

definition turn :: "string \<Rightarrow> pround \<Rightarrow> pxsys \<Rightarrow> pxsys" where
  "turn p rd s =
     (case rd_phase rd of
        Preparing \<Rightarrow>
          (let rd1 = prepare_end (pp_break1 (px_prop s p)) rd; s1 = set_round p rd1 s
           in if rd_phase rd1 = Accepting then s1\<lparr>px_issued := px_issued s @ [(rd_n rd1, rd_v rd1)]\<rparr> else s1)
      | Accepting \<Rightarrow> set_round p (accept_end (pp_break2 (px_prop s p)) rd) s
      | Deciding \<Rightarrow> set_prop p (fst (run_end (px_prop s p) rd)) s
      | Failed \<Rightarrow> set_prop p (fst (run_end (px_prop s p) rd)) s
      | Exited \<Rightarrow> s)"

datatype pxevent =
    Run string string
  | Serve string
  | Rpc string bool
  | Turn string
  | Late nat

fun px_exec :: "pxevent \<Rightarrow> pxsys \<Rightarrow> pxsys" where
  "px_exec (Run p v) s =
     (let pr = run_start (px_inst s) (px_nodes s) v (px_acc s p) (px_prop s p)
      in if pp_stable (px_prop s p)
         then (set_prop p pr s)\<lparr>px_started := px_started s @ [pp_my_n pr]\<rparr> else s)"
| "px_exec (Serve p) s =
     (case pp_round (px_prop s p) of
        None \<Rightarrow> s
      | Some rd \<Rightarrow>
          (case next_request rd of
             None \<Rightarrow> s
           | Some q \<Rightarrow>
               if px_replies s p = None
               then let (r, s1) = deliver q s in s1\<lparr>px_replies := (px_replies s1)(p \<mapsto> r)\<rparr> else s))"
| "px_exec (Rpc p ok) s =
     (case pp_round (px_prop s p) of
        None \<Rightarrow> s
      | Some rd \<Rightarrow>
          (case next_request rd of
             None \<Rightarrow> s
           | Some q \<Rightarrow>
               (case px_replies s p of
                  None \<Rightarrow> if ok then s else handle_reply p rd None (s\<lparr>px_flight := px_flight s @ [q]\<rparr>)
                | Some r \<Rightarrow>
                    handle_reply p rd (if ok then Some r else None) (s\<lparr>px_replies := (px_replies s)(p := None)\<rparr>))))"
| "px_exec (Turn p) s =
     (case pp_round (px_prop s p) of
        None \<Rightarrow> s
      | Some rd \<Rightarrow> if rd_todo rd = [] \<or> rd_phase rd = Failed then turn p rd s else s)"
| "px_exec (Late k) s =
     (if k < length (px_flight s)
      then snd (deliver (px_flight s ! k) (s\<lparr>px_flight := take k (px_flight s) @ drop (Suc k) (px_flight s)\<rparr>)) else s)"

fun px_run :: "pxevent list \<Rightarrow> pxsys \<Rightarrow> pxsys" where
  "px_run [] s = s"
| "px_run (e # es) s = px_run es (px_exec e s)"

text \<open>The nodes at the beginning of an instance; no request is under way.\<close>

definition px_new :: "u32 \<Rightarrow> string list \<Rightarrow> (string \<Rightarrow> acceptor) \<Rightarrow> (string \<Rightarrow> u32) \<Rightarrow> pxsys" where
  "px_new i nodes acc junk = \<lparr>px_inst = i, px_nodes = nodes, px_acc = acc, px_prop = (\<lambda>p. proposer_new (junk p) p),
     px_flight = [], px_replies = Map.empty, px_votes = [], px_issued = [], px_started = []\<rparr>"

text \<open>
  An acceptor that has not decided the instance and holds no accepted proposal. \<^verbatim>\<open>commit_wo\<close> resets the
  acceptor, so a node that has learned the decision before is of this kind; one that accepted a
  proposal of an earlier instance and missed its decision is not, because the code does not record
  which instance an accepted proposal belongs to.
\<close>

definition fresh_for :: "u32 \<Rightarrow> acceptor \<Rightarrow> bool" where
  "fresh_for i a \<longleftrightarrow> instance_h a < i \<and> pn (n_a a) = 0"

definition decided :: "pxsys \<Rightarrow> string \<Rightarrow> bool" where
  "decided s x \<longleftrightarrow> instance_h (px_acc s x) \<ge> px_inst s"

text \<open>No two rounds use the same number, and no number has wrapped around to zero.\<close>

definition numbers_ok :: "pxsys \<Rightarrow> bool" where
  "numbers_ok s \<longleftrightarrow> distinct (map pn (px_started s)) \<and> 0 \<notin> pn ` set (px_started s)"

fun event_ok :: "pxevent \<Rightarrow> bool" where
  "event_ok (Run p v) \<longleftrightarrow> v \<noteq> ''''"
| "event_ok _ \<longleftrightarrow> True"

section \<open>Equal numbers break agreement\<close>

definition px_demo :: pxsys where
  "px_demo = px_new 2 [''a'', ''b'', ''c'']
     (\<lambda>x. \<lparr>ac_me = x, ac_cfg = False, n_h = \<lparr>pn = 0, pm = x\<rparr>, n_a = \<lparr>pn = 0, pm = x\<rparr>, v_a = '''', instance_h = 1,
           vals = Map.empty, logfile = ''''\<rparr>) (\<lambda>_. 0)"

text \<open>
  \<^verbatim>\<open>a\<close> and \<^verbatim>\<open>b\<close> start with the same number. The proposal of \<^verbatim>\<open>a\<close> is accepted by \<^verbatim>\<open>a\<close> only; that of \<^verbatim>\<open>b\<close>
  is accepted by \<^verbatim>\<open>b\<close> and \<^verbatim>\<open>c\<close> and decided at \<^verbatim>\<open>c\<close>. The next round of \<^verbatim>\<open>a\<close> hears of both from \<^verbatim>\<open>a\<close> and
  \<^verbatim>\<open>b\<close> and takes up the first it hears of.
\<close>

definition tie_run :: "pxevent list" where
  "tie_run =
     [Run ''a'' ''x'', Run ''b'' ''y'',
      Serve ''a'', Rpc ''a'' True, Serve ''a'', Rpc ''a'' True, Rpc ''a'' False, Turn ''a'',
      Serve ''a'', Rpc ''a'' True, Rpc ''a'' False, Turn ''a'', Turn ''a'',
      Rpc ''b'' False, Serve ''b'', Rpc ''b'' True, Serve ''b'', Rpc ''b'' True, Turn ''b'',
      Serve ''b'', Rpc ''b'' True, Serve ''b'', Rpc ''b'' True, Turn ''b'', Rpc ''b'' False, Serve ''b'', Rpc ''b'' True,
      Run ''a'' ''x'',
      Serve ''a'', Rpc ''a'' True, Serve ''a'', Rpc ''a'' True, Rpc ''a'' False, Turn ''a'',
      Serve ''a'', Rpc ''a'' True, Serve ''a'', Rpc ''a'' True, Turn ''a'', Serve ''a'', Rpc ''a'' True, Serve ''a'', Rpc ''a'' True]"

text \<open>
  C35. Agreement can fail when two rounds have the same number: \<^verbatim>\<open>prepare\<close> compares only the numbers of the
  accepted proposals it hears of and not their proposers. In this run of three nodes without any
  crash, in which \<^verbatim>\<open>a\<close> and \<^verbatim>\<open>b\<close> start at the same time, \<^verbatim>\<open>a\<close> and \<^verbatim>\<open>c\<close> decide different values.
\<close>

theorem equal_numbers_break_agreement:
  "decided (px_run tie_run px_demo) ''a'' \<and> decided (px_run tie_run px_demo) ''c'' \<and>
   vals (px_acc (px_run tie_run px_demo) ''a'') 2 = Some ''x'' \<and> vals (px_acc (px_run tie_run px_demo) ''c'') 2 = Some ''y''"
  by code_simp

section \<open>A proposal kept from an earlier instance breaks agreement\<close>

text \<open>
  Instance 2: the second round of \<^verbatim>\<open>a\<close> is accepted by \<^verbatim>\<open>b\<close> and \<^verbatim>\<open>c\<close>; the decision reaches \<^verbatim>\<open>b\<close> and, when it
  runs again, \<^verbatim>\<open>a\<close>, but not \<^verbatim>\<open>c\<close>. Instance 3: the value of \<^verbatim>\<open>b\<close> is accepted by \<^verbatim>\<open>a\<close> and \<^verbatim>\<open>b\<close> and decided at
  \<^verbatim>\<open>b\<close>; then \<^verbatim>\<open>a\<close> prepares at itself and at \<^verbatim>\<open>c\<close>, which reports the old proposal with its larger number.
\<close>

definition stale_run2 :: "pxevent list" where
  "stale_run2 =
     [Run ''a'' ''old'', Rpc ''a'' False, Rpc ''a'' False, Rpc ''a'' False, Turn ''a'', Turn ''a'',
      Run ''a'' ''old'', Rpc ''a'' False, Serve ''a'', Rpc ''a'' True, Serve ''a'', Rpc ''a'' True, Turn ''a'',
      Serve ''a'', Rpc ''a'' True, Serve ''a'', Rpc ''a'' True, Turn ''a'',
      Serve ''a'', Rpc ''a'' True, Rpc ''a'' False, Turn ''a'',
      Run ''a'' ''old'', Rpc ''a'' False, Serve ''a'', Rpc ''a'' True, Turn ''a'']"

definition stale_run3 :: "pxevent list" where
  "stale_run3 =
     [Run ''b'' ''y'', Serve ''b'', Rpc ''b'' True, Serve ''b'', Rpc ''b'' True, Rpc ''b'' False, Turn ''b'',
      Serve ''b'', Rpc ''b'' True, Serve ''b'', Rpc ''b'' True, Turn ''b'', Rpc ''b'' False, Serve ''b'', Rpc ''b'' True, Turn ''b'',
      Run ''a'' ''x'', Serve ''a'', Rpc ''a'' True, Rpc ''a'' False, Serve ''a'', Rpc ''a'' True, Turn ''a'',
      Serve ''a'', Rpc ''a'' True, Serve ''a'', Rpc ''a'' True, Turn ''a'', Serve ''a'', Rpc ''a'' True]"

definition stale_sys :: pxsys where
  "stale_sys =
     (let s = px_run stale_run2 px_demo
      in px_run stale_run3 (px_new 3 (px_nodes s) (px_acc s) (\<lambda>p. pn (pp_my_n (px_prop s p)))))"

text \<open>The rounds of instance 3 have different numbers, and \<^verbatim>\<open>a\<close> and \<^verbatim>\<open>b\<close> decide different values for it.\<close>

lemma stale_proposal_breaks_agreement:
  "numbers_ok stale_sys \<and> decided stale_sys ''a'' \<and> decided stale_sys ''b'' \<and>
   vals (px_acc stale_sys ''a'') 3 = Some ''old'' \<and> vals (px_acc stale_sys ''b'') 3 = Some ''y''"
  by code_simp


section \<open>Majorities meet\<close>

lemma isamember_iff [simp]: "isamember m xs \<longleftrightarrow> m \<in> set xs"
  by (induction xs) auto

lemma majorities_meet:
  assumes "majority ns A" and "majority ns B"
  shows "\<exists>x. x \<in> set A \<and> x \<in> set B"
proof (rule ccontr)
  assume no: "\<nexists>x. x \<in> set A \<and> x \<in> set B"
  have "length (filter (\<lambda>m. m \<in> set A) ns) + length (filter (\<lambda>m. m \<in> set B) ns) \<le> length ns"
    using no by (induction ns) auto
  then show False using assms by (simp add: majority_def)
qed

section \<open>The invariant\<close>

definition closed :: "pxsys \<Rightarrow> string \<Rightarrow> u32 \<Rightarrow> bool" where
  "closed s x n \<longleftrightarrow> px_inst s \<le> instance_h (px_acc s x) \<or> n \<le> pn (n_h (px_acc s x))"

definition chosen :: "pxsys \<Rightarrow> u32 \<Rightarrow> string \<Rightarrow> bool" where
  "chosen s n v \<longleftrightarrow> (\<exists>A. majority (px_nodes s) A \<and> (\<forall>x\<in>set A. (x, n, v) \<in> set (px_votes s)))"

text \<open>The latest vote below \<open>n\<close> of the nodes \<open>A\<close> has number \<open>h\<close> and value \<open>v\<close>; 0 stands for no vote.\<close>

definition latest :: "pxsys \<Rightarrow> string list \<Rightarrow> u32 \<Rightarrow> u32 \<Rightarrow> string \<Rightarrow> bool" where
  "latest s A n h v \<longleftrightarrow>
     (\<forall>x\<in>set A. \<forall>k w. (x, k, w) \<in> set (px_votes s) \<and> k < n \<longrightarrow> k \<le> h) \<and>
     (h \<noteq> 0 \<longrightarrow> h < n \<and> (\<exists>x\<in>set A. (x, h, v) \<in> set (px_votes s)))"

definition safe :: "pxsys \<Rightarrow> u32 \<Rightarrow> string \<Rightarrow> bool" where
  "safe s n v \<longleftrightarrow> (\<exists>A h. majority (px_nodes s) A \<and> (\<forall>x\<in>set A. closed s x n) \<and> latest s A n h v)"

definition issued_inv :: "pxsys \<Rightarrow> bool" where
  "issued_inv s \<longleftrightarrow>
     (\<forall>n w. (n, w) \<in> set (px_issued s) \<longrightarrow> n \<in> set (px_started s) \<and> w \<noteq> '''' \<and> safe s (pn n) w) \<and>
     (\<forall>n w w'. (n, w) \<in> set (px_issued s) \<and> (n, w') \<in> set (px_issued s) \<longrightarrow> w = w') \<and>
     (\<forall>x k w. (x, k, w) \<in> set (px_votes s) \<longrightarrow> (\<exists>n. pn n = k \<and> (n, w) \<in> set (px_issued s)))"

definition acc_inv :: "pxsys \<Rightarrow> string \<Rightarrow> bool" where
  "acc_inv s x \<longleftrightarrow>
     (let a = px_acc s x in
      (instance_h a < px_inst s \<longrightarrow>
         (\<forall>k w. (x, k, w) \<in> set (px_votes s) \<longrightarrow> k \<le> pn (n_a a)) \<and>
         (pn (n_a a) \<noteq> 0 \<longrightarrow> (x, pn (n_a a), v_a a) \<in> set (px_votes s)) \<and> pn (n_a a) \<le> pn (n_h a)) \<and>
      (px_inst s \<le> instance_h a \<longrightarrow> instance_h a = px_inst s \<and>
         (\<exists>n v. vals a (px_inst s) = Some v \<and> chosen s n v)))"

fun req_inv :: "pxsys \<Rightarrow> preq \<Rightarrow> bool" where
  "req_inv s (Prepare x a) \<longleftrightarrow> pa_instance a = px_inst s \<and> pa_n a \<in> set (px_started s)"
| "req_inv s (Accept x a) \<longleftrightarrow> aa_instance a = px_inst s \<and> (aa_n a, aa_v a) \<in> set (px_issued s)"
| "req_inv s (Decide x a) \<longleftrightarrow> da_instance a = px_inst s \<and> (\<exists>n. chosen s n (da_v a))"

fun phase_inv :: "pxsys \<Rightarrow> pround \<Rightarrow> phase \<Rightarrow> bool" where
  "phase_inv s rd Preparing \<longleftrightarrow>
     rd_n rd \<notin> fst ` set (px_issued s) \<and> (\<forall>x\<in>set (rd_accepts rd). closed s x (pn (rd_n rd))) \<and>
     latest s (rd_accepts rd) (pn (rd_n rd)) (rd_highest rd) (rd_v rd) \<and> rd_v rd \<noteq> ''''"
| "phase_inv s rd Accepting \<longleftrightarrow>
     (rd_n rd, rd_v rd) \<in> set (px_issued s) \<and> (\<forall>x\<in>set (rd_accepts rd). (x, pn (rd_n rd), rd_v rd) \<in> set (px_votes s))"
| "phase_inv s rd Deciding \<longleftrightarrow> chosen s (pn (rd_n rd)) (rd_v rd)"
| "phase_inv s rd _ \<longleftrightarrow> True"

definition round_inv :: "pxsys \<Rightarrow> string \<Rightarrow> pround \<Rightarrow> bool" where
  "round_inv s p rd \<longleftrightarrow> rd_instance rd = px_inst s \<and> rd_cnodes rd = px_nodes s \<and> rd_n rd \<in> set (px_started s) \<and>
     pm (rd_n rd) = p \<and> phase_inv s rd (rd_phase rd)"

text \<open>A reply on its way holds a promise or a vote of the node, or a decided value.\<close>

definition promised :: "pxsys \<Rightarrow> string \<Rightarrow> u32 \<Rightarrow> u32 \<Rightarrow> string \<Rightarrow> bool" where
  "promised s x n m v \<longleftrightarrow> closed s x n \<and> (\<forall>k w. (x, k, w) \<in> set (px_votes s) \<and> k < n \<longrightarrow> k \<le> m) \<and>
     (m \<noteq> 0 \<longrightarrow> m < n \<and> (x, m, v) \<in> set (px_votes s))"

fun resp_ok :: "pxsys \<Rightarrow> pround \<Rightarrow> presp \<Rightarrow> bool" where
  "resp_ok s rd (PrepareRes r) \<longleftrightarrow>
     rd_phase rd = Preparing \<longrightarrow>
       (if pr_oldinstance r = 1 then \<exists>n. chosen s n (pr_v_a r)
        else pr_accept r = 1 \<longrightarrow> promised s (hd (rd_todo rd)) (pn (rd_n rd)) (pn (pr_n_a r)) (pr_v_a r))"
| "resp_ok s rd (AcceptRes k) \<longleftrightarrow>
     rd_phase rd = Accepting \<and> k = 1 \<longrightarrow> (hd (rd_todo rd), pn (rd_n rd), rd_v rd) \<in> set (px_votes s)"
| "resp_ok s rd (DecideRes k) \<longleftrightarrow> True"

definition prop_inv :: "pxsys \<Rightarrow> string \<Rightarrow> bool" where
  "prop_inv s p \<longleftrightarrow> pp_me (px_prop s p) = p \<and>
     (case pp_round (px_prop s p) of
        None \<Rightarrow> px_replies s p = None
      | Some rd \<Rightarrow> \<not> pp_stable (px_prop s p) \<and> round_inv s p rd \<and>
          (\<forall>r. px_replies s p = Some r \<longrightarrow> next_request rd \<noteq> None \<and> resp_ok s rd r))"

definition px_inv :: "pxsys \<Rightarrow> bool" where
  "px_inv s \<longleftrightarrow> issued_inv s \<and> (\<forall>x. acc_inv s x) \<and> (\<forall>p. prop_inv s p) \<and> (\<forall>q\<in>set (px_flight s). req_inv s q)"

section \<open>Chosen values are unique\<close>

lemma same_number: "numbers_ok s \<Longrightarrow> n \<in> set (px_started s) \<Longrightarrow> m \<in> set (px_started s) \<Longrightarrow> pn n = pn m \<Longrightarrow> n = m"
  unfolding numbers_ok_def by (metis distinct_map inj_onD)

lemma vote_unique:
  assumes "issued_inv s" and "numbers_ok s" and "(x, k, v) \<in> set (px_votes s)" and "(y, k, w) \<in> set (px_votes s)"
  shows "v = w"
  using assms same_number unfolding issued_inv_def by metis

lemma vote_positive: "issued_inv s \<Longrightarrow> numbers_ok s \<Longrightarrow> (x, k, v) \<in> set (px_votes s) \<Longrightarrow> k \<noteq> 0"
  unfolding issued_inv_def numbers_ok_def by (metis image_eqI)

lemma issued_after_chosen:
  assumes "issued_inv s" and "numbers_ok s" and "chosen s n v" and "(m, w) \<in> set (px_issued s)" and "n < pn m"
  shows "w = v"
  using assms(4,5)
proof (induction "unat (pn m)" arbitrary: m w rule: less_induct)
  case less
  obtain A h where A: "majority (px_nodes s) A" "latest s A (pn m) h w"
    using assms(1) less.prems(1) unfolding issued_inv_def safe_def by blast
  obtain B where B: "majority (px_nodes s) B" "\<forall>x\<in>set B. (x, n, v) \<in> set (px_votes s)"
    using assms(3) unfolding chosen_def by blast
  obtain x where x: "x \<in> set A" "(x, n, v) \<in> set (px_votes s)" using majorities_meet [OF A(1) B(1)] B(2) by blast
  have nh: "n \<le> h" using A(2) x less.prems(2) unfolding latest_def by blast
  have "h \<noteq> 0" using vote_positive [OF assms(1,2) x(2)] nh by auto
  then obtain y where y: "h < pn m" "(y, h, w) \<in> set (px_votes s)" using A(2) unfolding latest_def by blast
  show ?case
  proof (cases "h = n")
    case True
    then show ?thesis using vote_unique [OF assms(1,2) y(2)] x(2) by blast
  next
    case False
    obtain q where "pn q = h" "(q, w) \<in> set (px_issued s)" using assms(1) y(2) unfolding issued_inv_def by blast
    moreover have "n < h" using nh False by simp
    moreover have "unat h < unat (pn m)" using y(1) by (simp add: word_less_nat_alt)
    ultimately show ?thesis using less.hyps [of q w] by simp
  qed
qed

lemma chosen_vote:
  assumes "chosen s n v"
  shows "\<exists>x. (x, n, v) \<in> set (px_votes s)"
proof -
  obtain A where "majority (px_nodes s) A" "\<forall>x\<in>set A. (x, n, v) \<in> set (px_votes s)"
    using assms unfolding chosen_def by blast
  moreover from this(1) have "A \<noteq> []" by (auto simp: majority_def)
  ultimately show ?thesis by (cases A) auto
qed

lemma chosen_unique:
  assumes "issued_inv s" and "numbers_ok s" and "chosen s n v" and "chosen s m w"
  shows "v = w"
proof -
  obtain x y where v: "(x, n, v) \<in> set (px_votes s)" "(y, m, w) \<in> set (px_votes s)"
    using chosen_vote assms(3,4) by blast
  then obtain p q where i: "pn p = n" "(p, v) \<in> set (px_issued s)" "pn q = m" "(q, w) \<in> set (px_issued s)"
    using assms(1) unfolding issued_inv_def by blast
  consider "n = m" | "n < m" | "m < n" by fastforce
  then show ?thesis
  proof cases
    case 1
    then show ?thesis using vote_unique [OF assms(1,2)] v by blast
  next
    case 2
    then show ?thesis using issued_after_chosen [OF assms(1,2,3) i(4)] i(3) by simp
  next
    case 3
    then show ?thesis using issued_after_chosen [OF assms(1,2,4) i(2)] i(1) by simp
  qed
qed


section \<open>Steps only add\<close>

text \<open>
  What every step guarantees: the histories grow, a node closed below \<open>n\<close> stays so, and a node closed
  below \<open>n\<close> casts no vote below \<open>n\<close>.
\<close>

definition ext :: "pxsys \<Rightarrow> pxsys \<Rightarrow> bool" where
  "ext s s' \<longleftrightarrow> px_inst s' = px_inst s \<and> px_nodes s' = px_nodes s \<and> set (px_votes s) \<subseteq> set (px_votes s') \<and>
     set (px_issued s) \<subseteq> set (px_issued s') \<and> set (px_started s) \<subseteq> set (px_started s') \<and>
     (\<forall>x n. closed s x n \<longrightarrow> closed s' x n) \<and>
     (\<forall>x k w n. (x, k, w) \<in> set (px_votes s') \<and> (x, k, w) \<notin> set (px_votes s) \<and> closed s x n \<longrightarrow> n \<le> k)"

lemma ext_refl: "ext s s"
  by (auto simp: ext_def)

lemma ext_chosen: "ext s s' \<Longrightarrow> chosen s n v \<Longrightarrow> chosen s' n v"
  unfolding ext_def chosen_def by auto

lemma ext_closed: "ext s s' \<Longrightarrow> closed s x n \<Longrightarrow> closed s' x n"
  unfolding ext_def by blast

lemma ext_latest:
  assumes "ext s s'" and "\<forall>x\<in>set A. closed s x n" and "latest s A n h v"
  shows "latest s' A n h v"
proof -
  have "(x, k, w) \<in> set (px_votes s)" if "x \<in> set A" "(x, k, w) \<in> set (px_votes s')" "k < n" for x k w
    using assms(1,2) that unfolding ext_def by (meson not_le)
  then show ?thesis using assms(1,3) unfolding latest_def ext_def by blast
qed

lemma ext_safe:
  assumes "ext s s'" and "safe s n v"
  shows "safe s' n v"
proof -
  obtain A h where "majority (px_nodes s) A" "\<forall>x\<in>set A. closed s x n" "latest s A n h v"
    using assms(2) unfolding safe_def by blast
  moreover have "px_nodes s' = px_nodes s" using assms(1) by (simp add: ext_def)
  ultimately show ?thesis
    unfolding safe_def using ext_latest [OF assms(1)] ext_closed [OF assms(1)] by (intro exI [of _ A] exI [of _ h]) auto
qed

lemma ext_req: "ext s s' \<Longrightarrow> req_inv s q \<Longrightarrow> req_inv s' q"
  by (cases q) (auto simp: ext_def dest: ext_chosen [rotated])

lemma ext_phase:
  assumes "ext s s'" and "phase_inv s rd ph" and "rd_n rd \<notin> fst ` (set (px_issued s') - set (px_issued s))"
  shows "phase_inv s' rd ph"
proof (cases ph)
  case Preparing
  have "rd_n rd \<notin> fst ` set (px_issued s')" using assms(2,3) Preparing by auto
  then show ?thesis using assms Preparing ext_latest [OF assms(1)] ext_closed [OF assms(1)] by simp
next
  case Accepting
  then show ?thesis using assms(1,2) unfolding ext_def by auto
next
  case Deciding
  then show ?thesis using assms(1,2) ext_chosen by simp
qed simp_all

lemma ext_round:
  assumes "ext s s'" and "round_inv s p rd" and "\<forall>n\<in>fst ` (set (px_issued s') - set (px_issued s)). pm n \<noteq> p"
  shows "round_inv s' p rd"
proof -
  have "rd_n rd \<notin> fst ` (set (px_issued s') - set (px_issued s))" using assms(2,3) unfolding round_inv_def by blast
  then have "phase_inv s' rd (rd_phase rd)" using ext_phase [OF assms(1)] assms(2) by (simp add: round_inv_def)
  then show ?thesis using assms(1,2) by (auto simp: round_inv_def ext_def)
qed

lemma ext_promised:
  assumes "ext s s'" and "promised s x n m v"
  shows "promised s' x n m v"
proof -
  have "(x, k, w) \<in> set (px_votes s)" if "(x, k, w) \<in> set (px_votes s')" "k < n" for k w
    using assms that unfolding ext_def promised_def by (meson not_le)
  then show ?thesis using assms unfolding promised_def ext_def by blast
qed

lemma ext_resp: "ext s s' \<Longrightarrow> resp_ok s rd r \<Longrightarrow> resp_ok s' rd r"
proof (cases r)
  case (PrepareRes p)
  assume e: "ext s s'" and "resp_ok s rd r"
  then show ?thesis using PrepareRes ext_chosen [OF e] ext_promised [OF e] by (auto split: if_splits)
next
  case (AcceptRes k)
  assume "ext s s'" "resp_ok s rd r"
  then show ?thesis using AcceptRes by (auto simp: ext_def)
qed simp

lemma ext_prop:
  assumes "ext s s'" and "prop_inv s p" and "px_prop s' p = px_prop s p" and "px_replies s' p = px_replies s p"
    and "\<forall>n\<in>fst ` (set (px_issued s') - set (px_issued s)). pm n \<noteq> p"
  shows "prop_inv s' p"
proof (cases "pp_round (px_prop s p)")
  case None
  then show ?thesis using assms by (simp add: prop_inv_def)
next
  case (Some rd)
  then have "round_inv s p rd" using assms(2) by (simp add: prop_inv_def)
  from ext_round [OF assms(1) this assms(5)] show ?thesis
    using assms(2-4) Some ext_resp [OF assms(1)] by (auto simp: prop_inv_def)
qed

lemma acc_invD:
  assumes "acc_inv s x" and "instance_h (px_acc s x) < px_inst s"
  shows "\<And>k w. (x, k, w) \<in> set (px_votes s) \<Longrightarrow> k \<le> pn (n_a (px_acc s x))"
    and "pn (n_a (px_acc s x)) \<noteq> 0 \<Longrightarrow> (x, pn (n_a (px_acc s x)), v_a (px_acc s x)) \<in> set (px_votes s)"
    and "pn (n_a (px_acc s x)) \<le> pn (n_h (px_acc s x))"
  using assms by (auto simp: acc_inv_def Let_def)

lemma acc_inv_decided:
  assumes "acc_inv s x" and "px_inst s \<le> instance_h (px_acc s x)"
  shows "instance_h (px_acc s x) = px_inst s" and "\<exists>n v. vals (px_acc s x) (px_inst s) = Some v \<and> chosen s n v"
  using assms unfolding acc_inv_def Let_def by blast+

lemma acc_invI:
  assumes "instance_h a < i \<Longrightarrow>
      (\<forall>k w. (x, k, w) \<in> set (px_votes s) \<longrightarrow> k \<le> pn (n_a a)) \<and>
      (pn (n_a a) \<noteq> 0 \<longrightarrow> (x, pn (n_a a), v_a a) \<in> set (px_votes s)) \<and> pn (n_a a) \<le> pn (n_h a)"
    and "i \<le> instance_h a \<Longrightarrow> instance_h a = i \<and> (\<exists>n v. vals a i = Some v \<and> chosen s n v)"
    and "px_acc s x = a" and "px_inst s = i"
  shows "acc_inv s x"
  unfolding acc_inv_def Let_def assms(3,4) using assms(1,2) by blast

lemma ext_acc:
  assumes "ext s s'" and "acc_inv s x" and "px_acc s' x = px_acc s x"
    and "\<And>k w. (x, k, w) \<in> set (px_votes s') \<Longrightarrow> (x, k, w) \<in> set (px_votes s)"
  shows "acc_inv s' x"
proof (rule acc_invI [OF _ _ assms(3)])
  show "px_inst s' = px_inst s" using assms(1) by (simp add: ext_def)
  have sub: "set (px_votes s) \<subseteq> set (px_votes s')" using assms(1) by (simp add: ext_def)
  show "(\<forall>k w. (x, k, w) \<in> set (px_votes s') \<longrightarrow> k \<le> pn (n_a (px_acc s x))) \<and>
      (pn (n_a (px_acc s x)) \<noteq> 0 \<longrightarrow> (x, pn (n_a (px_acc s x)), v_a (px_acc s x)) \<in> set (px_votes s')) \<and>
      pn (n_a (px_acc s x)) \<le> pn (n_h (px_acc s x))"
    if u: "instance_h (px_acc s x) < px_inst s"
    using acc_invD [OF assms(2) u] assms(4) sub by blast
  show "instance_h (px_acc s x) = px_inst s \<and> (\<exists>n v. vals (px_acc s x) (px_inst s) = Some v \<and> chosen s' n v)"
    if "px_inst s \<le> instance_h (px_acc s x)"
    using acc_inv_decided [OF assms(2) that] ext_chosen [OF assms(1)] by blast
qed

lemma ext_issued:
  assumes "ext s s'" and "issued_inv s" and "px_issued s' = px_issued s"
    and "\<And>x k w. (x, k, w) \<in> set (px_votes s') \<Longrightarrow> (x, k, w) \<notin> set (px_votes s) \<Longrightarrow> \<exists>n. pn n = k \<and> (n, w) \<in> set (px_issued s)"
  shows "issued_inv s'"
proof -
  have sub: "set (px_started s) \<subseteq> set (px_started s')" using assms(1) by (simp add: ext_def)
  show ?thesis
    unfolding issued_inv_def assms(3)
  proof (intro conjI allI impI)
    fix n w assume "(n, w) \<in> set (px_issued s)"
    then show "n \<in> set (px_started s')" "w \<noteq> ''''" "safe s' (pn n) w"
      using assms(2) sub ext_safe [OF assms(1)] unfolding issued_inv_def by blast+
  next
    fix n w w' assume "(n, w) \<in> set (px_issued s) \<and> (n, w') \<in> set (px_issued s)"
    then show "w = w'" using assms(2) unfolding issued_inv_def by blast
  next
    fix x k w assume "(x, k, w) \<in> set (px_votes s')"
    then show "\<exists>n. pn n = k \<and> (n, w) \<in> set (px_issued s)"
      using assms(2,4) unfolding issued_inv_def by blast
  qed
qed


section \<open>Requests keep the invariant\<close>

lemma px_invD:
  assumes "px_inv s"
  shows "issued_inv s" and "acc_inv s x" and "prop_inv s p" and "q \<in> set (px_flight s) \<Longrightarrow> req_inv s q"
  using assms by (simp_all add: px_inv_def)

lemma set_acc_simps [simp]:
  "px_inst (set_acc x ac s) = px_inst s" "px_nodes (set_acc x ac s) = px_nodes s"
  "px_acc (set_acc x ac s) = (px_acc s)(x := ac)" "px_prop (set_acc x ac s) = px_prop s"
  "px_flight (set_acc x ac s) = px_flight s" "px_votes (set_acc x ac s) = px_votes s"
  "px_issued (set_acc x ac s) = px_issued s" "px_started (set_acc x ac s) = px_started s"
  "px_replies (set_acc x ac s) = px_replies s" "set_acc x (px_acc s x) s = s"
  by (simp_all add: set_acc_def)

lemma acc_step_ext:
  assumes "px_acc s' = (px_acc s)(x := ac)" and "px_inst s' = px_inst s" and "px_nodes s' = px_nodes s"
    and "px_issued s' = px_issued s" and "px_started s' = px_started s" and "px_votes s' = px_votes s @ new"
    and "\<And>n. closed s x n \<Longrightarrow> px_inst s \<le> instance_h ac \<or> n \<le> pn (n_h ac)"
    and "\<And>y k w n. (y, k, w) \<in> set new \<Longrightarrow> y = x \<and> (closed s x n \<longrightarrow> n \<le> k)"
  shows "ext s s'"
  unfolding ext_def
proof (intro conjI allI impI)
  fix y n assume "closed s y n"
  then show "closed s' y n" using assms(1,2,7) by (cases "y = x") (simp_all add: closed_def)
next
  fix y k w n
  assume "(y, k, w) \<in> set (px_votes s') \<and> (y, k, w) \<notin> set (px_votes s) \<and> closed s y n"
  then show "n \<le> k" using assms(6,8) by auto
qed (use assms in auto)

lemma acc_step_inv:
  assumes "px_inv s" and "ext s s'" and "px_prop s' = px_prop s" and "px_issued s' = px_issued s"
    and "px_flight s' = px_flight s" and "px_replies s' = px_replies s" and "px_acc s' = (px_acc s)(x := ac)"
    and "\<And>y k w. (y, k, w) \<in> set (px_votes s') \<Longrightarrow> (y, k, w) \<notin> set (px_votes s) \<Longrightarrow>
      y = x \<and> (\<exists>n. pn n = k \<and> (n, w) \<in> set (px_issued s))"
    and "acc_inv s' x"
  shows "px_inv s'"
  unfolding px_inv_def
proof (intro conjI allI ballI)
  show "issued_inv s'" using ext_issued [OF assms(2) px_invD(1) [OF assms(1)] assms(4)] assms(8) by blast
  show "acc_inv s' y" for y
  proof (cases "y = x")
    case False
    have "(y, k, w) \<in> set (px_votes s)" if "(y, k, w) \<in> set (px_votes s')" for k w using assms(8) that False by blast
    then show ?thesis using ext_acc [OF assms(2) px_invD(2) [OF assms(1)]] assms(7) False by simp
  qed (use assms(9) in simp)
  show "prop_inv s' p" for p
    using ext_prop [OF assms(2) px_invD(3) [OF assms(1)]] assms(3,4,6) by simp
  show "req_inv s' q" if "q \<in> set (px_flight s')" for q
    using ext_req [OF assms(2)] px_invD(4) [OF assms(1)] assms(5) that by simp
qed

lemma prepare_old:
  assumes "acc_inv s x" and "pa_instance a = px_inst s" and "px_inst s \<le> instance_h (px_acc s x)"
  shows "\<exists>n v. preparereq a (px_acc s x) =
      (\<lparr>pr_oldinstance = 1, pr_accept = 0, pr_n_a = n_a (px_acc s x), pr_v_a = v\<rparr>, px_acc s x) \<and> chosen s n v"
  using acc_inv_decided(2) [OF assms(1,3)] assms(2,3) by (auto simp: preparereq_def Let_def ac_value_def)

lemma prop_gt_le: "prop_gt a b \<Longrightarrow> pn b \<le> pn a"
  by (auto simp: prop_gt_def)

lemma prop_ge_le: "prop_ge a b \<Longrightarrow> pn b \<le> pn a"
  by (auto simp: prop_ge_def)

lemma deliver_prepare:
  assumes "px_inv s" and "req_inv s (Prepare x a)"
  shows "px_inv (snd (deliver (Prepare x a) s)) \<and> ext s (snd (deliver (Prepare x a) s))"
proof -
  let ?a = "px_acc s x"
  consider (old) "px_inst s \<le> instance_h ?a" | (new) "\<not> px_inst s \<le> instance_h ?a" "prop_gt (pa_n a) (n_h ?a)"
    | (reject) "\<not> px_inst s \<le> instance_h ?a" "\<not> prop_gt (pa_n a) (n_h ?a)" by blast
  then show ?thesis
  proof cases
    case old
    then show ?thesis using prepare_old [OF px_invD(2) [OF assms(1)]] assms ext_refl by fastforce
  next
    case new
    let ?ac = "loghigh (pa_n a) (?a\<lparr>n_h := pa_n a\<rparr>)"
    let ?s = "set_acc x ?ac s"
    have d: "snd (deliver (Prepare x a) s) = ?s" using new assms(2) by (simp add: preparereq_def Let_def)
    have e: "ext s ?s"
      by (rule acc_step_ext [where x = x and ac = ?ac and new = "[]"])
        (use new prop_gt_le [OF new(2)] in \<open>auto simp: closed_def loghigh_def\<close>)
    note h = acc_invD [OF px_invD(2) [OF assms(1)] new(1) [unfolded not_le]]
    have "acc_inv ?s x"
    proof (rule acc_invI [where a = ?ac and i = "px_inst s"])
      show "(\<forall>k w. (x, k, w) \<in> set (px_votes ?s) \<longrightarrow> k \<le> pn (n_a ?ac)) \<and>
          (pn (n_a ?ac) \<noteq> 0 \<longrightarrow> (x, pn (n_a ?ac), v_a ?ac) \<in> set (px_votes ?s)) \<and> pn (n_a ?ac) \<le> pn (n_h ?ac)"
        using h prop_gt_le [OF new(2)] assms(2) by (auto simp: loghigh_def intro: order_trans)
    qed (use new in \<open>simp_all add: loghigh_def\<close>)
    then have "px_inv ?s" using acc_step_inv [OF assms(1) e, of x ?ac] by simp
    with d e show ?thesis by simp
  next
    case reject
    then show ?thesis using assms ext_refl by (simp add: preparereq_def Let_def)
  qed
qed

lemma deliver_accept:
  assumes "px_inv s" and "numbers_ok s" and "req_inv s (Accept x a)"
  shows "px_inv (snd (deliver (Accept x a) s)) \<and> ext s (snd (deliver (Accept x a) s))"
proof -
  let ?a = "px_acc s x"
  consider (old) "px_inst s \<le> instance_h ?a" | (new) "\<not> px_inst s \<le> instance_h ?a" "prop_ge (aa_n a) (n_h ?a)"
    | (reject) "\<not> px_inst s \<le> instance_h ?a" "\<not> prop_ge (aa_n a) (n_h ?a)" by blast
  then show ?thesis
  proof cases
    case new
    let ?ac = "logprop (aa_n a) (aa_v a) (?a\<lparr>n_h := aa_n a, n_a := aa_n a, v_a := aa_v a\<rparr>)"
    let ?s = "(set_acc x ?ac s)\<lparr>px_votes := px_votes s @ [(x, pn (aa_n a), aa_v a)]\<rparr>"
    have d: "snd (deliver (Accept x a) s) = ?s" using new assms(3) by (simp add: acceptreq_def)
    have e: "ext s ?s"
      by (rule acc_step_ext [where x = x and ac = ?ac and new = "[(x, pn (aa_n a), aa_v a)]"])
        (use new prop_ge_le [OF new(2)] in \<open>auto simp: closed_def logprop_def\<close>)
    note h = acc_invD [OF px_invD(2) [OF assms(1)] new(1) [unfolded not_le]]
    have iss: "(aa_n a, aa_v a) \<in> set (px_issued s)" using assms(3) by simp
    have le: "k \<le> pn (aa_n a)" if "(x, k, w) \<in> set (px_votes s)" for k w
      using h(1) [OF that] h(3) prop_ge_le [OF new(2)] by simp
    have "acc_inv ?s x"
      by (rule acc_invI [where a = ?ac and i = "px_inst s"]) (use new le in \<open>auto simp: logprop_def\<close>)
    then have "px_inv ?s" using acc_step_inv [OF assms(1) e, of x ?ac] iss by auto
    with d e show ?thesis by simp
  qed (use assms ext_refl in \<open>simp_all add: acceptreq_def\<close>)
qed

lemma decided_inv:
  assumes "px_inv s" and "chosen s n v" and "instance_h ac = px_inst s" and "vals ac (px_inst s) = Some v"
  shows "px_inv (set_acc x ac s) \<and> ext s (set_acc x ac s)"
proof -
  have e: "ext s (set_acc x ac s)"
    by (rule acc_step_ext [where x = x and ac = ac and new = "[]"]) (simp_all add: assms(3))
  have "chosen (set_acc x ac s) n v" by (rule ext_chosen [OF e assms(2)])
  then have "acc_inv (set_acc x ac s) x"
    by (intro acc_invI [where a = ac and i = "px_inst s"]) (use assms(3,4) in auto)
  then show ?thesis using acc_step_inv [OF assms(1) e, of x ac] e by simp
qed

lemma commit_inv:
  assumes "px_inv s" and "chosen s n v"
  shows "px_inv (set_acc x (fst (commit_wo (px_inst s) v (px_acc s x))) s) \<and>
         ext s (set_acc x (fst (commit_wo (px_inst s) v (px_acc s x))) s)"
proof (cases "instance_h (px_acc s x) < px_inst s")
  case False
  then have "fst (commit_wo (px_inst s) v (px_acc s x)) = px_acc s x" by (simp add: commit_wo_def)
  then show ?thesis using assms ext_refl by simp
next
  case True
  have "instance_h (fst (commit_wo (px_inst s) v (px_acc s x))) = px_inst s"
    "vals (fst (commit_wo (px_inst s) v (px_acc s x))) (px_inst s) = Some v"
    using True by (simp_all add: commit_wo_def loginstance_def)
  then show ?thesis by (rule decided_inv [OF assms])
qed

lemma deliver_decide:
  assumes "px_inv s" and "req_inv s (Decide x a)"
  shows "px_inv (snd (deliver (Decide x a) s)) \<and> ext s (snd (deliver (Decide x a) s))"
proof (cases "px_inst s \<le> instance_h (px_acc s x)")
  case True
  then show ?thesis using assms ext_refl by (simp add: decidereq_def)
next
  case False
  then have "snd (deliver (Decide x a) s) = set_acc x (fst (commit_wo (px_inst s) (da_v a) (px_acc s x))) s"
    using assms(2) by (simp add: decidereq_def split: prod.splits)
  then show ?thesis using commit_inv [OF assms(1)] assms(2) by auto
qed

lemma deliver_inv:
  "px_inv s \<Longrightarrow> numbers_ok s \<Longrightarrow> req_inv s q \<Longrightarrow> px_inv (snd (deliver q s)) \<and> ext s (snd (deliver q s))"
  using deliver_prepare deliver_accept deliver_decide by (cases q) blast+


section \<open>Proposers keep the invariant\<close>

lemma set_round_simps [simp]:
  "px_inst (set_round p rd s) = px_inst s" "px_nodes (set_round p rd s) = px_nodes s" "px_acc (set_round p rd s) = px_acc s"
  "px_flight (set_round p rd s) = px_flight s" "px_votes (set_round p rd s) = px_votes s"
  "px_issued (set_round p rd s) = px_issued s" "px_started (set_round p rd s) = px_started s"
  "px_replies (set_round p rd s) = px_replies s"
  "px_prop (set_round p rd s) = (px_prop s)(p := (px_prop s p)\<lparr>pp_round := Some rd\<rparr>)"
  by (simp_all add: set_round_def set_prop_def)

text \<open>The parts of the invariant that do not speak of proposers or of requests in flight depend on few fields.\<close>

lemma ext_fields:
  assumes "px_inst s' = px_inst s" and "px_nodes s' = px_nodes s" and "px_acc s' = px_acc s" and "px_votes s' = px_votes s"
    and "set (px_issued s) \<subseteq> set (px_issued s')" and "set (px_started s) \<subseteq> set (px_started s')"
  shows "ext s s'"
  using assms by (auto simp: ext_def closed_def)

lemma prop_step_inv:
  assumes "px_inv s" and "ext s s'" and "px_acc s' = px_acc s" and "px_votes s' = px_votes s" and "px_issued s' = px_issued s"
    and "\<And>q. q \<noteq> p \<Longrightarrow> px_prop s' q = px_prop s q \<and> px_replies s' q = px_replies s q" and "prop_inv s' p"
    and "\<forall>q\<in>set (px_flight s'). req_inv s' q"
  shows "px_inv s'"
  unfolding px_inv_def
proof (intro conjI allI)
  show "issued_inv s'" using ext_issued [OF assms(2) px_invD(1) [OF assms(1)] assms(5)] assms(4) by auto
  show "acc_inv s' x" for x using ext_acc [OF assms(2) px_invD(2) [OF assms(1)]] assms(3,4) by simp
  show "prop_inv s' q" for q
  proof (cases "q = p")
    case False
    then show ?thesis using ext_prop [OF assms(2) px_invD(3) [OF assms(1), of q]] assms(5,6) by simp
  qed (use assms(7) in simp)
qed (use assms(8) in simp)

lemma round_inv_cong:
  assumes "px_inst s' = px_inst s" and "px_nodes s' = px_nodes s" and "px_acc s' = px_acc s" and "px_votes s' = px_votes s"
    and "px_issued s' = px_issued s" and "px_started s' = px_started s"
  shows "round_inv s' p rd = round_inv s p rd"
  using assms by (cases "rd_phase rd") (simp_all add: round_inv_def closed_def latest_def chosen_def)

text \<open>A proposer in a round, with no reply on its way to it.\<close>

definition waiting :: "pxsys \<Rightarrow> string \<Rightarrow> bool" where
  "waiting s p \<longleftrightarrow> \<not> pp_stable (px_prop s p) \<and> px_replies s p = None"

lemma waiting_simps [simp]:
  "waiting (set_round q rd s) p = waiting s p" "waiting (s\<lparr>px_flight := fl\<rparr>) p = waiting s p"
  "waiting (set_acc x ac s) p = waiting s p"
  by (simp_all add: waiting_def)

lemma set_round_inv:
  assumes "px_inv s" and "round_inv s p rd" and "waiting s p"
  shows "px_inv (set_round p rd s) \<and> ext s (set_round p rd s)"
proof -
  have e: "ext s (set_round p rd s)" by (rule ext_fields) simp_all
  have r: "round_inv (set_round p rd s) p rd" using assms(2) round_inv_cong [of "set_round p rd s" s p rd] by simp
  have "px_inv (set_round p rd s)"
    by (rule prop_step_inv [OF assms(1) e, of p])
      (use px_invD(3) [OF assms(1), of p] px_invD(4) [OF assms(1)] ext_req [OF e] r assms(3) in
        \<open>auto simp: prop_inv_def waiting_def\<close>)
  with e show ?thesis by simp
qed

lemma latest_snoc:
  assumes "latest s A n h v" and "\<And>k w. (x, k, w) \<in> set (px_votes s) \<Longrightarrow> k < n \<Longrightarrow> k \<le> m"
  shows "m \<le> h \<Longrightarrow> latest s (A @ [x]) n h v"
    and "h < m \<Longrightarrow> m < n \<Longrightarrow> (x, m, w) \<in> set (px_votes s) \<Longrightarrow> latest s (A @ [x]) n m w"
proof -
  have A: "k \<le> h" if "y \<in> set A" "(y, k, u) \<in> set (px_votes s)" "k < n" for y k u
    using assms(1) that unfolding latest_def by blast
  have all: "k \<le> max h m" if "y \<in> set (A @ [x])" "(y, k, u) \<in> set (px_votes s)" "k < n" for y k u
    using A that assms(2) by (cases "y = x") (auto simp: le_max_iff_disj)
  show "latest s (A @ [x]) n h v" if "m \<le> h"
    using assms(1) all that unfolding latest_def by (auto simp: max_absorb1)
  show "latest s (A @ [x]) n m w" if "h < m" "m < n" "(x, m, w) \<in> set (px_votes s)"
    using all that unfolding latest_def by (auto simp: max_absorb2)
qed

lemmas next_request_defs = next_request_def prepare_call_def accept_call_def decide_call_def

lemma next_request_inv:
  assumes "round_inv s p rd" and "next_request rd = Some q"
  shows "req_inv s q"
  using assms by (auto simp: next_request_defs round_inv_def split: list.splits phase.splits)

text \<open>An accepted proposal that a node reports to a round has a smaller number, since numbers differ.\<close>

lemma promise_below:
  assumes "px_inv s" and "numbers_ok s" and "instance_h (px_acc s x) < px_inst s" and "n \<in> set (px_started s)"
    and "prop_gt n (n_h (px_acc s x))" and "n \<notin> fst ` set (px_issued s)"
  shows "pn (n_a (px_acc s x)) < pn n"
proof (rule ccontr)
  let ?a = "px_acc s x"
  assume "\<not> pn (n_a ?a) < pn n"
  note h = acc_invD [OF px_invD(2) [OF assms(1)] assms(3)] and i = px_invD(1) [OF assms(1), unfolded issued_inv_def]
  have eq: "pn (n_a ?a) = pn n" using \<open>\<not> pn (n_a ?a) < pn n\<close> h(3) prop_gt_le [OF assms(5)] by simp
  moreover have "pn n \<noteq> 0" using assms(2,4) unfolding numbers_ok_def by (metis image_eqI)
  ultimately have "(x, pn n, v_a ?a) \<in> set (px_votes s)" using h(2) by simp
  then obtain m where m: "pn m = pn n" "(m, v_a ?a) \<in> set (px_issued s)" using i by blast
  then have "m = n" using same_number [OF assms(2) _ assms(4)] i by blast
  then show False using m(2) assms(6) by (metis fst_conv image_eqI)
qed

lemma prepare_served:
  assumes "px_inv s" and "numbers_ok s" and "round_inv s p rd" and "rd_phase rd = Preparing" and "rd_todo rd = x # xs"
    and "deliver (Prepare x (prepare_call rd)) s = (r, s1)"
  shows "resp_ok s1 rd r"
proof -
  let ?q = "prepare_call rd"
  let ?a = "px_acc s x"
  have q: "pa_instance ?q = px_inst s" "pa_n ?q = rd_n rd" "rd_n rd \<in> set (px_started s)" "rd_n rd \<notin> fst ` set (px_issued s)"
    using assms(3,4) by (simp_all add: round_inv_def prepare_call_def)
  have s1: "ext s s1" "px_votes s1 = px_votes s" using deliver_prepare [OF assms(1), of x ?q] assms(6) q(1-3)
    by (auto split: prod.splits)
  consider (old) "px_inst s \<le> instance_h ?a" | (new) "\<not> px_inst s \<le> instance_h ?a" "prop_gt (rd_n rd) (n_h ?a)"
    | (reject) "\<not> px_inst s \<le> instance_h ?a" "\<not> prop_gt (rd_n rd) (n_h ?a)" by blast
  then show ?thesis
  proof cases
    case old
    then obtain n v where "preparereq ?q ?a = (\<lparr>pr_oldinstance = 1, pr_accept = 0, pr_n_a = n_a ?a, pr_v_a = v\<rparr>, ?a)"
      "chosen s n v" using prepare_old [OF px_invD(2) [OF assms(1)] q(1)] by blast
    then show ?thesis using assms(6) ext_chosen [OF s1(1), of n v] by (auto intro!: exI [of _ n])
  next
    case new
    note u = new(1) [unfolded not_le]
    note h = acc_invD [OF px_invD(2) [OF assms(1)] u]
    have r: "r = PrepareRes \<lparr>pr_oldinstance = 0, pr_accept = 1, pr_n_a = n_a ?a, pr_v_a = v_a ?a\<rparr>"
      "s1 = set_acc x (loghigh (rd_n rd) (?a\<lparr>n_h := rd_n rd\<rparr>)) s"
      using assms(6) new q(1,2) by (auto simp: preparereq_def Let_def)
    have "closed s1 x (pn (rd_n rd))" by (simp add: closed_def r(2) loghigh_def)
    then have "promised s1 x (pn (rd_n rd)) (pn (n_a ?a)) (v_a ?a)"
      unfolding promised_def s1(2) using h promise_below [OF assms(1,2) u q(3) new(2) q(4)] by blast
    then show ?thesis using assms(5) by (simp add: r(1))
  next
    case reject
    then show ?thesis using assms(6) q(1,2) by (auto simp: preparereq_def Let_def)
  qed
qed

lemma served_ok:
  assumes "px_inv s" and "numbers_ok s" and "round_inv s p rd" and "next_request rd = Some q" and "deliver q s = (r, s1)"
  shows "resp_ok s1 rd r"
proof -
  from assms(4) obtain x xs where t: "rd_todo rd = x # xs" by (auto simp: next_request_def split: list.splits)
  show ?thesis
  proof (cases "rd_phase rd")
    case Preparing
    then have "q = Prepare x (prepare_call rd)" using assms(4) t by (simp add: next_request_def)
    then show ?thesis using prepare_served [OF assms(1-3) Preparing t] assms(5) by blast
  next
    case Accepting
    then show ?thesis using assms(4,5) t by (auto simp: next_request_defs split: prod.splits)
  next
    case Deciding
    then show ?thesis using assms(4,5) t by (auto simp: next_request_defs split: prod.splits)
  qed (use assms(4) t in \<open>simp_all add: next_request_def\<close>)
qed

lemma promise_reply_round:
  assumes "px_inv s" and "round_inv s p rd" and "rd_phase rd = Preparing" and "rd_todo rd = x # xs"
    and "pr_oldinstance r \<noteq> 1" and "pr_accept r = 1" and "promised s x (pn (rd_n rd)) (pn (pr_n_a r)) (pr_v_a r)"
  shows "round_inv s p (fst (prepare_reply (Some r) rd))"
proof -
  let ?m = "pn (pr_n_a r)"
  have ph: "latest s (rd_accepts rd) (pn (rd_n rd)) (rd_highest rd) (rd_v rd)"
    using assms(2,3) by (simp add: round_inv_def)
  have pr: "closed s x (pn (rd_n rd))" "?m \<noteq> 0 \<Longrightarrow> ?m < pn (rd_n rd)" "?m \<noteq> 0 \<Longrightarrow> (x, ?m, pr_v_a r) \<in> set (px_votes s)"
    and votes: "\<And>k w. (x, k, w) \<in> set (px_votes s) \<Longrightarrow> k < pn (rd_n rd) \<Longrightarrow> k \<le> ?m"
    using assms(7) unfolding promised_def by blast+
  show ?thesis
  proof (cases "?m > rd_highest rd")
    case True
    have "?m \<noteq> 0" by (rule ccontr) (use True in simp)
    note v = pr(2,3) [OF this]
    then have "pr_v_a r \<noteq> ''''" using px_invD(1) [OF assms(1)] unfolding issued_inv_def by blast
    then show ?thesis
      using True assms(2-6) pr(1) latest_snoc(2) [OF ph votes True v] by (auto simp: prepare_reply_def round_inv_def Let_def)
  next
    case False
    then show ?thesis using assms(2-6) pr(1) latest_snoc(1) [OF ph votes] by (auto simp: prepare_reply_def round_inv_def Let_def)
  qed
qed

lemma prepare_reply_inv:
  assumes "px_inv s" and "round_inv s p rd" and "rd_phase rd = Preparing" and "rd_todo rd = x # xs" and "waiting s p"
    and "resp_ok s rd (PrepareRes r)"
  shows "px_inv (handle_reply p rd (Some (PrepareRes r)) s)"
proof -
  have failed: "px_inv (set_round p (rd\<lparr>rd_phase := Failed\<rparr>) s)"
    using set_round_inv [OF assms(1), of p "rd\<lparr>rd_phase := Failed\<rparr>"] assms(2,5) by (simp add: round_inv_def)
  have i: "rd_instance rd = px_inst s" using assms(2) by (simp add: round_inv_def)
  consider (old) "pr_oldinstance r = 1" | (new) "pr_oldinstance r \<noteq> 1" "pr_accept r = 1"
    | (reject) "pr_oldinstance r \<noteq> 1" "pr_accept r \<noteq> 1" by blast
  then show ?thesis
  proof cases
    case old
    then obtain n where "chosen s n (pr_v_a r)" using assms(3,6) by auto
    then have "chosen (set_round p (rd\<lparr>rd_phase := Failed\<rparr>) s) n (pr_v_a r)" by (simp add: chosen_def)
    from commit_inv [OF failed this, of p] show ?thesis
      using old assms(3) i by (simp add: handle_reply_def prepare_reply_def commit_def)
  next
    case new
    then have "promised s x (pn (rd_n rd)) (pn (pr_n_a r)) (pr_v_a r)" using assms(3,4,6) by simp
    from set_round_inv [OF assms(1) promise_reply_round [OF assms(1-4) new this] assms(5)] show ?thesis
      using new assms(3) by (simp add: handle_reply_def prepare_reply_def Let_def)
  next
    case reject
    then show ?thesis using failed assms(3) by (simp add: handle_reply_def prepare_reply_def)
  qed
qed

lemma accept_reply_inv:
  assumes "px_inv s" and "round_inv s p rd" and "rd_phase rd = Accepting" and "rd_todo rd = x # xs" and "waiting s p"
    and "resp_ok s rd (AcceptRes n)"
  shows "px_inv (handle_reply p rd (Some (AcceptRes n)) s)"
proof -
  have "round_inv s p (accept_reply (Some n) rd)"
    using assms(2-4,6) by (auto simp: accept_reply_def round_inv_def Let_def)
  then show ?thesis using set_round_inv [OF assms(1) _ assms(5)] assms(3) by (simp add: handle_reply_def)
qed

lemma no_reply_inv:
  assumes "px_inv s" and "round_inv s p rd" and "waiting s p"
  shows "px_inv (handle_reply p rd None s)"
proof -
  have "round_inv s p (rd\<lparr>rd_todo := tl (rd_todo rd)\<rparr>)"
    using assms(2) by (cases "rd_phase rd") (simp_all add: round_inv_def)
  then show ?thesis using assms set_round_inv [OF assms(1), of p "rd\<lparr>rd_todo := tl (rd_todo rd)\<rparr>"]
    by (cases "rd_phase rd") (simp_all add: handle_reply_def prepare_reply_def accept_reply_def decide_reply_def)
qed

lemma reply_inv:
  assumes "px_inv s" and "round_inv s p rd" and "next_request rd \<noteq> None" and "waiting s p" and "resp_ok s rd r"
  shows "px_inv (handle_reply p rd (Some r) s)"
proof -
  from assms(3) obtain x xs where t: "rd_todo rd = x # xs" by (auto simp: next_request_def split: list.splits)
  have none: "handle_reply p rd (Some r) s = handle_reply p rd None s"
    if "rd_phase rd = Preparing \<Longrightarrow> \<nexists>q. r = PrepareRes q" "rd_phase rd = Accepting \<Longrightarrow> \<nexists>q. r = AcceptRes q"
    using that by (cases r; cases "rd_phase rd") (simp_all add: handle_reply_def)
  consider q where "rd_phase rd = Preparing" "r = PrepareRes q" | q where "rd_phase rd = Accepting" "r = AcceptRes q"
    | "handle_reply p rd (Some r) s = handle_reply p rd None s" using none by blast
  then show ?thesis
  proof cases
    case 1
    then show ?thesis using prepare_reply_inv [OF assms(1,2) 1(1) t assms(4)] assms(5) by simp
  next
    case 2
    then show ?thesis using accept_reply_inv [OF assms(1,2) 2(1) t assms(4)] assms(5) by simp
  next
    case 3
    then show ?thesis using no_reply_inv [OF assms(1,2,4)] by simp
  qed
qed

lemma issue_inv:
  assumes "px_inv s" and "round_inv s p rd" and "rd_phase rd = Preparing" and "majority (px_nodes s) (rd_accepts rd)"
    and "rd1 = rd\<lparr>rd_todo := rd_accepts rd, rd_accepts := [], rd_phase := Accepting\<rparr>" and "waiting s p"
  shows "px_inv ((set_round p rd1 s)\<lparr>px_issued := px_issued s @ [(rd_n rd, rd_v rd)]\<rparr>)" (is "px_inv ?s")
proof -
  note rd = assms(2) [unfolded round_inv_def assms(3) phase_inv.simps]
  have e: "ext s ?s" by (rule ext_fields) auto
  have safe: "safe s (pn (rd_n rd)) (rd_v rd)" unfolding safe_def using rd assms(4) by blast
  note old = px_invD(1) [OF assms(1), unfolded issued_inv_def]
  have new: "(rd_n rd, w) \<notin> set (px_issued s)" for w using rd by (metis fst_conv image_eqI)
  have "issued_inv ?s"
    unfolding issued_inv_def
  proof (intro conjI allI impI)
    fix n w assume "(n, w) \<in> set (px_issued ?s)"
    then consider "n = rd_n rd" "w = rd_v rd" | "(n, w) \<in> set (px_issued s)" by auto
    then have "n \<in> set (px_started s) \<and> w \<noteq> '''' \<and> safe s (pn n) w" by cases (use rd safe old in auto)
    then show "n \<in> set (px_started ?s)" "w \<noteq> ''''" "safe ?s (pn n) w" using ext_safe [OF e] by simp_all
  next
    fix n w w' assume "(n, w) \<in> set (px_issued ?s) \<and> (n, w') \<in> set (px_issued ?s)"
    then show "w = w'" using old new by auto
  next
    fix x k w assume "(x, k, w) \<in> set (px_votes ?s)"
    then show "\<exists>n. pn n = k \<and> (n, w) \<in> set (px_issued ?s)" using old by fastforce
  qed
  moreover have "acc_inv ?s x" for x using ext_acc [OF e px_invD(2) [OF assms(1)]] by simp
  moreover have "prop_inv ?s q" for q
  proof (cases "q = p")
    case True
    have "round_inv ?s p rd1" using rd by (simp add: assms(5) round_inv_def)
    then show ?thesis using True px_invD(3) [OF assms(1), of p] assms(6) by (simp add: prop_inv_def waiting_def)
  next
    case False
    then have "\<forall>n\<in>fst ` (set (px_issued ?s) - set (px_issued s)). pm n \<noteq> q" using rd by auto
    then show ?thesis using False ext_prop [OF e px_invD(3) [OF assms(1), of q]] by simp
  qed
  moreover have "\<forall>q\<in>set (px_flight ?s). req_inv ?s q" using ext_req [OF e] px_invD(4) [OF assms(1)] by simp
  ultimately show ?thesis by (simp add: px_inv_def)
qed

lemma run_end_inv:
  assumes "px_inv s" and "waiting s p"
  shows "px_inv (set_prop p (fst (run_end (px_prop s p) rd)) s)"
proof (rule prop_step_inv [OF assms(1), of _ p])
  let ?s = "set_prop p (fst (run_end (px_prop s p) rd)) s"
  show e: "ext s ?s" by (rule ext_fields) (simp_all add: set_prop_def)
  show "prop_inv ?s p" using px_invD(3) [OF assms(1), of p] assms(2)
    by (simp add: prop_inv_def set_prop_def run_end_def waiting_def)
  show "\<forall>q\<in>set (px_flight ?s). req_inv ?s q" using ext_req [OF e] px_invD(4) [OF assms(1)] by (simp add: set_prop_def)
qed (simp_all add: set_prop_def)

lemma turn_inv:
  assumes "px_inv s" and "round_inv s p rd" and "waiting s p"
  shows "px_inv (turn p rd s)"
proof (cases "rd_phase rd")
  case Preparing
  have v: "length (rd_v rd) \<noteq> 0" "rd_cnodes rd = px_nodes s" using assms(2) Preparing by (simp_all add: round_inv_def)
  have failed: "px_inv (set_round p (rd\<lparr>rd_phase := Failed\<rparr>) s)" "px_inv (set_round p (rd\<lparr>rd_phase := Exited\<rparr>) s)"
    using set_round_inv [OF assms(1), of p "rd\<lparr>rd_phase := Failed\<rparr>"] set_round_inv [OF assms(1), of p "rd\<lparr>rd_phase := Exited\<rparr>"]
      assms(2,3) by (simp_all add: round_inv_def)
  show ?thesis
  proof (cases "majority (px_nodes s) (rd_accepts rd)")
    case True
    then show ?thesis using issue_inv [OF assms(1,2) Preparing True refl assms(3)] failed v Preparing
      by (simp add: turn_def prepare_end_def Let_def)
  next
    case False
    then show ?thesis using failed v Preparing by (simp add: turn_def prepare_end_def Let_def)
  qed
next
  case Accepting
  have "chosen s (pn (rd_n rd)) (rd_v rd)" if "majority (px_nodes s) (rd_accepts rd)"
    using that assms(2) Accepting by (auto simp: round_inv_def chosen_def)
  then have "round_inv s p (accept_end (pp_break2 (px_prop s p)) rd)"
    using assms(2) Accepting by (auto simp: accept_end_def round_inv_def)
  then show ?thesis using set_round_inv [OF assms(1) _ assms(3)] Accepting by (simp add: turn_def)
qed (use run_end_inv [OF assms(1,3)] assms(1) in \<open>simp_all add: turn_def\<close>)

lemma px_start_inv:
  assumes "px_inv s" and "v \<noteq> ''''" and "numbers_ok (px_exec (Run p v) s)"
  shows "px_inv (px_exec (Run p v) s)"
proof (cases "pp_stable (px_prop s p)")
  case True
  let ?s = "px_exec (Run p v) s"
  let ?pr = "run_start (px_inst s) (px_nodes s) v (px_acc s p) (px_prop s p)"
  let ?n = "pp_my_n ?pr"
  have s: "?s = (set_prop p ?pr s)\<lparr>px_started := px_started s @ [?n]\<rparr>" using True by (simp add: Let_def)
  have me: "pp_me (px_prop s p) = p" "px_replies s p = None"
    using px_invD(3) [OF assms(1), of p] True by (simp_all add: prop_inv_def split: option.splits)
  have e: "ext s ?s" unfolding s by (rule ext_fields) (auto simp: set_prop_def)
  have "pn ?n \<notin> pn ` set (px_started s)" using assms(3) unfolding s numbers_ok_def by auto
  then have "?n \<notin> set (px_started s)" by blast
  then have "?n \<notin> fst ` set (px_issued s)" using px_invD(1) [OF assms(1)] unfolding issued_inv_def by fastforce
  then have "round_inv ?s p (the (pp_round ?pr))" "pp_round ?pr \<noteq> None" "pp_me ?pr = p" "\<not> pp_stable ?pr"
    using True assms(2) me unfolding s by (auto simp: run_start_def setn_def round_inv_def latest_def Let_def set_prop_def)
  then have "prop_inv ?s p" using me(2) unfolding s by (auto simp: prop_inv_def set_prop_def)
  then show ?thesis
    unfolding s by (intro prop_step_inv [OF assms(1) e [unfolded s], of p])
      (use ext_req [OF e [unfolded s]] px_invD(4) [OF assms(1)] in \<open>simp_all add: set_prop_def\<close>)
qed (use assms(1) in simp)

lemma deliver_fields [simp]:
  "px_prop (snd (deliver q s)) = px_prop s" "px_replies (snd (deliver q s)) = px_replies s"
  "px_issued (snd (deliver q s)) = px_issued s" "px_started (snd (deliver q s)) = px_started s"
  "px_inst (snd (deliver q s)) = px_inst s"
  by (cases q; simp split: prod.splits)+

lemma in_roundD:
  assumes "px_inv s" and "pp_round (px_prop s p) = Some rd"
  shows "round_inv s p rd" and "\<not> pp_stable (px_prop s p)"
    and "px_replies s p = Some r \<Longrightarrow> next_request rd \<noteq> None \<and> resp_ok s rd r"
  using px_invD(3) [OF assms(1), of p] assms(2) by (auto simp: prop_inv_def)

lemma serve_inv:
  assumes "px_inv s" and "numbers_ok s"
  shows "px_inv (px_exec (Serve p) s)"
proof (cases "pp_round (px_prop s p)")
  case (Some rd)
  note rd = in_roundD [OF assms(1) Some]
  show ?thesis
  proof (cases "next_request rd")
    case req: (Some q)
    obtain r s1 where d: "deliver q s = (r, s1)" by fastforce
    have s1: "px_inv s1" "ext s s1" using deliver_inv [OF assms next_request_inv [OF rd(1) req]] d by simp_all
    have f: "px_prop s1 = px_prop s" "px_replies s1 = px_replies s" "px_issued s1 = px_issued s"
      using deliver_fields [of q s] d by simp_all
    let ?s = "s1\<lparr>px_replies := (px_replies s1)(p \<mapsto> r)\<rparr>"
    have e: "ext s1 ?s" by (rule ext_fields) simp_all
    have "round_inv ?s p rd" using ext_round [OF e ext_round [OF s1(2) rd(1)]] f(3) by simp
    moreover have "resp_ok ?s rd r" by (rule ext_resp [OF e served_ok [OF assms rd(1) req d]])
    ultimately have "prop_inv ?s p" using rd(2) Some req f px_invD(3) [OF assms(1), of p] by (simp add: prop_inv_def)
    then have "px_inv ?s"
      by (intro prop_step_inv [OF s1(1) e, of p]) (use ext_req [OF e] px_invD(4) [OF s1(1)] in auto)
    then show ?thesis using assms(1) Some req d by simp
  qed (use assms(1) Some in simp)
qed (use assms(1) in simp)

lemma rpc_inv:
  assumes "px_inv s"
  shows "px_inv (px_exec (Rpc p ok) s)"
proof (cases "pp_round (px_prop s p)")
  case (Some rd)
  note rd = in_roundD [OF assms(1) Some]
  show ?thesis
  proof (cases "next_request rd")
    case req: (Some q)
    let ?lost = "s\<lparr>px_flight := px_flight s @ [q]\<rparr>" and ?got = "s\<lparr>px_replies := (px_replies s)(p := None)\<rparr>"
    have e: "ext s ?lost" "ext s ?got" by (rule ext_fields; simp)+
    have r: "round_inv ?lost p rd" "round_inv ?got p rd" using ext_round [OF e(1) rd(1)] ext_round [OF e(2) rd(1)] by simp_all
    have "prop_inv ?lost p" using ext_prop [OF e(1) px_invD(3) [OF assms(1)], of p] by simp
    then have lost: "px_inv ?lost"
      by (rule prop_step_inv [OF assms(1) e(1), of p, rotated 4])
        (use px_invD(4) [OF assms(1)] next_request_inv [OF rd(1) req] ext_req [OF e(1)] in auto)
    have "prop_inv ?got p" using r(2) rd(2) Some px_invD(3) [OF assms(1), of p] by (simp add: prop_inv_def)
    then have got: "px_inv ?got"
      by (rule prop_step_inv [OF assms(1) e(2), of p, rotated 4])
        (use px_invD(4) [OF assms(1)] ext_req [OF e(2)] in auto)
    have w: "waiting ?got p" using rd(2) by (simp add: waiting_def)
    show ?thesis
    proof (cases "px_replies s p")
      case None
      then have "waiting ?lost p" using rd(2) by (simp add: waiting_def)
      then show ?thesis using no_reply_inv [OF lost r(1)] assms(1) Some req None by simp
    next
      case rep: (Some a)
      have "resp_ok ?got rd a" using ext_resp [OF e(2)] rd(3) [OF rep] by blast
      then show ?thesis using reply_inv [OF got r(2) _ w] no_reply_inv [OF got r(2) w] Some req rep by simp
    qed
  qed (use assms(1) Some in simp)
qed (use assms(1) in simp)

lemma px_exec_inv:
  assumes "px_inv s" and "event_ok ev" and "numbers_ok s" and "numbers_ok (px_exec ev s)"
  shows "px_inv (px_exec ev s)"
proof (cases ev)
  case (Run p v)
  then show ?thesis using px_start_inv [OF assms(1)] assms(2,4) by simp
next
  case (Serve p)
  then show ?thesis using serve_inv [OF assms(1,3)] by simp
next
  case (Rpc p ok)
  then show ?thesis using rpc_inv [OF assms(1)] by simp
next
  case (Turn p)
  show ?thesis
  proof (cases "pp_round (px_prop s p)")
    case (Some rd)
    note rd = in_roundD [OF assms(1) Some]
    have "waiting s p" if "rd_todo rd = [] \<or> rd_phase rd = Failed"
    proof -
      have "next_request rd = None" using that by (auto simp: next_request_def split: list.splits)
      then show ?thesis using rd(2,3) by (cases "px_replies s p") (auto simp: waiting_def)
    qed
    then show ?thesis using turn_inv [OF assms(1) rd(1)] assms(1) Turn Some by simp
  qed (use assms(1) Turn in simp)
next
  case (Late k)
  show ?thesis
  proof (cases "k < length (px_flight s)")
    case True
    let ?s = "s\<lparr>px_flight := take k (px_flight s) @ drop (Suc k) (px_flight s)\<rparr>"
    have e: "ext s ?s" by (rule ext_fields) simp_all
    have sub: "set (px_flight ?s) \<subseteq> set (px_flight s)" using set_take_subset set_drop_subset by fastforce
    have "px_inv ?s"
      by (rule prop_step_inv [OF assms(1) e])
        (use px_invD(4) [OF assms(1)] sub ext_req [OF e] ext_prop [OF e px_invD(3) [OF assms(1)]] in auto)
    moreover have "req_inv ?s (px_flight s ! k)" using ext_req [OF e] px_invD(4) [OF assms(1)] True by simp
    moreover have "numbers_ok ?s" using assms(3) by (simp add: numbers_ok_def)
    ultimately show ?thesis using deliver_inv [of ?s] True Late by simp
  qed (use assms(1) Late in simp)
qed


section \<open>Agreement\<close>



lemma handle_reply_started [simp]: "px_started (handle_reply p rd r s) = px_started s" "px_inst (handle_reply p rd r s) = px_inst s"
  by (auto simp: handle_reply_def Let_def split: phase.splits prod.splits option.splits)

lemma turn_started [simp]: "px_started (turn p rd s) = px_started s" "px_inst (turn p rd s) = px_inst s"
  by (auto simp: turn_def Let_def set_prop_def split: phase.splits)

lemma exec_started: "\<exists>l. px_started (px_exec ev s) = px_started s @ l" "px_inst (px_exec ev s) = px_inst s"
proof -
  have d: "deliver q s = (r, s1) \<Longrightarrow> px_started s1 = px_started s \<and> px_inst s1 = px_inst s" for q r s1
    using deliver_fields [of q s] by simp
  show "\<exists>l. px_started (px_exec ev s) = px_started s @ l" "px_inst (px_exec ev s) = px_inst s"
    by (cases ev; auto simp: Let_def set_prop_def dest!: d split: option.splits prod.splits)+
qed

lemma run_started: "\<exists>l. px_started (px_run es s) = px_started s @ l"
  by (induction es arbitrary: s) (simp, metis append_assoc exec_started(1) px_run.simps(2))

lemma run_inst: "px_inst (px_run es s) = px_inst s"
  by (induction es arbitrary: s) (simp_all add: exec_started(2))

lemma numbers_ok_prefix: "numbers_ok s' \<Longrightarrow> px_started s' = px_started s @ l \<Longrightarrow> numbers_ok s"
  by (auto simp: numbers_ok_def)

lemma run_inv_all:
  "px_inv s \<Longrightarrow> list_all event_ok es \<Longrightarrow> numbers_ok (px_run es s) \<Longrightarrow> px_inv (px_run es s)"
proof (induction es arbitrary: s)
  case (Cons ev es)
  have n1: "numbers_ok (px_exec ev s)" using Cons.prems(3) run_started [of es "px_exec ev s"] numbers_ok_prefix by fastforce
  then have "numbers_ok s" using exec_started(1) [of ev s] numbers_ok_prefix by blast
  then have "px_inv (px_exec ev s)" using px_exec_inv Cons.prems(1,2) n1 by simp
  then show ?case using Cons by simp
qed simp

lemma px_new_inv: "\<forall>x. fresh_for i (acc x) \<Longrightarrow> px_inv (px_new i nodes acc junk)"
  by (simp add: px_inv_def issued_inv_def acc_inv_def prop_inv_def px_new_def fresh_for_def proposer_new_def not_le [symmetric] Let_def)

text \<open>A node that learns the decision of an instance is fresh for every later one, whatever it held before.\<close>

lemma commit_fresh: "instance_h a < j \<Longrightarrow> j < i \<Longrightarrow> fresh_for i (fst (commit_wo j v a))"
  by (simp add: commit_wo_def loginstance_def fresh_for_def)


definition quiet_run :: "pxevent list" where
  "quiet_run =
     [Run ''a'' ''x'', Serve ''a'', Rpc ''a'' True, Serve ''a'', Rpc ''a'' True, Rpc ''a'' False, Turn ''a'',
      Serve ''a'', Rpc ''a'' True, Serve ''a'', Rpc ''a'' True, Turn ''a'',
      Serve ''a'', Rpc ''a'' True, Serve ''a'', Rpc ''a'' True, Turn ''a'', Late 0,
      Run ''c'' ''z'', Serve ''c'', Rpc ''c'' True, Turn ''c'']"


end
