(* ===== verification/Handle.thy ===== *)
theory Handle
  imports Prelude "HOL-Library.Monad_Syntax" "HOL-Library.Multiset"
begin

text \<open>
  \<^verbatim>\<open>handle.h\<close> and \<^verbatim>\<open>handle.cc\<close>: the shared table of RPC clients, one for each remote node, with the number of
  handles in use. A client is deleted only when its last handle is given back. The lemmas show that
  for any sequence of requests every handle in use refers to a live client.
\<close>

section \<open>The table\<close>

record hinfo =
  hi_cl :: nat
  hi_refcnt :: int
  hi_del :: bool

text \<open>
  Clients are numbered by their creation and \<open>hm_live\<close> lists those not deleted. A pointer into the
  table is the name of the entry; \<^const>\<open>None\<close> is the use of an erased entry or of a deleted client.
\<close>

record handle_mgr =
  hm_map :: "string \<rightharpoonup> hinfo"
  hm_live :: "nat list"
  hm_next :: nat

definition handle_mgr_new :: handle_mgr where
  "handle_mgr_new = \<lparr>hm_map = Map.empty, hm_live = [], hm_next = 0\<rparr>"

text \<open>\<open>ret\<close> is the status of \<^verbatim>\<open>bind\<close>. A client that could not bind is neither entered nor deleted.\<close>

definition get_handle :: "int \<Rightarrow> string \<Rightarrow> handle_mgr \<Rightarrow> string option \<times> handle_mgr" where
  "get_handle ret m st =
     (case hm_map st m of
        None \<Rightarrow>
          (let cl = hm_next st; st1 = st\<lparr>hm_live := cl # hm_live st, hm_next := hm_next st + 1\<rparr>
           in if ret < 0 then (None, st1)
              else (Some m, st1\<lparr>hm_map := (hm_map st)(m \<mapsto> \<lparr>hi_cl = cl, hi_refcnt = 1, hi_del = False\<rparr>)\<rparr>))
      | Some h \<Rightarrow>
          if \<not> hi_del h then (Some m, st\<lparr>hm_map := (hm_map st)(m \<mapsto> h\<lparr>hi_refcnt := hi_refcnt h + 1\<rparr>)\<rparr>)
          else (None, st))"

definition delete_handle_wo :: "string \<Rightarrow> handle_mgr \<Rightarrow> handle_mgr option" where
  "delete_handle_wo m st =
     (case hm_map st m of
        None \<Rightarrow> Some st
      | Some h \<Rightarrow>
          if hi_refcnt h = 0
          then if hi_cl h \<in> set (hm_live st)
               then Some (st\<lparr>hm_live := removeAll (hi_cl h) (hm_live st), hm_map := (hm_map st)(m := None)\<rparr>)
               else None
          else Some (st\<lparr>hm_map := (hm_map st)(m \<mapsto> h\<lparr>hi_del := True\<rparr>)\<rparr>))"

definition delete_handle :: "string \<Rightarrow> handle_mgr \<Rightarrow> handle_mgr option" where
  "delete_handle m st = delete_handle_wo m st"

definition done_handle :: "string \<Rightarrow> handle_mgr \<Rightarrow> handle_mgr option" where
  "done_handle m st =
     do { h \<leftarrow> hm_map st m;
          let h1 = h\<lparr>hi_refcnt := hi_refcnt h - 1\<rparr>;
          let st1 = st\<lparr>hm_map := (hm_map st)(m \<mapsto> h1)\<rparr>;
          if hi_refcnt h1 \<le> 0 \<and> hi_del h1 then delete_handle_wo m st1 else Some st1 }"

text \<open>\<^verbatim>\<open>handle::get_rpcc\<close> of a handle that is not null.\<close>

definition get_rpcc :: "string \<Rightarrow> handle_mgr \<Rightarrow> nat option" where
  "get_rpcc m st = do { h \<leftarrow> hm_map st m; if hi_cl h \<in> set (hm_live st) then Some (hi_cl h) else None }"

section \<open>Handles in use\<close>

datatype handle_ev = Get int string | Done nat | Delete string

fun handle_step :: "handle_ev \<Rightarrow> string list \<times> handle_mgr \<Rightarrow> (string list \<times> handle_mgr) option" where
  "handle_step (Get ret m) (hs, st) =
     (case get_handle ret m st of (None, st1) \<Rightarrow> Some (hs, st1) | (Some h, st1) \<Rightarrow> Some (h # hs, st1))"
| "handle_step (Done i) (hs, st) =
     (if i < length hs then do { st1 \<leftarrow> done_handle (hs ! i) st; Some (erase i hs, st1) } else Some (hs, st))"
| "handle_step (Delete m) (hs, st) = do { st1 \<leftarrow> delete_handle m st; Some (hs, st1) }"

fun handle_run :: "handle_ev list \<Rightarrow> string list \<times> handle_mgr \<Rightarrow> (string list \<times> handle_mgr) option" where
  "handle_run [] s = Some s"
| "handle_run (e # es) s = do { s1 \<leftarrow> handle_step e s; handle_run es s1 }"

text \<open>The invariant of one entry, for \<open>n\<close> handles in use.\<close>

definition entry_ok :: "nat \<Rightarrow> handle_mgr \<Rightarrow> hinfo option \<Rightarrow> bool" where
  "entry_ok n st x =
     (case x of
        None \<Rightarrow> n = 0
      | Some h \<Rightarrow> hi_refcnt h = int n \<and> hi_cl h \<in> set (hm_live st) \<and> (hi_del h \<longrightarrow> 0 < n))"

text \<open>No two entries share a client.\<close>

definition own_clients :: "(string \<rightharpoonup> hinfo) \<Rightarrow> bool" where
  "own_clients mp \<longleftrightarrow> (\<forall>m m' h h'. mp m = Some h \<longrightarrow> mp m' = Some h' \<longrightarrow> hi_cl h = hi_cl h' \<longrightarrow> m = m')"

lemma own_clientsD: "own_clients mp \<Longrightarrow> mp m = Some h \<Longrightarrow> mp m' = Some h' \<Longrightarrow> hi_cl h = hi_cl h' \<Longrightarrow> m = m'"
  unfolding own_clients_def by blast

lemma own_clients_upd:
  assumes own: "own_clients mp" and k: "\<And>m' g. mp m' = Some g \<Longrightarrow> hi_cl g = hi_cl k \<Longrightarrow> m' = m"
  shows "own_clients (mp(m \<mapsto> k))"
  unfolding own_clients_def
proof (intro allI impI)
  fix n n' g g'
  assume a: "(mp(m \<mapsto> k)) n = Some g" "(mp(m \<mapsto> k)) n' = Some g'" "hi_cl g = hi_cl g'"
  show "n = n'"
  proof (cases "n = m")
    case True
    then show ?thesis using a k [of n' g'] by (cases "n' = m") simp_all
  next
    case n: False
    show ?thesis
    proof (cases "n' = m")
      case True
      then show ?thesis using a n k [of n g] by simp
    next
      case False
      then show ?thesis using a n own_clientsD [OF own, of n g n' g'] by simp
    qed
  qed
qed

lemma own_clients_del: "own_clients mp \<Longrightarrow> own_clients (mp(m := None))"
  unfolding own_clients_def by (simp split: if_splits)

definition handles_inv :: "string multiset \<Rightarrow> handle_mgr \<Rightarrow> bool" where
  "handles_inv H st \<longleftrightarrow>
     (\<forall>m. entry_ok (count H m) st (hm_map st m)) \<and> (\<forall>c\<in>set (hm_live st). c < hm_next st) \<and>
     own_clients (hm_map st)"

lemma handles_invD:
  assumes "handles_inv H st"
  shows "entry_ok (count H m) st (hm_map st m)" "c \<in> set (hm_live st) \<Longrightarrow> c < hm_next st" "own_clients (hm_map st)"
  using assms unfolding handles_inv_def by blast+

lemma handles_invI:
  assumes "\<And>m. entry_ok (count H m) st (hm_map st m)" "\<And>c. c \<in> set (hm_live st) \<Longrightarrow> c < hm_next st" "own_clients (hm_map st)"
  shows "handles_inv H st"
  using assms unfolding handles_inv_def by blast

text \<open>A change of one entry that keeps its client.\<close>

lemma handles_inv_upd:
  assumes inv: "handles_inv H st" and h: "hm_map st m = Some h"
    and k: "hi_cl k = hi_cl h" "hi_refcnt k = int (count H' m)" "hi_del k \<longrightarrow> 0 < count H' m"
    and o: "\<And>m'. m' \<noteq> m \<Longrightarrow> count H' m' = count H m'"
  shows "handles_inv H' (st\<lparr>hm_map := (hm_map st)(m \<mapsto> k)\<rparr>)"
proof -
  let ?st = "st\<lparr>hm_map := (hm_map st)(m \<mapsto> k)\<rparr>"
  have "entry_ok (count H' m') ?st (hm_map ?st m')" for m'
  proof (cases "m' = m")
    case True
    then show ?thesis using handles_invD(1) [OF inv, of m] h k by (simp add: entry_ok_def)
  next
    case False
    then show ?thesis using handles_invD(1) [OF inv, of m'] o [OF False] by (simp add: entry_ok_def split: option.splits)
  qed
  moreover have "own_clients (hm_map ?st)"
    using own_clients_upd [OF handles_invD(3) [OF inv], of k m] own_clientsD [OF handles_invD(3) [OF inv] _ h] k(1)
    by simp
  ultimately show ?thesis using handles_invD(2) [OF inv] by (intro handles_invI) simp_all
qed

lemma handles_inv_erase:
  assumes inv: "handles_inv H st" and h: "hm_map st m = Some h" and n: "count H' m = 0"
    and o: "\<And>m'. m' \<noteq> m \<Longrightarrow> count H' m' = count H m'"
  shows "handles_inv H' (st\<lparr>hm_live := removeAll (hi_cl h) (hm_live st), hm_map := (hm_map st)(m := None)\<rparr>)"
proof -
  let ?st = "st\<lparr>hm_live := removeAll (hi_cl h) (hm_live st), hm_map := (hm_map st)(m := None)\<rparr>"
  have "entry_ok (count H' m') ?st (hm_map ?st m')" for m'
  proof (cases "m' = m")
    case False
    then have "hi_cl g \<noteq> hi_cl h" if "hm_map st m' = Some g" for g using own_clientsD [OF handles_invD(3) [OF inv] that h] by blast
    then show ?thesis using handles_invD(1) [OF inv, of m'] False o [OF False]
      by (auto simp: entry_ok_def split: option.splits)
  qed (simp add: entry_ok_def n)
  then show ?thesis using handles_invD(2) [OF inv] own_clients_del [OF handles_invD(3) [OF inv]]
    by (intro handles_invI) simp_all
qed

lemma delete_handle_inv:
  assumes inv: "handles_inv H st"
  shows "\<exists>st'. delete_handle_wo m st = Some st' \<and> handles_inv H st'"
proof (cases "hm_map st m")
  case (Some h)
  define n where "n = count H m"
  have e: "hi_refcnt h = int n" "hi_cl h \<in> set (hm_live st)"
    using handles_invD(1) [OF inv, of m] Some by (simp_all add: entry_ok_def n_def)
  show ?thesis
  proof (cases "n = 0")
    case True
    then show ?thesis using Some e handles_inv_erase [OF inv Some, of H] by (simp add: delete_handle_wo_def n_def)
  next
    case False
    then have "delete_handle_wo m st = Some (st\<lparr>hm_map := (hm_map st)(m \<mapsto> h\<lparr>hi_del := True\<rparr>)\<rparr>)"
      using Some e(1) by (simp add: delete_handle_wo_def)
    then show ?thesis using e(1) False unfolding n_def using handles_inv_upd [OF inv Some, of "h\<lparr>hi_del := True\<rparr>" H] by simp
  qed
qed (use inv in \<open>simp add: delete_handle_wo_def\<close>)

lemma done_handle_inv:
  assumes inv: "handles_inv (add_mset m H) st"
  shows "\<exists>st'. done_handle m st = Some st' \<and> handles_inv H st'"
proof -
  define n where "n = count H m"
  obtain h where h: "hm_map st m = Some h" "hi_refcnt h = int n + 1" "hi_cl h \<in> set (hm_live st)"
    using handles_invD(1) [OF inv, of m] by (auto simp: entry_ok_def n_def split: option.splits)
  let ?h = "h\<lparr>hi_refcnt := hi_refcnt h - 1\<rparr>"
  show ?thesis
  proof (cases "n = 0 \<and> hi_del h")
    case True
    have "handles_inv H (st\<lparr>hm_live := removeAll (hi_cl h) (hm_live st), hm_map := (hm_map st)(m := None)\<rparr>)"
      by (rule handles_inv_erase [OF inv h(1)]) (use True n_def in simp_all)
    then show ?thesis using h True by (simp add: done_handle_def delete_handle_wo_def Let_def)
  next
    case False
    then have "done_handle m st = Some (st\<lparr>hm_map := (hm_map st)(m \<mapsto> ?h)\<rparr>)"
      using h by (auto simp: done_handle_def Let_def)
    moreover have "handles_inv H (st\<lparr>hm_map := (hm_map st)(m \<mapsto> ?h)\<rparr>)"
      by (rule handles_inv_upd [OF inv h(1)]) (use h(2) False in \<open>auto simp: n_def\<close>)
    ultimately show ?thesis by blast
  qed
qed

lemma get_handle_inv:
  assumes inv: "handles_inv H st"
  shows "case get_handle ret m st of (None, st') \<Rightarrow> handles_inv H st' | (Some h, st') \<Rightarrow> handles_inv (add_mset h H) st'"
proof (cases "hm_map st m")
  case (Some h)
  have "hi_refcnt h = int (count H m)" using handles_invD(1) [OF inv, of m] Some by (simp add: entry_ok_def)
  then have "handles_inv (add_mset m H) (st\<lparr>hm_map := (hm_map st)(m \<mapsto> h\<lparr>hi_refcnt := hi_refcnt h + 1\<rparr>)\<rparr>)"
    by (intro handles_inv_upd [OF inv Some]) simp_all
  then show ?thesis using Some inv by (simp add: get_handle_def)
next
  case None
  let ?cl = "hm_next st"
  let ?st1 = "st\<lparr>hm_live := ?cl # hm_live st, hm_next := ?cl + 1\<rparr>"
  have i1: "handles_inv H ?st1"
  proof -
    have "entry_ok (count H m') ?st1 (hm_map ?st1 m')" for m'
      using handles_invD(1) [OF inv, of m'] by (auto simp: entry_ok_def split: option.splits)
    moreover have "c < hm_next ?st1" if "c \<in> set (hm_live ?st1)" for c
      using that handles_invD(2) [OF inv, of c] by auto
    ultimately show ?thesis using handles_invD(3) [OF inv] by (intro handles_invI) simp_all
  qed
  have fresh: "hi_cl g \<noteq> ?cl" if "hm_map st m' = Some g" for m' g
    using handles_invD(1) [OF inv, of m'] handles_invD(2) [OF inv, of "hi_cl g"] that by (auto simp: entry_ok_def)
  let ?k = "\<lparr>hi_cl = ?cl, hi_refcnt = 1, hi_del = False\<rparr>"
  let ?st2 = "?st1\<lparr>hm_map := (hm_map st)(m \<mapsto> ?k)\<rparr>"
  have "count H m = 0" using handles_invD(1) [OF inv, of m] None by (simp add: entry_ok_def)
  then have "entry_ok (count (add_mset m H) m') ?st2 (hm_map ?st2 m')" for m'
    using handles_invD(1) [OF i1, of m'] by (cases "m' = m") (auto simp: entry_ok_def split: option.splits)
  moreover have "own_clients (hm_map ?st2)"
    using own_clients_upd [OF handles_invD(3) [OF inv], of ?k m] fresh by simp
  ultimately have "handles_inv (add_mset m H) ?st2" using handles_invD(2) [OF i1] by (intro handles_invI) simp_all
  then show ?thesis using None i1 by (simp add: get_handle_def Let_def)
qed

lemma handle_step_inv:
  assumes inv: "handles_inv (mset hs) st"
  shows "\<exists>hs' st'. handle_step e (hs, st) = Some (hs', st') \<and> handles_inv (mset hs') st'"
proof (cases e)
  case (Get ret m)
  then show ?thesis using get_handle_inv [OF inv, of ret m] by (auto split: prod.splits option.splits)
next
  case (Done i)
  show ?thesis
  proof (cases "i < length hs")
    case True
    have "mset hs = add_mset (hs ! i) (mset (erase i hs))"
      by (subst id_take_nth_drop [OF True]) (simp add: erase_def)
    then show ?thesis using done_handle_inv [of "hs ! i" "mset (erase i hs)" st] inv Done True by auto
  qed (use Done inv in simp)
next
  case (Delete m)
  then show ?thesis using delete_handle_inv [OF inv, of m] by (auto simp: delete_handle_def)
qed

text \<open>
  No sequence of requests uses an erased entry or a deleted client, and every handle in use still has
  its client.
\<close>

lemma handles_safe:
  "\<exists>hs st. handle_run es ([], handle_mgr_new) = Some (hs, st) \<and> (\<forall>m\<in>set hs. get_rpcc m st \<noteq> None)"
proof -
  have run: "handles_inv (mset hs) st \<Longrightarrow> \<exists>hs' st'. handle_run es (hs, st) = Some (hs', st') \<and> handles_inv (mset hs') st'"
    for hs st
  proof (induction es arbitrary: hs st)
    case (Cons e es)
    obtain hs1 st1 where "handle_step e (hs, st) = Some (hs1, st1)" "handles_inv (mset hs1) st1"
      using handle_step_inv [OF Cons.prems] by blast
    then show ?case using Cons.IH [of hs1 st1] by simp
  qed simp
  have "handles_inv (mset []) handle_mgr_new" by (simp add: handles_inv_def handle_mgr_new_def entry_ok_def own_clients_def)
  from run [OF this] obtain hs st where r: "handle_run es ([], handle_mgr_new) = Some (hs, st)" "handles_inv (mset hs) st"
    by blast
  have "get_rpcc m st \<noteq> None" if "m \<in> set hs" for m
    using handles_invD(1) [OF r(2), of m] that by (auto simp: entry_ok_def get_rpcc_def split: option.splits)
  then show ?thesis using r(1) by blast
qed

end
