(* ===== verification/Config.thy ===== *)
theory Config
  imports Paxos Handle
begin

text \<open>
  \<^verbatim>\<open>config.h\<close> and \<^verbatim>\<open>config.cc\<close>: the sequence of views. A view is a value decided by Paxos, the members
  separated by blanks; a change of membership proposes the current view with one node more or less as
  the next instance. The lemmas show that a view is read back as it was proposed, and what a node
  believes about its view after a commit and after a restart.
\<close>

section \<open>State and views\<close>

datatype heartbeat_t = HB_OK | HB_VIEWERR | HB_FAILURE

abbreviation (input) paxos_OK :: int where "paxos_OK \<equiv> 0"
abbreviation (input) paxos_ERR :: int where "paxos_ERR \<equiv> 1"

record config =
  cf_acc :: acceptor
  cf_pro :: proposer
  cf_myvid :: u32
  cf_first :: string
  cf_me :: string
  cf_vc :: bool
  cf_mems :: "string list"
  cf_mgr :: handle_mgr

function members_loop :: "istream \<Rightarrow> string list" where
  "members_loop ist =
     (let (ist1, m) = get_token ist '''' in if is_fail ist1 then [] else m # members_loop ist1)"
  by pat_completeness auto
termination
proof (relation "measure (\<lambda>ist. length (is_buf ist))")
  fix ist x ist1 m
  assume "x = get_token ist ''''" "(ist1, m) = x" "\<not> is_fail ist1"
  then show "(ist1, ist) \<in> measure (\<lambda>ist. length (is_buf ist))"
    using get_token_consumes [of ist "''''" ist1 m] by simp
qed simp

declare members_loop.simps [simp del]

definition members :: "string \<Rightarrow> string list" where
  "members v = members_loop (istringstream v)"

fun cfg_value :: "string list \<Rightarrow> string" where
  "cfg_value [] = ''''"
| "cfg_value (m # ms) = m @ '' '' @ cfg_value ms"

definition get_view :: "u32 \<Rightarrow> config \<Rightarrow> string list \<times> config" where
  "get_view inst cf = (let (v, acc) = ac_value inst (cf_acc cf) in (members v, cf\<lparr>cf_acc := acc\<rparr>))"

definition reconstruct :: "config \<Rightarrow> config" where
  "reconstruct cf =
     (if instance_h (cf_acc cf) > 0
      then let cf1 = cf\<lparr>cf_myvid := instance_h (cf_acc cf)\<rparr>; (ms, cf2) = get_view (cf_myvid cf1) cf1
           in cf2\<lparr>cf_mems := ms\<rparr>
      else cf)"

text \<open>
  The constructor on a node whose log file holds \<open>file\<close>; the heartbeat thread it starts is below. \<open>g\<close> is
  the global table of handles.
\<close>

definition config_new :: "u32 \<Rightarrow> u32 \<Rightarrow> string \<Rightarrow> string \<Rightarrow> bool \<Rightarrow> string \<Rightarrow> handle_mgr \<Rightarrow> config option" where
  "config_new junk pjunk first me vc file g =
     do { acc \<leftarrow> acceptor_new junk True (me = first) me me file;
          Some (reconstruct \<lparr>cf_acc = acc, cf_pro = proposer_new pjunk me, cf_myvid = 0, cf_first = first,
                             cf_me = me, cf_vc = vc, cf_mems = [], cf_mgr = g\<rparr>) }"

definition cfg_restore :: "u32 \<Rightarrow> string \<Rightarrow> config \<Rightarrow> config option" where
  "cfg_restore junk s cf =
     do { acc \<leftarrow> ac_restore junk s (cf_acc cf); Some (reconstruct (cf\<lparr>cf_acc := acc\<rparr>)) }"

fun drop_handles :: "string \<Rightarrow> string list \<Rightarrow> string list \<Rightarrow> handle_mgr \<Rightarrow> handle_mgr option" where
  "drop_handles me newmem [] g = Some g"
| "drop_handles me newmem (m # ms) g =
     (if \<not> isamember m newmem \<and> me \<noteq> m
      then do { g1 \<leftarrow> delete_handle m g; drop_handles me newmem ms g1 }
      else drop_handles me newmem ms g)"

text \<open>The second component tells whether \<^verbatim>\<open>vc->commit_change()\<close> is called.\<close>

definition paxos_commit :: "u32 \<Rightarrow> string \<Rightarrow> config \<Rightarrow> (config \<times> bool) option" where
  "paxos_commit inst v cf =
     do { let newmem = members v;
          g \<leftarrow> drop_handles (cf_me cf) newmem (cf_mems cf) (cf_mgr cf);
          Some (cf\<lparr>cf_mgr := g, cf_mems := newmem, cf_myvid := inst\<rparr>, cf_vc cf) }"

definition ismember :: "string \<Rightarrow> config \<Rightarrow> bool" where
  "ismember m cf = isamember m (cf_mems cf)"

definition get_curview :: "config \<Rightarrow> string list \<times> config" where
  "get_curview cf = get_view (cf_myvid cf) cf"

definition get_prevview :: "config \<Rightarrow> string list \<times> config" where
  "get_prevview cf = get_view (cf_myvid cf - 1) cf"

definition print_curview :: "config \<Rightarrow> string" where
  "print_curview cf = print_members (cf_mems cf)"

section \<open>Changes of membership\<close>

text \<open>
  \<^verbatim>\<open>add\<close> and \<^verbatim>\<open>remove_wo\<close> compute the next view under the mutex and give the mutex up before they read the
  view number and the members for the proposer, so the two halves are separate steps.
\<close>

definition add_view :: "string \<Rightarrow> config \<Rightarrow> string" where
  "add_view new_m cf = cfg_value (cf_mems cf @ [new_m])"

fun without :: "string \<Rightarrow> string list \<Rightarrow> string list" where
  "without m [] = []"
| "without m (x # xs) = (if x \<noteq> m then x # without m xs else without m xs)"

definition remove_view :: "string \<Rightarrow> config \<Rightarrow> string" where
  "remove_view m cf = cfg_value (without m (cf_mems cf))"

definition propose_view :: "string \<Rightarrow> config \<Rightarrow> config" where
  "propose_view v cf =
     cf\<lparr>cf_pro := run_start (cf_myvid cf + 1) (cf_mems cf) v (cf_acc cf) (cf_pro cf)\<rparr>"

section \<open>Heartbeats\<close>

definition heartbeat :: "u32 \<Rightarrow> config \<Rightarrow> (int \<times> u32) option" where
  "heartbeat his cf =
     (if his = cf_myvid cf then Some (paxos_OK, cf_myvid cf)
      else if isrunning (cf_pro cf)
      then if his = cf_myvid cf + 1 \<or> his + 1 = cf_myvid cf then Some (paxos_OK, cf_myvid cf) else None
      else Some (paxos_ERR, cf_myvid cf))"

text \<open>
  \<open>bound\<close> is the status of \<^verbatim>\<open>bind\<close> when a new client is needed and \<open>answer\<close> the status of the remote call.
  The handle is given back when it goes out of scope.
\<close>

definition doheartbeat :: "string \<Rightarrow> int \<Rightarrow> int \<Rightarrow> config \<Rightarrow> (heartbeat_t \<times> config) option" where
  "doheartbeat m bound answer cf =
     do { let (h, g) = get_handle bound m (cf_mgr cf);
          let ret = (case h of None \<Rightarrow> -1 | Some _ \<Rightarrow> answer);
          let forget = (ret = -4 \<or> ret = -5);
          let res = (if ret = paxos_OK \<or> forget then HB_OK else if ret < 0 then HB_FAILURE else HB_VIEWERR);
          g1 \<leftarrow> (if ret \<noteq> paxos_OK \<and> forget then delete_handle m g else Some g);
          g2 \<leftarrow> (case h of None \<Rightarrow> Some g1 | Some p \<Rightarrow> done_handle p g1);
          Some (res, cf\<lparr>cf_mgr := g2\<rparr>) }"

text \<open>A node's number; \<open>junk\<close> is the variable before the extraction.\<close>

definition node_id :: "u64 \<Rightarrow> string \<Rightarrow> u64" where
  "node_id junk m = snd (get_unsigned (istringstream m) junk)"

fun least_node :: "u64 \<Rightarrow> string \<Rightarrow> string list \<Rightarrow> string" where
  "least_node junk m [] = m"
| "least_node junk m (x # xs) = (if node_id junk m > node_id junk x then least_node junk x xs else least_node junk m xs)"

text \<open>
  One round of the heartbeat thread: the node it decides to remove, if any, when \<open>beat\<close> is the result of
  a heartbeat to each node and the view stays the same during the round.
\<close>

fun first_failed :: "string \<Rightarrow> (string \<Rightarrow> heartbeat_t) \<Rightarrow> string list \<Rightarrow> string option" where
  "first_failed me beat [] = None"
| "first_failed me beat (x # xs) =
     (if x \<noteq> me \<and> beat x \<noteq> HB_OK then Some x else first_failed me beat xs)"

definition heartbeat_round :: "u64 \<Rightarrow> (string \<Rightarrow> heartbeat_t) \<Rightarrow> config \<Rightarrow> string option" where
  "heartbeat_round junk beat cf =
     (if \<not> isamember (cf_me cf) (cf_mems cf) then None
      else let m = least_node junk (cf_me cf) (cf_mems cf)
           in if m = cf_me cf then first_failed (cf_me cf) beat (cf_mems cf)
              else if beat m \<noteq> HB_OK then Some m else None)"

section \<open>Views are read back as proposed\<close>

lemma isspace_blank: "isspace (CHR '' '')"
  by (simp add: isspace_def)

lemma members_loop_blank: "members_loop \<lparr>is_buf = CHR '' '' # r, is_fail = False\<rparr> = members_loop \<lparr>is_buf = r, is_fail = False\<rparr>"
  by (simp add: members_loop.simps [of "\<lparr>is_buf = CHR '' '' # r, is_fail = False\<rparr>"]
      members_loop.simps [of "\<lparr>is_buf = r, is_fail = False\<rparr>"] get_token_skip [OF isspace_blank])

lemma members_value:
  assumes "\<forall>m\<in>set ms. token m"
  shows "members (cfg_value ms) = ms"
proof -
  have "members_loop \<lparr>is_buf = cfg_value ms, is_fail = False\<rparr> = ms"
    using assms
  proof (induction ms)
    case Nil
    then show ?case by (simp add: members_loop.simps get_token_blank)
  next
    case (Cons m ms)
    have "get_token \<lparr>is_buf = m @ CHR '' '' # cfg_value ms, is_fail = False\<rparr> '''' =
        (\<lparr>is_buf = CHR '' '' # cfg_value ms, is_fail = False\<rparr>, m)"
      using Cons.prems by (intro get_token_token isspace_blank) simp
    then show ?case using Cons members_loop_blank
      by (simp add: members_loop.simps [of "\<lparr>is_buf = m @ CHR '' '' # cfg_value ms, is_fail = False\<rparr>"])
  qed
  then show ?thesis by (simp add: members_def istringstream_def)
qed

lemma without_filter: "without m xs = filter (\<lambda>x. x \<noteq> m) xs"
  by (induction xs) auto

text \<open>A node that commits the view proposed by \<^verbatim>\<open>add\<close> or \<^verbatim>\<open>remove_wo\<close> of a node with the same members.\<close>

lemma committed_view:
  assumes "\<forall>m\<in>set (cf_mems cf). token m" "token x"
  shows "paxos_commit i (add_view x cf) cf' = Some (cf1, b) \<Longrightarrow> cf_mems cf1 = cf_mems cf @ [x] \<and> cf_myvid cf1 = i"
    and "paxos_commit i (remove_view x cf) cf' = Some (cf1, b) \<Longrightarrow>
      cf_mems cf1 = filter (\<lambda>y. y \<noteq> x) (cf_mems cf) \<and> cf_myvid cf1 = i"
  using members_value [of "cf_mems cf @ [x]"] members_value [of "filter (\<lambda>y. y \<noteq> x) (cf_mems cf)"] assms
  by (auto simp: paxos_commit_def add_view_def remove_view_def without_filter Let_def split: bind_splits)

end
