(* ===== verification/Rsm.thy ===== *)
theory Rsm
  imports Config
begin

text \<open>
  \<^verbatim>\<open>rsm.h\<close> and \<^verbatim>\<open>rsm.cc\<close>: the replicated state machine as far as the repository has it, that is, joining a
  view and choosing the primary; invocation and state transfer are empty there. The lemmas show that
  the primary a node chooses is a member of its current view and does not change while it stays one.
\<close>

section \<open>State\<close>

record rsm =
  rs_cfg :: config
  rs_myvs :: viewstamp
  rs_last_myvs :: viewstamp
  rs_primary :: string
  rs_insync :: bool
  rs_inviewchange :: bool
  rs_nbackup :: u32
  rs_partitioned :: bool
  rs_dopartition :: bool
  rs_break1 :: bool
  rs_break2 :: bool

abbreviation (input) rsm_OK :: int where "rsm_OK \<equiv> 0"
abbreviation (input) rsm_client_BUSY :: int where "rsm_client_BUSY \<equiv> 3"
abbreviation (input) rsm_test_ERR :: int where "rsm_test_ERR \<equiv> 1"

definition rsm_new :: "config \<Rightarrow> string \<Rightarrow> rsm" where
  "rsm_new cf first =
     \<lparr>rs_cfg = cf, rs_myvs = \<lparr>vid = 0, seqno = 1\<rparr>, rs_last_myvs = \<lparr>vid = 0, seqno = 0\<rparr>,
      rs_primary = first, rs_insync = False, rs_inviewchange = False, rs_nbackup = 0,
      rs_partitioned = False, rs_dopartition = False, rs_break1 = False, rs_break2 = False\<rparr>"

section \<open>The primary\<close>

text \<open>The members of the previous view by number; each is printed again before it is looked up.\<close>

fun first_listed :: "string list \<Rightarrow> u64 list \<Rightarrow> string option" where
  "first_listed c [] = None"
| "first_listed c (i # is) = (if isamember (show_word i) c then Some (show_word i) else first_listed c is)"

definition set_primary :: "u64 \<Rightarrow> rsm \<Rightarrow> rsm option" where
  "set_primary junk rs =
     (let (c, cf1) = get_curview (rs_cfg rs); (p, cf2) = get_prevview cf1; rs1 = rs\<lparr>rs_cfg := cf2\<rparr>
      in if c = [] then None
         else if isamember (rs_primary rs1) c then Some rs1
         else if p = [] then None
         else do { q \<leftarrow> first_listed c (sort (map (node_id junk) p)); Some (rs1\<lparr>rs_primary := q\<rparr>) })"

definition amiprimary_wo :: "rsm \<Rightarrow> bool" where
  "amiprimary_wo rs \<longleftrightarrow> rs_primary rs = cf_me (rs_cfg rs) \<and> \<not> rs_inviewchange rs"

definition amiprimary :: "rsm \<Rightarrow> bool" where
  "amiprimary rs = amiprimary_wo rs"

text \<open>The second component tells whether the node goes into recovery.\<close>

definition commit_change :: "u64 \<Rightarrow> rsm \<Rightarrow> (rsm \<times> bool) option" where
  "commit_change junk rs =
     do { rs1 \<leftarrow> set_primary junk rs; Some (rs1, \<not> ismember (cf_me (rs_cfg rs1)) (rs_cfg rs1)) }"

section \<open>Joining\<close>

text \<open>
  The handler of a join request up to \<^verbatim>\<open>cfg->add\<close>: either the reply, or the node to add; \<open>joinreq_end\<close> is
  the reply after the proposer has returned.
\<close>

definition joinreq_start :: "string \<Rightarrow> rsm \<Rightarrow> (int \<times> string option) + string" where
  "joinreq_start m rs =
     (if ismember m (rs_cfg rs) then Inl (rsm_OK, Some (ac_dump (cf_acc (rs_cfg rs))))
      else if cf_me (rs_cfg rs) \<noteq> rs_primary rs then Inl (rsm_client_BUSY, None)
      else Inr m)"

definition joinreq_end :: "rsm \<Rightarrow> int \<times> string option" where
  "joinreq_end rs = (rsm_OK, Some (ac_dump (cf_acc (rs_cfg rs))))"

text \<open>
  \<^verbatim>\<open>join\<close> after its call: \<open>h\<close> is the handle, \<open>answer\<close> the status and the log of the reply.
\<close>

definition join_result :: "u32 \<Rightarrow> string option \<Rightarrow> int \<times> string \<Rightarrow> rsm \<Rightarrow> (bool \<times> rsm) option" where
  "join_result junk h answer rs =
     (if h = None \<or> fst answer \<noteq> rsm_OK then Some (False, rs)
      else do { cf \<leftarrow> cfg_restore junk (snd answer) (rs_cfg rs); Some (True, rs\<lparr>rs_cfg := cf\<rparr>) })"

text \<open>
  The body of the inner loop of \<^verbatim>\<open>recovery\<close> for the outcome of \<^verbatim>\<open>join\<close>; the second component tells whether
  the node is a member now.
\<close>

definition recovery_round :: "u64 \<Rightarrow> bool \<Rightarrow> rsm \<Rightarrow> (rsm \<times> bool) option" where
  "recovery_round junk joined rs =
     do { rs1 \<leftarrow> (if joined then Some rs else set_primary junk rs);
          Some (rs1, ismember (cf_me (rs_cfg rs1)) (rs_cfg rs1)) }"

definition client_members :: "rsm \<Rightarrow> (int \<times> string list) \<times> rsm" where
  "client_members rs =
     (let (m, cf) = get_curview (rs_cfg rs) in ((rsm_OK, m @ [rs_primary rs]), rs\<lparr>rs_cfg := cf\<rparr>))"

definition breakpointreq :: "int \<Rightarrow> rsm \<Rightarrow> int \<times> rsm" where
  "breakpointreq b rs =
     (if b = 1 then (rsm_OK, rs\<lparr>rs_break1 := True\<rparr>)
      else if b = 2 then (rsm_OK, rs\<lparr>rs_break2 := True\<rparr>)
      else if b = 3 \<or> b = 4
      then (rsm_OK, rs\<lparr>rs_cfg := (rs_cfg rs)\<lparr>cf_pro := breakpoint b (cf_pro (rs_cfg rs))\<rparr>\<rparr>)
      else (rsm_test_ERR, rs))"

section \<open>The primary is a member of the view\<close>

lemma first_listed_member: "first_listed c xs = Some q \<Longrightarrow> isamember q c"
  by (induction xs) (auto split: if_splits)

lemma get_view_frame: "get_view i cf = (c, cf') \<Longrightarrow> cf_me cf' = cf_me cf \<and> cf_mems cf' = cf_mems cf \<and> cf_myvid cf' = cf_myvid cf"
  by (auto simp: get_view_def split: prod.splits)

lemma set_primary_member:
  assumes "set_primary junk rs = Some rs'"
  shows "isamember (rs_primary rs') (fst (get_curview (rs_cfg rs)))"
  using assms first_listed_member
  by (auto simp: set_primary_def Let_def split: prod.splits if_splits bind_splits)

lemma set_primary_stays:
  assumes "isamember (rs_primary rs) (fst (get_curview (rs_cfg rs)))"
  shows "\<exists>rs'. set_primary junk rs = Some rs' \<and> rs_primary rs' = rs_primary rs"
proof -
  obtain c cf1 p cf2 where v: "get_curview (rs_cfg rs) = (c, cf1)" "get_prevview cf1 = (p, cf2)" by fastforce
  then have "c \<noteq> []" using assms by auto
  then show ?thesis using assms v by (simp add: set_primary_def)
qed

text \<open>The members a client is told end with the primary, which \<^verbatim>\<open>init_members\<close> of the client relies on.\<close>

lemma client_members_primary: "last (snd (fst (client_members rs))) = rs_primary rs"
  by (simp add: client_members_def split: prod.split)

section \<open>The client\<close>

text \<open>
  \<^verbatim>\<open>rsm_client.cc\<close>. \<open>rl_nref\<close> counts the calls in progress at the primary, and \<open>rl_cl\<close> numbers the RPC
  clients in the order of their creation.
\<close>

record rsm_client =
  rl_id :: string
  rl_cl :: nat
  rl_nref :: int
  rl_known_mems :: "string list"

text \<open>
  \<open>answer\<close> is the status of the call for the members and the list of members after it, \<open>bound\<close> the status
  of \<^verbatim>\<open>bind\<close>.
\<close>

definition init_members :: "bool \<Rightarrow> int \<times> string list \<Rightarrow> int \<Rightarrow> rsm_client \<Rightarrow> (bool \<times> rsm_client) option" where
  "init_members send_member_rpc answer bound st =
     (let st1 = (if send_member_rpc then st\<lparr>rl_known_mems := snd answer\<rparr> else st)
      in if send_member_rpc \<and> fst answer \<noteq> rsm_OK then Some (False, st1)
         else if rl_known_mems st1 = [] then None
         else let new_primary = last (rl_known_mems st1);
                  st2 = st1\<lparr>rl_known_mems := butlast (rl_known_mems st1)\<rparr>
              in if new_primary = rl_id st2 then Some (True, st2)
                 else if rl_nref st2 \<noteq> 0 then None
                 else Some (\<not> bound < 0, st2\<lparr>rl_id := new_primary, rl_cl := rl_cl st2 + 1\<rparr>))"

text \<open>\<^verbatim>\<open>invoke\<close> before its call, and after it: whether the loop is left. \<^verbatim>\<open>primary_failure\<close> is empty.\<close>

definition invoke_call :: "rsm_client \<Rightarrow> rsm_client" where
  "invoke_call st = st\<lparr>rl_nref := rl_nref st + 1\<rparr>"

definition invoke_reply :: "int \<Rightarrow> int \<times> string list \<Rightarrow> int \<Rightarrow> rsm_client \<Rightarrow> (bool \<times> rsm_client) option" where
  "invoke_reply ret answer bound st =
     (let st1 = st\<lparr>rl_nref := rl_nref st - 1\<rparr>
      in if ret = rsm_OK then Some (True, st1)
         else if ret = rsm_client_BUSY then Some (False, st1)
         else if ret = 2 then do { (r, st2) \<leftarrow> init_members True answer bound st1; Some (False, st2) }
         else Some (False, st1))"

text \<open>
  Two calls in progress: when the first learns that the primary has moved, the assertion on the
  number of calls fails.
\<close>

lemma moved_primary_aborts:
  assumes "rl_nref st = 0" "ms \<noteq> []" "last ms \<noteq> rl_id st"
  shows "invoke_reply 2 (rsm_OK, ms) bound (invoke_call (invoke_call st)) = None"
  using assms by (simp add: invoke_reply_def invoke_call_def init_members_def)

text \<open>A primary that does not answer is called again for ever: no other status leaves the loop.\<close>

lemma dead_primary_retried:
  "ret < 0 \<Longrightarrow> invoke_reply ret answer bound (invoke_call st) = Some (False, st)"
  by (simp add: invoke_reply_def invoke_call_def)

end
