(* ===== verification/Spec2Isabelle.thy ===== *)
theory Spec2Isabelle
  imports
    Prelude Stdcxx Marshall Rpc_Server Lock_Server Lock_Server_Cache Lock_Client_Cache Lock_System
    Lock_Exclusion Extent Yfs_Client Fuse Protocols Rpc_Stub Rpc_Client Rpc_Client_System
    Connection Thr_Pool Log Paxos Paxos_Agreement Handle Config Rsm
begin

text \<open>
  A verification of YFS, a distributed file system in C++ after Frangipani: a FUSE server turns
  file operations into operations on extents, which several clients cache under locks; the lock
  service hands locks between clients; both talk over an RPC library of their own with at-most-once
  semantics; and a Paxos-based group service keeps the membership of a replicated lock server.

  \<^bold>\<open>The parts and the theories that model them.\<close> File names are relative to \<^verbatim>\<open>src/\<close>.

  \<^item> \<^verbatim>\<open>Prelude\<close>: word types, idioms on \<^verbatim>\<open>std::list\<close>, the lemma collections. \<^verbatim>\<open>Stdcxx\<close>: string streams, white
    space, decimal output, as the sources use them.
  \<^item> \<^verbatim>\<open>Marshall\<close> (\<^verbatim>\<open>rpc/marshall.h\<close> and the operators of \<^verbatim>\<open>rpc/rpc.cc\<close>): the output buffer with its growth, the
    input buffer with its \<^verbatim>\<open>ok\<close> flag, the operators for each type, the RPC headers. The locale \<^verbatim>\<open>codec\<close> states
    what writing and reading a type promise and is interpreted for every type that is sent.
    \<^verbatim>\<open>Protocols\<close> adds the messages of Paxos and of the replicated state machine.
  \<^item> \<^verbatim>\<open>Connection\<close> (\<^verbatim>\<open>rpc/connection.cc\<close>): packets over a byte stream, with partial reads and writes.
    \<^verbatim>\<open>Thr_Pool\<close> (\<^verbatim>\<open>rpc/fifo.h\<close>, \<^verbatim>\<open>rpc/thr_pool.cc\<close>): the bounded queue, as an instance of the locale
    \<^verbatim>\<open>job_queue\<close>, and the worker threads.
  \<^item> \<^verbatim>\<open>Rpc_Server\<close> (class \<^verbatim>\<open>rpcs\<close>): dispatch, the reply window, reference counts, and a system of dispatch
    threads. \<^verbatim>\<open>Rpc_Client\<close> and \<^verbatim>\<open>Rpc_Client_System\<close> (class \<^verbatim>\<open>rpcc\<close>): the window of replied xids, \<^verbatim>\<open>call1\<close> with its
    deadlines, and any number of calling threads. \<^verbatim>\<open>Rpc_Stub\<close> (\<^verbatim>\<open>rpc/rpc.h\<close>, \<^verbatim>\<open>lock_client.cc\<close>): the
    \<^verbatim>\<open>call\<close> and \<^verbatim>\<open>reg\<close> templates.
  \<^item> \<^verbatim>\<open>Lock_Server\<close> (\<^verbatim>\<open>lock_server.cc\<close>): the plain lock server. \<^verbatim>\<open>Lock_Server_Cache\<close> and \<^verbatim>\<open>Lock_Client_Cache\<close>: the
    two halves of the caching lock service; \<^verbatim>\<open>Lock_System\<close> runs them with messages in flight and
    \<^verbatim>\<open>Lock_Exclusion\<close> proves mutual exclusion.
  \<^item> \<^verbatim>\<open>Extent\<close> (\<^verbatim>\<open>extent_server.cc\<close>, \<^verbatim>\<open>extent_client.cc\<close>): the store and its write-back cache. The locale
    \<^verbatim>\<open>extent_store\<close> is what the file system relies on; it is interpreted on the extent client and, in
    \<^verbatim>\<open>Yfs_Client\<close>, on the locked accesses of the file system.
  \<^item> \<^verbatim>\<open>Yfs_Client\<close> (\<^verbatim>\<open>yfs_client.cc\<close>): files and directories over extents. \<^verbatim>\<open>Fuse\<close> (\<^verbatim>\<open>fuse.cc\<close>): the handlers.
  \<^item> \<^verbatim>\<open>Log\<close> (\<^verbatim>\<open>log.cc\<close>), \<^verbatim>\<open>Paxos\<close> (\<^verbatim>\<open>paxos.cc\<close>), \<^verbatim>\<open>Paxos_Agreement\<close>: the log, the acceptor and the proposer, and
    a system of any number of nodes. \<^verbatim>\<open>Handle\<close> (\<^verbatim>\<open>handle.cc\<close>), \<^verbatim>\<open>Config\<close> (\<^verbatim>\<open>config.cc\<close>), \<^verbatim>\<open>Rsm\<close> (\<^verbatim>\<open>rsm.cc\<close>,
    \<^verbatim>\<open>rsm_client.cc\<close>): shared RPC clients, views, the primary and the client.

  \<^bold>\<open>Conventions.\<close> A C++ object is a record with the fields of the class; an operation is a function of
  the same name (with a prefix where names clash) from the state before to the state after. \<^const>\<open>None\<close> is
  a failed assertion, undefined behaviour, or a thread that does not get past the operation; the text
  at each definition says which. A critical section is one step. A function that gives up its mutex or
  makes a remote call is cut there into several functions, and a system theory interleaves the parts
  as events in any order. Variables that the program reads before it sets them are parameters named
  \<open>junk\<close>; the results of system calls and of \<^verbatim>\<open>random\<close>, \<^verbatim>\<open>time\<close> and the clock are parameters too. Unsigned
  integers are words of their width; signed ones are words or integers, with the wrap-around written
  out where a value can reach it.

  \<^bold>\<open>What is shown.\<close>
  \<^item> Wire format: headers, strings, vectors and the protocol messages are read back as written and
    reads stay inside the packet, except for a length near \<open>2\<^sup>3\<^sup>2\<close>, for which the bound check wraps.
  \<^item> Connections hand up whole packets in order, for all splittings of the stream.
  \<^item> RPC: a handler runs at most once for a request and a retransmission gets the stored reply; the
    stubs make a remote call the call of the method; the client acknowledges exactly the replied
    prefix, returns within a bounded number of waits, and uses no freed connection.
  \<^item> Locks: mutual exclusion of the plain server in all runs and of the caching service in the runs
    in which the releaser of a client acts only on locks the client owns; a revocation that arrives
    before the grant breaks it, by a concrete run.
  \<^item> Extents and files: the cache refines a store of contents, a flush makes changes visible, what is
    written is read, created names are found, removed names are gone, every access is under the lock.
  \<^item> FUSE: the bounds of reads, the pages of a directory listing, one reply for each request, and the
    case in which there is none.
  \<^item> Paxos: agreement for all interleavings with lost and late messages when rounds have different
    numbers, disagreement by a concrete run when they have not, and recovery from the log.
  \<^item> Handles, views, the primary and the thread pool have lemmas in their theories: a handle in use
    has its client, a view is read back as proposed, the primary is a member, jobs run in order.
  Theorems about defects of the code state what the code does, on the inputs on which it does it.

  \<^bold>\<open>Bounds.\<close> The loops over streams and lists are total functions with a measure. The loop that draws
  inode numbers recurses on the list of random numbers it is given and is \<^const>\<open>None\<close> when they run out; a
  lemma says that one unused number is enough. The loop of \<^verbatim>\<open>call1\<close> recurses on its waits, and seven
  suffice for the default timeout. A worker of the pool has as many steps as it is given, and one more
  than the queued jobs is enough. The client's runs have fewer than \<open>2\<^sup>3\<^sup>2 - 1\<close> events, so that no xid
  repeats.

  \<^bold>\<open>Not modelled.\<close> The poll manager (\<^verbatim>\<open>rpc/pollmgr.cc\<close>) and the accepting thread of \<^verbatim>\<open>tcpsconn\<close> are loops
  around \<^verbatim>\<open>select\<close>, \<^verbatim>\<open>epoll\<close>, \<^verbatim>\<open>accept\<close> and pipes; their effect on a connection is part of its model.
  \<^verbatim>\<open>slock.h\<close>, \<^verbatim>\<open>method_thread.h\<close>, \<^verbatim>\<open>jsl_log\<close> and \<^verbatim>\<open>gettime\<close> wrap the thread library, printing and the clock.
  \<^verbatim>\<open>make_sockaddr\<close> resolves host names. Invocation and state transfer of the replicated state machine are
  empty in the source, and its partition switches serve the tester. The main programs, the start of
  the FUSE session, the testers and the scripts have no state of their own to verify. The Paxos
  handlers are taken to be atomic although the source does not lock them, and a heartbeat round is
  modelled for a view that does not change during it.
\<close>

end
